(* ===== verification/Prelude.thy ===== *)
theory Prelude
  imports Main "HOL-Library.Word"
begin

text \<open>
  Shared vocabulary of the development: the machine-integer types of the driver
  (\<open>uint64_t\<close> page numbers and counts, \<open>int\<close> return codes), the outcomes of a driver
  routine that does not return normally (a wait that is never woken, an access past
  a \<open>vmalloc\<close>'d array, a NULL dereference, a loop that never ends), the sequencing
  of such outcomes, checked array reads, and the page-range arithmetic that turns
  the C comparisons \<open>a >= v && a < v + n\<close> on \<open>uint64_t\<close> into membership in a
  range of naturals when \<open>v + n\<close> does not wrap.
\<close>

unbundle bit_operations_syntax

type_synonym u64 = "64 word"

named_theorems range_simps "page-range facts used by the region proofs"

section \<open>Outcomes of driver routines\<close>

text \<open>
  A driver routine either returns (\<open>Inr\<close>, with its result and the new state) or
  never returns normally (\<open>Inl\<close>): it blocks in \<open>wait_event_interruptible\<close> on a flag
  nobody sets, it reads or writes past an array it allocated, it dereferences a NULL
  array, it stops the kernel in a \<open>BUG_ON\<close> (an allocation of zero bytes returns NULL),
  or it loops forever.
\<close>

datatype fault = Blocked | Oob_read | Oob_write | Null_deref | Bug_on | Diverges

type_synonym 'a outcome = "fault + 'a"

definition obind :: "'a outcome \<Rightarrow> ('a \<Rightarrow> 'b outcome) \<Rightarrow> 'b outcome" where
  "obind x f = (case x of Inl e \<Rightarrow> Inl e | Inr a \<Rightarrow> f a)"

text \<open>A C array read \<open>a[i]\<close> of an array of \<open>length a\<close> elements.\<close>

definition read_at :: "'a list \<Rightarrow> nat \<Rightarrow> 'a outcome" where
  "read_at xs i = (if i < length xs then Inr (xs ! i) else Inl Oob_read)"

text \<open>A loop reading \<open>a[0]\<close> to \<open>a[n-1]\<close> of an array of \<open>length a\<close> elements.\<close>

definition read_prefix :: "'a list \<Rightarrow> nat \<Rightarrow> 'a list outcome" where
  "read_prefix xs n = (if n \<le> length xs then Inr (take n xs) else Inl Oob_read)"

section \<open>Runs that may not return\<close>

text \<open>
  A user-space run that may loop forever: \<open>None\<close> when it does not return, \<open>Some (Inl e)\<close>
  when it stops with the error \<open>e\<close>, \<open>Some (Inr a)\<close> when it returns \<open>a\<close>. Loops over
  such runs are \<open>partial_function (option)\<close>s; \<open>pbind_mono\<close> below lets the
  recursive call appear under \<open>pbind\<close>.
\<close>

type_synonym ('e, 'a) prun = "('e + 'a) option"

definition pbind :: "('e, 'a) prun \<Rightarrow> ('a \<Rightarrow> ('e, 'b) prun) \<Rightarrow> ('e, 'b) prun" where
  "pbind x f = Option.bind x (\<lambda>r. case r of Inl e \<Rightarrow> Some (Inl e) | Inr a \<Rightarrow> f a)"

text \<open>Running a step on each element of a list in turn, stopping at the first error.\<close>

fun pfold :: "('i \<Rightarrow> 's \<Rightarrow> ('e, 's) prun) \<Rightarrow> 'i list \<Rightarrow> 's \<Rightarrow> ('e, 's) prun" where
  "pfold f [] s = Some (Inr s)"
| "pfold f (x # xs) s = pbind (f x s) (pfold f xs)"

section \<open>Page ranges on 64-bit page numbers\<close>

text \<open>
  The C guard of \<open>tlb_get_user_pages\<close>, \<open>vaddr + n_pages < vaddr\<close>, rejects exactly
  the ranges whose end wraps around \<open>2^64\<close>. A range that passes it is an interval of
  naturals.
\<close>

definition no_wrap :: "u64 \<Rightarrow> u64 \<Rightarrow> bool" where
  "no_wrap v n \<longleftrightarrow> \<not> (v + n < v)"

definition page_range :: "u64 \<Rightarrow> u64 \<Rightarrow> nat set" where
  "page_range v n = {unat v ..< unat v + unat n}"

section \<open>Lemmas\<close>

lemma obind_Inl [simp]: "obind (Inl e) f = Inl e"
  by (simp add: obind_def)

lemma obind_Inr [simp]: "obind (Inr a) f = f a"
  by (simp add: obind_def)

lemma obind_cong [fundef_cong]:
  "x = y \<Longrightarrow> (\<And>a. y = Inr a \<Longrightarrow> f a = g a) \<Longrightarrow> obind x f = obind y g"
  by (cases y) auto

lemma obind_eq_Inr:
  "obind x f = Inr b \<longleftrightarrow> (\<exists>a. x = Inr a \<and> f a = Inr b)"
  by (cases x) auto

lemma obind_eq_Inl:
  "obind x f = Inl e \<longleftrightarrow> x = Inl e \<or> (\<exists>a. x = Inr a \<and> f a = Inl e)"
  by (cases x) auto

lemma pbind_mono [partial_function_mono]:
  assumes "mono_option B" and "\<And>y. mono_option (\<lambda>f. C y f)"
  shows "mono_option (\<lambda>f. pbind (B f) (\<lambda>y. C y f))"
  unfolding pbind_def
proof (rule bind_mono [OF assms(1)])
  fix r
  show "mono_option (\<lambda>f. case r of Inl e \<Rightarrow> Some (Inl e) | Inr a \<Rightarrow> C a f)"
    using assms(2) by (cases r) (simp_all add: option.const_mono)
qed

lemma pbind_simps [simp]:
  "pbind None f = None"
  "pbind (Some (Inl e)) f = Some (Inl e)"
  "pbind (Some (Inr a)) f = f a"
  by (simp_all add: pbind_def)

lemma pbind_eq_Some_Inr:
  "pbind x f = Some (Inr b) \<longleftrightarrow> (\<exists>a. x = Some (Inr a) \<and> f a = Some (Inr b))"
  by (cases x rule: option.exhaust) (auto simp: pbind_def split: sum.splits)

lemma pbind_eq_None:
  "pbind x f = None \<longleftrightarrow> x = None \<or> (\<exists>a. x = Some (Inr a) \<and> f a = None)"
  by (cases x rule: option.exhaust) (auto simp: pbind_def split: sum.splits)

lemma pbind_cong [fundef_cong]:
  "x = y \<Longrightarrow> (\<And>a. y = Some (Inr a) \<Longrightarrow> f a = g a) \<Longrightarrow> pbind x f = pbind y g"
  by (cases y rule: option.exhaust) (auto simp: pbind_def split: sum.splits)

lemma pfold_append:
  "pfold f (xs @ ys) s = pbind (pfold f xs s) (pfold f ys)"
proof (induction xs arbitrary: s)
  case Nil
  then show ?case by simp
next
  case (Cons x xs)
  then show ?case
    by (cases "f x s" rule: option.exhaust) (auto simp: pbind_def split: sum.splits)
qed

lemma read_at_in [simp]: "i < length xs \<Longrightarrow> read_at xs i = Inr (xs ! i)"
  by (simp add: read_at_def)

lemma read_at_out [simp]: "\<not> i < length xs \<Longrightarrow> read_at xs i = Inl Oob_read"
  by (simp add: read_at_def)

lemma unat_lt_2p64: "unat (w :: u64) < 2 ^ 64"
  using unsigned_less [where 'a = nat and w = w] by simp

lemma no_wrap_unat [range_simps]: "no_wrap v n \<longleftrightarrow> unat v + unat n < 2 ^ 64"
  by (simp add: no_wrap_def not_less no_olen_add_nat)

lemma unat_add_no_wrap [range_simps]: "no_wrap v n \<Longrightarrow> unat (v + n) = unat v + unat n"
  by (simp add: no_wrap_unat unat_add_lem [THEN iffD1])

lemma no_wrap_mono:
  assumes "no_wrap v n" and "m \<le> n"
  shows "no_wrap v m"
  using assms by (simp add: no_wrap_unat word_le_nat_alt)

lemma in_range_iff [range_simps]:
  "no_wrap v n \<Longrightarrow> (v \<le> p \<and> p < v + n) \<longleftrightarrow> unat p \<in> page_range v n"
  by (simp add: page_range_def word_le_nat_alt word_less_nat_alt unat_add_no_wrap)

lemma end_less_iff [range_simps]:
  "no_wrap v n \<Longrightarrow> no_wrap w m \<Longrightarrow> (v + n < w + m) \<longleftrightarrow> unat v + unat n < unat w + unat m"
  by (simp add: word_less_nat_alt unat_add_no_wrap)

lemma start_less_end_iff [range_simps]:
  "no_wrap v n \<Longrightarrow> (w < v + n) \<longleftrightarrow> unat w < unat v + unat n"
  by (simp add: word_less_nat_alt unat_add_no_wrap)

lemma unat_diff_le [range_simps]: "w \<le> v \<Longrightarrow> unat (v - w) = unat v - unat w"
  by (simp add: unat_sub)

lemma page_range_disjoint_iff:
  "page_range v n \<inter> page_range w m = {} \<longleftrightarrow>
     unat n = 0 \<or> unat m = 0 \<or> unat v + unat n \<le> unat w \<or> unat w + unat m \<le> unat v"
  by (auto simp: page_range_def)

lemma unat_pow2: "d < LENGTH('a) \<Longrightarrow> unat (2 ^ d :: 'a::len word) = 2 ^ d"
proof -
  assume "d < LENGTH('a)"
  then have lt: "(2::nat) ^ d < 2 ^ LENGTH('a)" by simp
  have "(2 ^ d :: 'a word) = word_of_nat (2 ^ d)" by simp
  then show ?thesis using lt by (metis unat_of_nat mod_less)
qed

lemma scast_of_nat_small:
  "m < 2 ^ 31 \<Longrightarrow> (scast (word_of_nat m :: 32 word) :: u64) = word_of_nat m"
  by (simp add: signed_of_nat signed_take_bit_int_eq_self)

lemma unat_ucast_small: "unat w < 2 ^ 32 \<Longrightarrow> unat (ucast (w :: u64) :: 32 word) = unat w"
  by (simp add: unsigned_ucast_eq take_bit_nat_eq_self)

end
