(* ===== verification/Region_Table.thy ===== *)
theory Region_Table
  imports Prelude
begin

text \<open>
  The Region Table of \<open>fpga_gup.c\<close>: the pinned-region record \<open>struct user_pages\<close>,
  the aligned fault descriptor \<open>struct desc_aligned\<close>, the driver configuration
  \<open>struct bus_drvdata\<close> and the per-device, per-context kernel hash table
  \<open>user_buff_map[d->id][cpid]\<close> (line 41), with the kernel's \<open>hash_add\<close>,
  \<open>hash_del\<close>, \<open>hash_for_each\<close> and \<open>hash_for_each_possible\<close>. The table of one
  (device, context) pair is a list of buckets; a bucket is the list of its entries
  in \<open>hlist\<close> order (\<open>hash_add\<close> inserts at the head). An entry is named by its
  position (bucket, index), which plays the role of the \<open>struct user_pages *\<close>
  pointer the C code passes around. The invariant \<open>table_inv\<close> says every entry
  sits in the bucket of its start page, is well formed, and that no two regions of
  the table overlap.
\<close>

unbundle bit_operations_syntax

section \<open>Data\<close>

text \<open>\<open>struct tlb_order\<close>: the fields of the page order the driver reads.\<close>

record tlb_order =
  hugepage :: bool
  page_shift :: nat
  page_mask :: u64

text \<open>
  \<open>struct bus_drvdata\<close>, the fields the GUP path reads, together with the two
  compile-time constants of \<open>fpga_gup.h\<close> it depends on (\<open>MAX_N_MAP_PAGES\<close>,
  \<open>USER_HASH_TABLE_ORDER\<close>).
\<close>

record bus_drvdata =
  stlb_order :: tlb_order
  ltlb_order :: tlb_order
  n_pages_in_huge :: u64
  dif_order_page_shift :: nat
  en_mem :: bool
  max_n_map_pages :: nat
  hash_order :: nat

text \<open>\<open>struct desc_aligned\<close>: the aligned fault, start page and page count.\<close>

record desc_aligned =
  pfa_vaddr :: u64
  pfa_n_pages :: u64
  pfa_cpid :: nat
  pfa_hugepages :: bool

text \<open>
  \<open>struct user_pages\<close>: one pinned region. \<open>up_pages\<close> are the pinned page frames
  (\<open>struct page *\<close>, named by frame number), \<open>up_hpages\<close> their physical addresses,
  \<open>up_cpages\<close> the card pages (\<open>None\<close> is the NULL pointer left by \<open>kzalloc\<close> when
  the device has no card memory).
\<close>

record user_pages =
  up_vaddr :: u64
  up_huge :: bool
  up_cpid :: nat
  up_n_pages :: u64
  up_host :: bool
  up_pages :: "u64 list"
  up_hpages :: "u64 list"
  up_cpages :: "u64 list option"

type_synonym bucket_table = "user_pages list list"
type_synonym entry_pos = "nat \<times> nat"

section \<open>The kernel hash table\<close>

text \<open>
  \<open>hash_min\<close> on a 64-bit key is \<open>hash_64\<close> of \<open>include/linux/hash.h\<close>: multiply by
  the 64-bit golden ratio and keep the top \<open>bits\<close> bits.
\<close>

definition GOLDEN_RATIO_64 :: u64 where
  "GOLDEN_RATIO_64 = 0x61C8864680B583EB"

definition hash_64 :: "u64 \<Rightarrow> nat \<Rightarrow> nat" where
  "hash_64 k bits = unat (drop_bit (64 - bits) (k * GOLDEN_RATIO_64))"

definition empty_table :: "nat \<Rightarrow> bucket_table" where
  "empty_table bits = replicate (2 ^ bits) []"

text \<open>\<open>hash_add(table, &e->entry, key)\<close>: insert at the head of the key's bucket.\<close>

definition hash_add :: "nat \<Rightarrow> bucket_table \<Rightarrow> user_pages \<Rightarrow> u64 \<Rightarrow> bucket_table" where
  "hash_add bits tbl e k = (let b = hash_64 k bits in tbl[b := e # tbl ! b])"

text \<open>\<open>hash_del(&e->entry)\<close> of the entry at a position.\<close>

definition hash_del :: "bucket_table \<Rightarrow> entry_pos \<Rightarrow> bucket_table" where
  "hash_del tbl p = (let (b, i) = p in tbl[b := take i (tbl ! b) @ drop (Suc i) (tbl ! b)])"

definition entry_at :: "bucket_table \<Rightarrow> entry_pos \<Rightarrow> user_pages" where
  "entry_at tbl p = (let (b, i) = p in tbl ! b ! i)"

definition valid_pos :: "bucket_table \<Rightarrow> entry_pos \<Rightarrow> bool" where
  "valid_pos tbl p \<longleftrightarrow> (let (b, i) = p in b < length tbl \<and> i < length (tbl ! b))"

text \<open>A store through the entry pointer (\<open>user_pg->host = ...\<close>).\<close>

definition update_entry :: "bucket_table \<Rightarrow> entry_pos \<Rightarrow> (user_pages \<Rightarrow> user_pages) \<Rightarrow> bucket_table" where
  "update_entry tbl p f = (let (b, i) = p in tbl[b := (tbl ! b)[i := f (tbl ! b ! i)]])"

text \<open>The entries in \<open>hash_for_each\<close> order: bucket by bucket, each in list order.\<close>

abbreviation table_entries :: "bucket_table \<Rightarrow> user_pages list" where
  "table_entries tbl \<equiv> concat tbl"

section \<open>Regions and the table invariant\<close>

definition region_range :: "user_pages \<Rightarrow> nat set" where
  "region_range e = page_range (up_vaddr e) (up_n_pages e)"

definition regions_disjoint :: "user_pages \<Rightarrow> user_pages \<Rightarrow> bool" where
  "regions_disjoint e f \<longleftrightarrow> region_range e \<inter> region_range f = {}"

text \<open>
  A well-formed entry, as \<open>tlb_get_user_pages\<close> builds it: a nonempty range that does
  not wrap, one frame and one physical address per page, and as many card pages as
  pages when card pages exist.
\<close>

definition entry_wf :: "user_pages \<Rightarrow> bool" where
  "entry_wf e \<longleftrightarrow>
     0 < up_n_pages e \<and> no_wrap (up_vaddr e) (up_n_pages e) \<and>
     length (up_pages e) = unat (up_n_pages e) \<and>
     length (up_hpages e) = unat (up_n_pages e) \<and>
     (case up_cpages e of None \<Rightarrow> True | Some cs \<Rightarrow> length cs = unat (up_n_pages e))"

definition table_inv :: "nat \<Rightarrow> bucket_table \<Rightarrow> bool" where
  "table_inv bits tbl \<longleftrightarrow>
     length tbl = 2 ^ bits \<and>
     (\<forall>b < length tbl. \<forall>e \<in> set (tbl ! b). hash_64 (up_vaddr e) bits = b \<and> entry_wf e) \<and>
     sorted_wrt regions_disjoint (table_entries tbl)"

subsection \<open>Fixture\<close>

text \<open>A base-page region with \<open>n\<close> pages starting at page \<open>v\<close>, host-resident, no card pages.\<close>

definition ex_region :: "u64 \<Rightarrow> u64 \<Rightarrow> user_pages" where
  "ex_region v n = \<lparr>up_vaddr = v, up_huge = False, up_cpid = 0, up_n_pages = n, up_host = True,
     up_pages = replicate (unat n) 0, up_hpages = replicate (unat n) 0, up_cpages = None\<rparr>"

text \<open>A base-page fault of context 0 for \<open>n\<close> pages from page \<open>v\<close>.\<close>

definition ex_fault :: "u64 \<Rightarrow> u64 \<Rightarrow> desc_aligned" where
  "ex_fault v n = \<lparr>pfa_vaddr = v, pfa_n_pages = n, pfa_cpid = 0, pfa_hugepages = False\<rparr>"

section \<open>Lemmas\<close>

lemma table_inv_wf:
  assumes "table_inv bits tbl"
  shows "\<forall>e\<in>set (table_entries tbl). entry_wf e"
proof
  fix e assume "e \<in> set (table_entries tbl)"
  then obtain bk where "bk \<in> set tbl" "e \<in> set bk"
    by auto
  then obtain b where "b < length tbl" "e \<in> set (tbl ! b)"
    by (metis in_set_conv_nth)
  with assms show "entry_wf e"
    by (auto simp: table_inv_def)
qed

lemma regions_disjoint_iff:
  "regions_disjoint e f \<longleftrightarrow> unat (up_n_pages e) = 0 \<or> unat (up_n_pages f) = 0 \<or>
     unat (up_vaddr e) + unat (up_n_pages e) \<le> unat (up_vaddr f) \<or>
     unat (up_vaddr f) + unat (up_n_pages f) \<le> unat (up_vaddr e)"
  by (simp add: regions_disjoint_def region_range_def page_range_disjoint_iff)


lemma hash_64_bound: "hash_64 k bits < 2 ^ bits"
proof (cases "bits \<le> 64")
  case True
  have "unat (k * GOLDEN_RATIO_64) < 2 ^ 64" using unsigned_less [of "k * GOLDEN_RATIO_64"] by simp
  then have "unat (k * GOLDEN_RATIO_64) div 2 ^ (64 - bits) < 2 ^ bits"
    using True by (simp add: less_mult_imp_div_less power_add [symmetric])
  then show ?thesis unfolding hash_64_def unat_drop_bit_eq by (simp add: drop_bit_eq_div)
next
  case False
  have "hash_64 k bits < 2 ^ 64" unfolding hash_64_def using unsigned_less [of "drop_bit (64 - bits) (k * GOLDEN_RATIO_64)"] by simp
  also have "(2::nat) ^ 64 \<le> 2 ^ bits" using False by (intro power_increasing) simp_all
  finally show ?thesis .
qed

lemma concat_update:
  "b < length tbl \<Longrightarrow> concat (tbl[b := bk]) = concat (take b tbl) @ bk @ concat (drop (Suc b) tbl)"
  by (simp add: upd_conv_take_nth_drop)

lemma concat_split:
  "b < length tbl \<Longrightarrow> concat tbl = concat (take b tbl) @ tbl ! b @ concat (drop (Suc b) tbl)"
  using concat_update [of b tbl "tbl ! b"] by simp
lemma sorted_wrt_move_front:
  assumes sym: "\<And>x y. R x y \<Longrightarrow> R y x"
  shows "sorted_wrt R (xs @ y # zs) \<longleftrightarrow> sorted_wrt R (y # xs @ zs)"
proof -
  have "sorted_wrt R (xs @ y # zs) \<longleftrightarrow>
      sorted_wrt R xs \<and> (\<forall>z\<in>set zs. R y z) \<and> sorted_wrt R zs \<and>
      (\<forall>x\<in>set xs. R x y) \<and> (\<forall>x\<in>set xs. \<forall>z\<in>set zs. R x z)"
    by (simp add: sorted_wrt_append ball_conj_distrib conj_ac)
  also have "\<dots> \<longleftrightarrow> sorted_wrt R (y # xs @ zs)"
    using sym by (auto simp: sorted_wrt_append)
  finally show ?thesis .
qed
lemma regions_disjoint_commute: "regions_disjoint e f \<Longrightarrow> regions_disjoint f e"
  by (auto simp: regions_disjoint_def)
lemma sorted_wrt_insert_bucket:
  assumes "b < length tbl"
  shows "sorted_wrt regions_disjoint (concat (tbl[b := e # tbl ! b])) \<longleftrightarrow>
    (\<forall>f\<in>set (concat tbl). regions_disjoint e f) \<and> sorted_wrt regions_disjoint (concat tbl)"
proof -
  let ?A = "concat (take b tbl)" and ?B = "tbl ! b" and ?C = "concat (drop (Suc b) tbl)"
  have l: "concat (tbl[b := e # tbl ! b]) = ?A @ e # (?B @ ?C)"
    using concat_update [OF assms, of "e # tbl ! b"] by simp
  have r: "concat tbl = ?A @ ?B @ ?C"
    using assms by (rule concat_split)
  have m: "sorted_wrt regions_disjoint (?A @ e # (?B @ ?C)) \<longleftrightarrow> sorted_wrt regions_disjoint (e # ?A @ ?B @ ?C)"
    by (rule sorted_wrt_move_front) (rule regions_disjoint_commute)
  show ?thesis
    unfolding l m by (subst (1 2) r) simp
qed
lemma table_inv_hash_add:
  assumes inv: "table_inv bits tbl" and wf: "entry_wf e"
    and dis: "\<forall>f\<in>set (concat tbl). regions_disjoint e f"
  shows "table_inv bits (hash_add bits tbl e (up_vaddr e))"
proof -
  let ?b = "hash_64 (up_vaddr e) bits"
  have len: "length tbl = 2 ^ bits" using inv by (simp add: table_inv_def)
  have b: "?b < length tbl" using len hash_64_bound by simp
  have "sorted_wrt regions_disjoint (concat tbl)" using inv by (simp add: table_inv_def)
  with dis have s: "sorted_wrt regions_disjoint (concat (tbl[?b := e # tbl ! ?b]))"
    by (simp add: sorted_wrt_insert_bucket [OF b])
  have old: "\<forall>c < length tbl. \<forall>f \<in> set (tbl ! c). hash_64 (up_vaddr f) bits = c \<and> entry_wf f"
    using inv by (simp add: table_inv_def)
  have "\<forall>c < length tbl. \<forall>f \<in> set (tbl[?b := e # tbl ! ?b] ! c). hash_64 (up_vaddr f) bits = c \<and> entry_wf f"
  proof (intro allI impI ballI)
    fix c f assume c: "c < length tbl" and f: "f \<in> set (tbl[?b := e # tbl ! ?b] ! c)"
    show "hash_64 (up_vaddr f) bits = c \<and> entry_wf f"
    proof (cases "c = ?b")
      case True
      with f b have "f = e \<or> f \<in> set (tbl ! c)" by simp
      with True old c wf show ?thesis by blast
    next
      case False
      with f have "f \<in> set (tbl ! c)" by simp
      with old c show ?thesis by blast
    qed
  qed
  note all = this
  have h: "hash_add bits tbl e (up_vaddr e) = tbl[?b := e # tbl ! ?b]"
    by (simp add: hash_add_def Let_def)
  show ?thesis
    unfolding table_inv_def h length_list_update using len all s by blast
qed

lemma sub_range:
  assumes "page_range v n \<subseteq> region_range up" "0 < n"
  shows "up_vaddr up \<le> v \<and> unat (v - up_vaddr up) + unat n \<le> unat (up_n_pages up)"
proof -
  have "0 < unat n" using assms(2) by (simp add: unat_gt_0)
  then have "unat (up_vaddr up) \<le> unat v \<and> unat v + unat n \<le> unat (up_vaddr up) + unat (up_n_pages up)"
    using assms(1) unfolding page_range_def region_range_def
    by (simp add: atLeastLessThan_subset_iff)
  then show ?thesis by (simp add: word_le_nat_alt unat_sub) linarith
qed

lemma sorted_wrt_regions_disjoint:
  "sorted_wrt regions_disjoint xs \<longleftrightarrow> sorted_wrt (\<lambda>A B. A \<inter> B = {}) (map region_range xs)"
  by (simp add: sorted_wrt_map regions_disjoint_def [abs_def])

lemma map_update_same:
  "(i < length xs \<Longrightarrow> g y = g (xs ! i)) \<Longrightarrow> map g (xs[i := y]) = map g xs"
  by (induction xs arbitrary: i) (auto split: nat.split)

lemma map_ranges_update_entry:
  assumes "\<And>e. region_range (f e) = region_range e"
  shows "map (map region_range) (update_entry tbl p f) = map (map region_range) tbl"
proof -
  obtain b i where p: "p = (b, i)" by (cases p)
  have "map region_range ((tbl ! b)[i := f (tbl ! b ! i)]) = map region_range (tbl ! b)"
    using assms by (intro map_update_same) simp
  then show ?thesis
    by (simp add: update_entry_def p map_update_same)
qed

lemma set_update_entry:
  "e \<in> set (update_entry tbl p f ! b') \<Longrightarrow> b' < length tbl \<Longrightarrow>
   e \<in> set (tbl ! b') \<or> (\<exists>e'\<in>set (tbl ! b'). e = f e')"
proof -
  assume e: "e \<in> set (update_entry tbl p f ! b')" and b': "b' < length tbl"
  obtain b i where p: "p = (b, i)" by (cases p)
  show ?thesis
  proof (cases "b' = b")
    case True
    then have "e \<in> set ((tbl ! b)[i := f (tbl ! b ! i)])"
      using e b' by (simp add: update_entry_def p)
    show ?thesis
    proof (cases "i < length (tbl ! b)")
      case True
      then have "tbl ! b ! i \<in> set (tbl ! b)" by simp
      then show ?thesis
        using \<open>e \<in> set ((tbl ! b)[i := f (tbl ! b ! i)])\<close> \<open>b' = b\<close> set_update_subset_insert by fastforce
    next
      case False
      then show ?thesis
        using \<open>e \<in> set ((tbl ! b)[i := f (tbl ! b ! i)])\<close> \<open>b' = b\<close> by (simp add: list_update_beyond not_less)
    qed
  next
    case False
    then show ?thesis using e by (simp add: update_entry_def p)
  qed
qed

lemma table_inv_update_entry:
  assumes inv: "table_inv bits tbl"
    and v: "\<And>e. up_vaddr (f e) = up_vaddr e" and n: "\<And>e. up_n_pages (f e) = up_n_pages e"
    and wf: "\<And>e. entry_wf e \<Longrightarrow> entry_wf (f e)"
  shows "table_inv bits (update_entry tbl p f)"
proof -
  have rr: "\<And>e. region_range (f e) = region_range e" by (simp add: region_range_def v n)
  have len: "length (update_entry tbl p f) = length tbl"
    by (cases p) (simp add: update_entry_def)
  have old: "\<forall>b<length tbl. \<forall>e\<in>set (tbl ! b). hash_64 (up_vaddr e) bits = b \<and> entry_wf e"
    using inv by (simp add: table_inv_def)
  have buckets: "\<forall>b<length tbl. \<forall>e\<in>set (update_entry tbl p f ! b). hash_64 (up_vaddr e) bits = b \<and> entry_wf e"
  proof (intro allI impI ballI)
    fix b e assume b: "b < length tbl" and e: "e \<in> set (update_entry tbl p f ! b)"
    from set_update_entry [OF e b] show "hash_64 (up_vaddr e) bits = b \<and> entry_wf e"
    proof
      assume "e \<in> set (tbl ! b)"
      then show ?thesis using old b by blast
    next
      assume "\<exists>e'\<in>set (tbl ! b). e = f e'"
      then obtain e' where "e' \<in> set (tbl ! b)" "e = f e'" by blast
      then show ?thesis using old b v wf by auto
    qed
  qed
  have "map region_range (concat (update_entry tbl p f)) = map region_range (concat tbl)"
    using map_ranges_update_entry [OF rr, of tbl p] by (simp add: map_concat)
  then have "sorted_wrt regions_disjoint (concat (update_entry tbl p f))"
    using inv by (simp add: table_inv_def sorted_wrt_regions_disjoint)
  then show ?thesis
    using inv len buckets by (simp add: table_inv_def)
qed

lemma entry_at_update_same:
  "valid_pos tbl p \<Longrightarrow> entry_at (update_entry tbl p f) p = f (entry_at tbl p)"
  by (cases p) (simp add: update_entry_def entry_at_def valid_pos_def)

lemma valid_pos_update_entry: "valid_pos (update_entry tbl p f) q = valid_pos tbl q"
proof -
  obtain a b where p: "p = (a, b)" by (cases p)
  obtain c d where q: "q = (c, d)" by (cases q)
  show ?thesis
    by (cases "a < length tbl") (auto simp: p q update_entry_def valid_pos_def nth_list_update list_update_beyond)
qed

lemma entry_at_in_entries: "valid_pos tbl p \<Longrightarrow> entry_at tbl p \<in> set (table_entries tbl)"
proof -
  obtain a b where p: "p = (a, b)" by (cases p)
  assume "valid_pos tbl p"
  then have "tbl ! a \<in> set tbl" "tbl ! a ! b \<in> set (tbl ! a)"
    by (simp_all add: p valid_pos_def)
  then show ?thesis by (auto simp: p entry_at_def)
qed

lemma hit_entry_wf:
  "table_inv bits tbl \<Longrightarrow> valid_pos tbl p \<Longrightarrow> entry_wf (entry_at tbl p)"
  using table_inv_wf entry_at_in_entries by blast

lemma region_range_host [simp]: "region_range (e\<lparr>up_host := h\<rparr>) = region_range e"
  by (simp add: region_range_def)

lemma entry_wf_host [simp]: "entry_wf (e\<lparr>up_host := h\<rparr>) = entry_wf e"
  by (simp add: entry_wf_def split: option.splits)

end
