(* ===== verification/Region_Lookup.thy ===== *)
theory Region_Lookup
  imports Region_Table
begin

text \<open>
  Region Lookup: \<open>map_present\<close> of \<open>fpga_gup.c\<close> (lines 145-165). It walks every
  entry of the context's table in \<open>hash_for_each\<close> order. An entry whose range holds
  the descriptor's start page is a hit: the count is clipped to end at the entry's end
  and the entry is returned. An entry that starts strictly inside the descriptor's
  range clips the count to stop at that start, and the walk goes on. The result is the
  (possibly clipped) descriptor and the position of the hit, if any.
\<close>

section \<open>Definitions\<close>

text \<open>The hit test of line 152.\<close>

definition hit_region :: "desc_aligned \<Rightarrow> user_pages \<Rightarrow> bool" where
  "hit_region pfa e \<longleftrightarrow>
     up_vaddr e \<le> pfa_vaddr pfa \<and> pfa_vaddr pfa < up_vaddr e + up_n_pages e"

text \<open>Lines 154-155: on a hit, stop the descriptor at the entry's end.\<close>

definition clip_hit :: "desc_aligned \<Rightarrow> user_pages \<Rightarrow> desc_aligned" where
  "clip_hit pfa e =
     (if up_vaddr e + up_n_pages e < pfa_vaddr pfa + pfa_n_pages pfa
      then pfa\<lparr>pfa_n_pages := up_vaddr e + up_n_pages e - pfa_vaddr pfa\<rparr> else pfa)"

text \<open>Lines 158-160: an entry starting inside the range clips it to that start.\<close>

definition clip_partial :: "desc_aligned \<Rightarrow> user_pages \<Rightarrow> desc_aligned" where
  "clip_partial pfa e =
     (if pfa_vaddr pfa < up_vaddr e \<and> up_vaddr e < pfa_vaddr pfa + pfa_n_pages pfa
      then pfa\<lparr>pfa_n_pages := up_vaddr e - pfa_vaddr pfa\<rparr> else pfa)"

text \<open>The inner loop of \<open>hash_for_each\<close>: one bucket, entry index \<open>i\<close>.\<close>

fun scan_bucket :: "desc_aligned \<Rightarrow> nat \<Rightarrow> nat \<Rightarrow> user_pages list \<Rightarrow> desc_aligned \<times> entry_pos option" where
  "scan_bucket pfa b i [] = (pfa, None)"
| "scan_bucket pfa b i (e # es) =
     (if hit_region pfa e then (clip_hit pfa e, Some (b, i))
      else scan_bucket (clip_partial pfa e) b (Suc i) es)"

text \<open>The outer loop of \<open>hash_for_each\<close>: bucket by bucket, from bucket \<open>b\<close>.\<close>

fun scan_table :: "desc_aligned \<Rightarrow> nat \<Rightarrow> bucket_table \<Rightarrow> desc_aligned \<times> entry_pos option" where
  "scan_table pfa b [] = (pfa, None)"
| "scan_table pfa b (bk # bks) =
     (case scan_bucket pfa b 0 bk of
        (pfa', Some p) \<Rightarrow> (pfa', Some p)
      | (pfa', None) \<Rightarrow> scan_table pfa' (Suc b) bks)"

text \<open>\<open>map_present(d, pfa)\<close> on the table \<open>user_buff_map[d->id][pfa->cpid]\<close>.\<close>

definition map_present :: "bucket_table \<Rightarrow> desc_aligned \<Rightarrow> desc_aligned \<times> entry_pos option" where
  "map_present tbl pfa = scan_table pfa 0 tbl"

subsection \<open>Proof vocabulary\<close>

text \<open>
  \<open>shrunk q pfa\<close>: \<open>q\<close> is \<open>pfa\<close> with a count that is no larger and still positive
  when \<open>pfa\<close>'s was. \<open>clear_of pfa e\<close>: the start page of \<open>pfa\<close> is not in \<open>e\<close>, and
  if \<open>e\<close> starts after it, the range of \<open>pfa\<close> stops before \<open>e\<close>.
\<close>

definition shrunk :: "desc_aligned \<Rightarrow> desc_aligned \<Rightarrow> bool" where
  "shrunk q pfa \<longleftrightarrow> pfa_vaddr q = pfa_vaddr pfa \<and> pfa_cpid q = pfa_cpid pfa \<and>
     pfa_hugepages q = pfa_hugepages pfa \<and> pfa_n_pages q \<le> pfa_n_pages pfa \<and>
     (0 < pfa_n_pages pfa \<longrightarrow> 0 < pfa_n_pages q)"

definition clear_of :: "desc_aligned \<Rightarrow> user_pages \<Rightarrow> bool" where
  "clear_of pfa e \<longleftrightarrow> unat (pfa_vaddr pfa) \<notin> region_range e \<and>
     (unat (pfa_vaddr pfa) < unat (up_vaddr e) \<longrightarrow>
        unat (pfa_vaddr pfa) + unat (pfa_n_pages pfa) \<le> unat (up_vaddr e))"

subsection \<open>Fixture\<close>

text \<open>
  The clipping scenario of the specification: regions at pages [0,10) and [20,30) in a
  table of two buckets (\<open>USER_HASH_TABLE_ORDER = 1\<close>).
\<close>

definition ex_table :: bucket_table where
  "ex_table = hash_add 1 (hash_add 1 (empty_table 1) (ex_region 0 10) 0) (ex_region 20 10) 20"

section \<open>Lemmas\<close>

lemma clip_partial_n:
  assumes "no_wrap (pfa_vaddr pfa) (pfa_n_pages pfa)"
  shows "unat (pfa_n_pages (clip_partial pfa e)) =
    (if unat (pfa_vaddr pfa) < unat (up_vaddr e) \<and> unat (up_vaddr e) < unat (pfa_vaddr pfa) + unat (pfa_n_pages pfa)
     then unat (up_vaddr e) - unat (pfa_vaddr pfa) else unat (pfa_n_pages pfa))"
proof -
  have c: "(pfa_vaddr pfa < up_vaddr e \<and> up_vaddr e < pfa_vaddr pfa + pfa_n_pages pfa) \<longleftrightarrow>
      (unat (pfa_vaddr pfa) < unat (up_vaddr e) \<and> unat (up_vaddr e) < unat (pfa_vaddr pfa) + unat (pfa_n_pages pfa))"
    using assms by (simp add: word_less_nat_alt unat_add_no_wrap)
  show ?thesis
    using c by (auto simp: clip_partial_def unat_sub)
qed

lemma clip_hit_n:
  assumes "no_wrap (pfa_vaddr pfa) (pfa_n_pages pfa)" "no_wrap (up_vaddr e) (up_n_pages e)"
    and "hit_region pfa e"
  shows "unat (pfa_n_pages (clip_hit pfa e)) =
    (if unat (up_vaddr e) + unat (up_n_pages e) < unat (pfa_vaddr pfa) + unat (pfa_n_pages pfa)
     then unat (up_vaddr e) + unat (up_n_pages e) - unat (pfa_vaddr pfa) else unat (pfa_n_pages pfa))"
proof -
  have le: "pfa_vaddr pfa \<le> up_vaddr e + up_n_pages e"
    using assms(3) unfolding hit_region_def by (blast intro: less_imp_le)
  have "unat (up_vaddr e + up_n_pages e - pfa_vaddr pfa) = unat (up_vaddr e) + unat (up_n_pages e) - unat (pfa_vaddr pfa)"
    using le assms(2) by (simp add: unat_sub unat_add_no_wrap)
  then show ?thesis
    using assms(1,2) by (simp add: clip_hit_def end_less_iff)
qed

lemma hit_region_iff:
  "entry_wf e \<Longrightarrow> hit_region pfa e \<longleftrightarrow> unat (pfa_vaddr pfa) \<in> region_range e"
  by (simp add: hit_region_def entry_wf_def region_range_def in_range_iff)

lemma shrunk_refl: "shrunk pfa pfa"
  by (simp add: shrunk_def)

lemma shrunk_trans: "shrunk r q \<Longrightarrow> shrunk q pfa \<Longrightarrow> shrunk r pfa"
  unfolding shrunk_def by auto

lemma shrunk_no_wrap:
  "shrunk q pfa \<Longrightarrow> no_wrap (pfa_vaddr pfa) (pfa_n_pages pfa) \<Longrightarrow> no_wrap (pfa_vaddr q) (pfa_n_pages q)"
  unfolding shrunk_def using no_wrap_mono by auto

lemma clip_partial_shrunk:
  assumes "no_wrap (pfa_vaddr pfa) (pfa_n_pages pfa)"
  shows "shrunk (clip_partial pfa e) pfa"
proof -
  have "unat (pfa_n_pages (clip_partial pfa e)) \<le> unat (pfa_n_pages pfa)"
    and "0 < unat (pfa_n_pages pfa) \<longrightarrow> 0 < unat (pfa_n_pages (clip_partial pfa e))"
    using assms by (auto simp: clip_partial_n)
  then show ?thesis
    by (simp add: shrunk_def clip_partial_def word_le_nat_alt word_less_nat_alt)
qed

lemma clear_of_shrunk: "clear_of q e \<Longrightarrow> shrunk r q \<Longrightarrow> clear_of r e"
  by (auto simp: clear_of_def shrunk_def word_le_nat_alt)

lemma clear_of_disjoint:
  "clear_of pfa e \<Longrightarrow> page_range (pfa_vaddr pfa) (pfa_n_pages pfa) \<inter> region_range e = {}"
  by (auto simp: clear_of_def region_range_def page_range_def)

lemma clip_partial_vaddr [simp]: "pfa_vaddr (clip_partial pfa e) = pfa_vaddr pfa"
  by (simp add: clip_partial_def)

lemma clear_of_partial:
  assumes "no_wrap (pfa_vaddr pfa) (pfa_n_pages pfa)" "entry_wf e" "\<not> hit_region pfa e"
  shows "clear_of (clip_partial pfa e) e"
  using assms by (auto simp: clear_of_def hit_region_iff clip_partial_n)

lemma scan_bucket_miss:
  "scan_bucket pfa b i es = (pfa', None) \<Longrightarrow> no_wrap (pfa_vaddr pfa) (pfa_n_pages pfa) \<Longrightarrow>
   \<forall>e\<in>set es. entry_wf e \<Longrightarrow> shrunk pfa' pfa \<and> (\<forall>e\<in>set es. clear_of pfa' e)"
proof (induction es arbitrary: pfa i)
  case Nil
  then show ?case by (simp add: shrunk_refl)
next
  case (Cons e es)
  let ?p1 = "clip_partial pfa e"
  have nohit: "\<not> hit_region pfa e"
    using Cons.prems(1) by (auto split: if_splits)
  then have rec: "scan_bucket ?p1 b (Suc i) es = (pfa', None)"
    using Cons.prems(1) by simp
  have s1: "shrunk ?p1 pfa"
    using Cons.prems(2) by (rule clip_partial_shrunk)
  from Cons.IH [OF rec shrunk_no_wrap [OF s1 Cons.prems(2)]] Cons.prems(3)
  have ih: "shrunk pfa' ?p1" "\<forall>e\<in>set es. clear_of pfa' e" by auto
  have "clear_of ?p1 e"
    using Cons.prems(2,3) nohit by (simp add: clear_of_partial)
  with ih s1 show ?case
    by (auto intro: shrunk_trans clear_of_shrunk)
qed

lemma scan_bucket_hit:
  "scan_bucket pfa b i es = (pfa', Some p) \<Longrightarrow> no_wrap (pfa_vaddr pfa) (pfa_n_pages pfa) \<Longrightarrow>
   \<exists>j q. j < length es \<and> p = (b, i + j) \<and> shrunk q pfa \<and> hit_region q (es ! j) \<and>
     pfa' = clip_hit q (es ! j)"
proof (induction es arbitrary: pfa i)
  case Nil
  then show ?case by simp
next
  case (Cons e es)
  show ?case
  proof (cases "hit_region pfa e")
    case True
    with Cons.prems(1) have "p = (b, i + 0)" and "pfa' = clip_hit pfa ((e # es) ! 0)" by auto
    with True show ?thesis by (intro exI [of _ 0] exI [of _ pfa]) (simp add: shrunk_refl)
  next
    case False
    let ?p1 = "clip_partial pfa e"
    from False Cons.prems(1) have rec: "scan_bucket ?p1 b (Suc i) es = (pfa', Some p)" by simp
    have s1: "shrunk ?p1 pfa"
      using Cons.prems(2) by (rule clip_partial_shrunk)
    from Cons.IH [OF rec shrunk_no_wrap [OF s1 Cons.prems(2)]]
    obtain j q where "j < length es" "p = (b, Suc i + j)" "shrunk q ?p1" "hit_region q (es ! j)"
        "pfa' = clip_hit q (es ! j)" by blast
    then show ?thesis
      using s1 by (intro exI [of _ "Suc j"] exI [of _ q]) (auto intro: shrunk_trans)
  qed
qed

lemma scan_table_miss:
  "scan_table pfa k tbl = (pfa', None) \<Longrightarrow> no_wrap (pfa_vaddr pfa) (pfa_n_pages pfa) \<Longrightarrow>
   \<forall>e\<in>set (concat tbl). entry_wf e \<Longrightarrow> shrunk pfa' pfa \<and> (\<forall>e\<in>set (concat tbl). clear_of pfa' e)"
proof (induction tbl arbitrary: pfa k)
  case Nil
  then show ?case by (simp add: shrunk_refl)
next
  case (Cons bk bks)
  obtain p1 r where sb: "scan_bucket pfa k 0 bk = (p1, r)" by fastforce
  with Cons.prems(1) have r: "r = None" and rec: "scan_table p1 (Suc k) bks = (pfa', None)"
    by (auto split: option.splits)
  have b: "shrunk p1 pfa" "\<forall>e\<in>set bk. clear_of p1 e"
    using scan_bucket_miss [OF sb [unfolded r] Cons.prems(2)] Cons.prems(3) by simp_all
  have ih: "shrunk pfa' p1" "\<forall>e\<in>set (concat bks). clear_of pfa' e"
    using Cons.IH [OF rec shrunk_no_wrap [OF b(1) Cons.prems(2)]] Cons.prems(3) by simp_all
  then show ?case
    using b by (auto intro: shrunk_trans clear_of_shrunk)
qed

lemma scan_table_hit:
  "scan_table pfa k tbl = (pfa', Some p) \<Longrightarrow> no_wrap (pfa_vaddr pfa) (pfa_n_pages pfa) \<Longrightarrow>
   \<forall>e\<in>set (concat tbl). entry_wf e \<Longrightarrow>
   \<exists>b j q. b < length tbl \<and> j < length (tbl ! b) \<and> p = (k + b, j) \<and> shrunk q pfa \<and>
     hit_region q (tbl ! b ! j) \<and> pfa' = clip_hit q (tbl ! b ! j)"
proof (induction tbl arbitrary: pfa k)
  case Nil
  then show ?case by simp
next
  case (Cons bk bks)
  obtain p1 r where sb: "scan_bucket pfa k 0 bk = (p1, r)" by fastforce
  show ?case
  proof (cases r)
    case (Some p')
    with sb Cons.prems(1) have "scan_bucket pfa k 0 bk = (pfa', Some p)" by simp
    from scan_bucket_hit [OF this Cons.prems(2)]
    obtain j q where "j < length bk" "p = (k, j)" "shrunk q pfa" "hit_region q (bk ! j)"
      "pfa' = clip_hit q (bk ! j)" by auto
    then show ?thesis by (intro exI [of _ 0] exI [of _ j] exI [of _ q]) auto
  next
    case None
    with sb Cons.prems(1) have rec: "scan_table p1 (Suc k) bks = (pfa', Some p)" by simp
    have s1: "shrunk p1 pfa"
      using scan_bucket_miss [OF sb [unfolded None] Cons.prems(2)] Cons.prems(3) by simp
    from Cons.IH [OF rec shrunk_no_wrap [OF s1 Cons.prems(2)]] Cons.prems(3)
    obtain b j q where "b < length bks" "j < length (bks ! b)" "p = (Suc k + b, j)" "shrunk q p1"
      "hit_region q (bks ! b ! j)" "pfa' = clip_hit q (bks ! b ! j)" by auto
    then show ?thesis
      using s1 by (intro exI [of _ "Suc b"] exI [of _ j] exI [of _ q]) (auto intro: shrunk_trans)
  qed
qed

lemma clip_hit_vaddr [simp]: "pfa_vaddr (clip_hit pfa e) = pfa_vaddr pfa"
  by (simp add: clip_hit_def)

lemma clip_hit_within:
  assumes "no_wrap (pfa_vaddr q) (pfa_n_pages q)" "entry_wf e" "hit_region q e"
  shows "page_range (pfa_vaddr (clip_hit q e)) (pfa_n_pages (clip_hit q e)) \<subseteq> region_range e \<and>
         (0 < pfa_n_pages q \<longrightarrow> 0 < pfa_n_pages (clip_hit q e))"
proof -
  have nw: "no_wrap (up_vaddr e) (up_n_pages e)" using assms(2) by (simp add: entry_wf_def)
  have inr: "unat (pfa_vaddr q) \<in> region_range e" using assms(2,3) by (simp add: hit_region_iff)
  show ?thesis
    using clip_hit_n [OF assms(1) nw assms(3)] inr
    by (auto simp: page_range_def region_range_def word_less_nat_alt)
qed

lemma map_present_miss_facts:
  assumes "table_inv bits tbl" and "no_wrap (pfa_vaddr pfa) (pfa_n_pages pfa)"
    and "map_present tbl pfa = (pfa', None)"
  shows "pfa_vaddr pfa' = pfa_vaddr pfa \<and> pfa_n_pages pfa' \<le> pfa_n_pages pfa \<and>
         (0 < pfa_n_pages pfa \<longrightarrow> 0 < pfa_n_pages pfa') \<and>
         (\<forall>e\<in>set (concat tbl). unat (pfa_vaddr pfa) \<notin> region_range e \<and>
             page_range (pfa_vaddr pfa') (pfa_n_pages pfa') \<inter> region_range e = {})"
proof -
  have s: "shrunk pfa' pfa" and cl: "\<forall>e\<in>set (concat tbl). clear_of pfa' e"
    using scan_table_miss [OF assms(3) [unfolded map_present_def] assms(2) table_inv_wf [OF assms(1)]]
    by simp_all
  have "\<forall>e\<in>set (concat tbl). page_range (pfa_vaddr pfa') (pfa_n_pages pfa') \<inter> region_range e = {}"
    using cl clear_of_disjoint by blast
  moreover have "\<forall>e\<in>set (concat tbl). unat (pfa_vaddr pfa') \<notin> region_range e"
    using cl by (simp add: clear_of_def)
  ultimately show ?thesis
    using s by (simp add: shrunk_def)
qed

lemma map_present_hit_facts:
  assumes "table_inv bits tbl" and "no_wrap (pfa_vaddr pfa) (pfa_n_pages pfa)"
    and "map_present tbl pfa = (pfa', Some p)"
  shows "valid_pos tbl p \<and> unat (pfa_vaddr pfa) \<in> region_range (entry_at tbl p) \<and>
         pfa_vaddr pfa' = pfa_vaddr pfa \<and> (0 < pfa_n_pages pfa \<longrightarrow> 0 < pfa_n_pages pfa') \<and>
         page_range (pfa_vaddr pfa') (pfa_n_pages pfa') \<subseteq> region_range (entry_at tbl p)"
proof -
  have wf: "\<forall>e\<in>set (concat tbl). entry_wf e" using assms(1) by (rule table_inv_wf)
  from scan_table_hit [OF assms(3) [unfolded map_present_def] assms(2) wf]
  obtain b j q where bj: "b < length tbl" "j < length (tbl ! b)" and p: "p = (b, j)"
    and s: "shrunk q pfa" and h: "hit_region q (tbl ! b ! j)" and r: "pfa' = clip_hit q (tbl ! b ! j)"
    by auto
  have "tbl ! b \<in> set tbl" "tbl ! b ! j \<in> set (tbl ! b)"
    using bj by simp_all
  then have "tbl ! b ! j \<in> set (concat tbl)"
    by auto
  with wf have ewf: "entry_wf (tbl ! b ! j)" by blast
  have "valid_pos tbl p" "entry_at tbl p = tbl ! b ! j"
    using bj p by (simp_all add: valid_pos_def entry_at_def)
  moreover have "unat (pfa_vaddr q) \<in> region_range (tbl ! b ! j)"
    using ewf h by (simp add: hit_region_iff)
  moreover note clip_hit_within [OF shrunk_no_wrap [OF s assms(2)] ewf h]
  ultimately show ?thesis
    using s r by (auto simp: shrunk_def)
qed

text \<open>
  C5. Region Lookup, miss: when no region of a well-formed table holds the fault's start
  page, \<open>map_present\<close> returns the descriptor with its start unchanged, its count
  no larger and still positive, and its range disjoint from every region of the table,
  not only from the first one the scan clips against. A region pinned for it can
  therefore overlap none of the existing ones.
\<close>

theorem map_present_miss:
  assumes "table_inv bits tbl" and "no_wrap (pfa_vaddr pfa) (pfa_n_pages pfa)"
    and "map_present tbl pfa = (pfa', None)"
  shows "pfa_vaddr pfa' = pfa_vaddr pfa \<and> pfa_n_pages pfa' \<le> pfa_n_pages pfa \<and>
         (0 < pfa_n_pages pfa \<longrightarrow> 0 < pfa_n_pages pfa') \<and>
         (\<forall>e\<in>set (concat tbl). unat (pfa_vaddr pfa) \<notin> region_range e \<and>
             page_range (pfa_vaddr pfa') (pfa_n_pages pfa') \<inter> region_range e = {})"
  by (rule map_present_miss_facts [OF assms])

text \<open>
  C6. Region Lookup, hit: when \<open>map_present\<close> returns an entry, the position is a
  valid entry of the table, the entry holds the fault's start page, and the clipped
  descriptor starts at the same page, keeps a positive count and lies inside the entry.
\<close>

theorem map_present_hit:
  assumes "table_inv bits tbl" and "no_wrap (pfa_vaddr pfa) (pfa_n_pages pfa)"
    and "map_present tbl pfa = (pfa', Some p)"
  shows "valid_pos tbl p \<and> unat (pfa_vaddr pfa) \<in> region_range (entry_at tbl p) \<and>
         pfa_vaddr pfa' = pfa_vaddr pfa \<and> (0 < pfa_n_pages pfa \<longrightarrow> 0 < pfa_n_pages pfa') \<and>
         page_range (pfa_vaddr pfa') (pfa_n_pages pfa') \<subseteq> region_range (entry_at tbl p)"
  by (rule map_present_hit_facts [OF assms])


lemma clip_partial_wrap: "\<not> no_wrap (pfa_vaddr pfa) (pfa_n_pages pfa) \<Longrightarrow> clip_partial pfa e = pfa"
  by (auto simp: clip_partial_def no_wrap_def)

lemma scan_bucket_wrap:
  "scan_bucket pfa b i es = (q, None) \<Longrightarrow> \<not> no_wrap (pfa_vaddr pfa) (pfa_n_pages pfa) \<Longrightarrow> q = pfa"
  by (induction es arbitrary: i) (auto simp: clip_partial_wrap split: if_splits)

lemma scan_table_wrap:
  "scan_table pfa b tbl = (q, None) \<Longrightarrow> \<not> no_wrap (pfa_vaddr pfa) (pfa_n_pages pfa) \<Longrightarrow> q = pfa"
proof (induction tbl arbitrary: pfa b)
  case Nil
  then show ?case by simp
next
  case (Cons bk bks)
  obtain r o' where sb: "scan_bucket pfa b 0 bk = (r, o')" by fastforce
  then have "o' = None" and r: "scan_table r (Suc b) bks = (q, None)"
    using Cons.prems(1) by (auto split: option.splits)
  then have "r = pfa" using sb Cons.prems(2) scan_bucket_wrap by blast
  then show ?case using Cons r by blast
qed

lemma map_present_wrap:
  "map_present tbl pfa = (q, None) \<Longrightarrow> \<not> no_wrap (pfa_vaddr pfa) (pfa_n_pages pfa) \<Longrightarrow> q = pfa"
  unfolding map_present_def by (rule scan_table_wrap)

lemma scan_bucket_fields:
  "scan_bucket pfa b i es = (q, r) \<Longrightarrow>
   pfa_vaddr q = pfa_vaddr pfa \<and> pfa_cpid q = pfa_cpid pfa \<and> pfa_hugepages q = pfa_hugepages pfa"
  by (induction es arbitrary: pfa i) (auto simp: clip_hit_def clip_partial_def split: if_splits)

lemma scan_table_fields:
  "scan_table pfa b tbl = (q, r) \<Longrightarrow>
   pfa_vaddr q = pfa_vaddr pfa \<and> pfa_cpid q = pfa_cpid pfa \<and> pfa_hugepages q = pfa_hugepages pfa"
proof (induction tbl arbitrary: pfa b)
  case Nil
  then show ?case by simp
next
  case (Cons bk bks)
  obtain r' o' where sb: "scan_bucket pfa b 0 bk = (r', o')" by fastforce
  show ?case
  proof (cases o')
    case None
    then have "scan_table r' (Suc b) bks = (q, r)" using Cons.prems sb by simp
    then show ?thesis using Cons.IH scan_bucket_fields [OF sb] by metis
  next
    case (Some p)
    then show ?thesis using Cons.prems sb scan_bucket_fields [OF sb] by simp
  qed
qed

lemma map_present_fields:
  "map_present tbl pfa = (q, r) \<Longrightarrow>
   pfa_vaddr q = pfa_vaddr pfa \<and> pfa_cpid q = pfa_cpid pfa \<and> pfa_hugepages q = pfa_hugepages pfa"
  unfolding map_present_def by (rule scan_table_fields)

lemma scan_bucket_zero:
  "pfa_n_pages pfa = 0 \<Longrightarrow> pfa_n_pages (fst (scan_bucket pfa b i es)) = 0"
proof (induction es arbitrary: i)
  case Nil
  then show ?case by simp
next
  case (Cons e es)
  have "clip_partial pfa e = pfa" using Cons.prems by (auto simp: clip_partial_def dest: less_asym)
  moreover have "hit_region pfa e \<Longrightarrow> clip_hit pfa e = pfa"
    using Cons.prems by (auto simp: clip_hit_def hit_region_def)
  ultimately show ?case using Cons by auto
qed

lemma scan_table_zero:
  "pfa_n_pages pfa = 0 \<Longrightarrow> pfa_n_pages (fst (scan_table pfa b tbl)) = 0"
proof (induction tbl arbitrary: pfa b)
  case Nil
  then show ?case by simp
next
  case (Cons bk bks)
  have z: "pfa_n_pages (fst (scan_bucket pfa b 0 bk)) = 0" using Cons.prems by (rule scan_bucket_zero)
  then show ?case using Cons.IH by (auto split: prod.splits option.splits)
qed

lemma map_present_zero:
  "pfa_n_pages pfa = 0 \<Longrightarrow> map_present tbl pfa = (q, r) \<Longrightarrow> pfa_n_pages q = 0"
  using scan_table_zero [of pfa 0 tbl] by (simp add: map_present_def)

section \<open>Witnesses\<close>

theorem map_present_miss_witness:
  "table_inv 1 ex_table \<and> no_wrap 12 13 \<and>
   map_present ex_table (ex_fault 12 13) = (ex_fault 12 8, None) \<and>
   page_range 12 8 \<inter> region_range (ex_region 20 10) = {} \<and>
   page_range 12 8 \<inter> region_range (ex_region 0 10) = {}"
proof -
  have h1: "table_inv 1 ex_table" by code_simp
  have h2: "no_wrap (pfa_vaddr (ex_fault 12 13)) (pfa_n_pages (ex_fault 12 13))" by code_simp
  have h3: "map_present ex_table (ex_fault 12 13) = (ex_fault 12 8, None)" by code_simp
  have mem: "ex_region 20 10 \<in> set (table_entries ex_table)" "ex_region 0 10 \<in> set (table_entries ex_table)"
    by code_simp+
  have all: "\<forall>e\<in>set (table_entries ex_table).
      page_range (pfa_vaddr (ex_fault 12 8)) (pfa_n_pages (ex_fault 12 8)) \<inter> region_range e = {}"
    using map_present_miss [OF h1 h2 h3] by blast
  then have "\<forall>e\<in>set (table_entries ex_table). page_range 12 8 \<inter> region_range e = {}"
    by (simp add: ex_fault_def)
  with mem have "page_range 12 8 \<inter> region_range (ex_region 20 10) = {}"
    "page_range 12 8 \<inter> region_range (ex_region 0 10) = {}"
    by blast+
  with h1 h3 show ?thesis
    by (simp add: no_wrap_unat)
qed

theorem map_present_hit_witness:
  "table_inv 1 ex_table \<and> no_wrap 5 20 \<and>
   map_present ex_table (ex_fault 5 20) = (ex_fault 5 5, Some (0, 0)) \<and>
   page_range 5 5 \<subseteq> region_range (entry_at ex_table (0, 0))"
proof -
  have h1: "table_inv 1 ex_table" by code_simp
  have h2: "no_wrap (pfa_vaddr (ex_fault 5 20)) (pfa_n_pages (ex_fault 5 20))" by code_simp
  have h3: "map_present ex_table (ex_fault 5 20) = (ex_fault 5 5, Some (0, 0))" by code_simp
  from map_present_hit [OF h1 h2 h3] h1 h2 h3 show ?thesis
    by (simp add: ex_fault_def)
qed

end
