(* ===== verification/Device.thy ===== *)
theory Device
  imports Region_Table
begin

text \<open>
  The state the GUP routines of \<open>fpga_gup.c\<close> read and write, and the collaborators
  they call. The driver part is the per-context region tables (\<open>user_buff_map\<close>),
  the three completion flags of \<open>struct fpga_dev\<close> (\<open>wait_invldt\<close>,
  \<open>wait_offload\<close>, \<open>wait_sync\<close>), its two migration mutexes (\<open>offload_lock\<close>,
  \<open>sync_lock\<close>) and \<open>pid_array\<close>. The collaborators are modelled
  from the contracts of the specification (section 6): the device keeps a translation
  cache keyed by page order and page number and a log of the commands submitted to it;
  the kernel keeps a pin count and a dirty bit per page frame; host and card memory hold
  one value per physical page; the card allocator hands out pages from a free pool per
  page order. The host process's address space (\<open>mm\<close>) is read-only during a fault.
\<close>

unbundle bit_operations_syntax

section \<open>Device commands\<close>

text \<open>
  A TLB descriptor as \<open>tlb_create_map\<close> and \<open>tlb_create_unmap\<close> fill it: a mapping of
  a virtual page to a host or card physical address for a context and host pid, or an
  unmapping.
\<close>

datatype tlb_desc =
    Map_desc u64 u64 bool nat int
  | Unmap_desc u64 int

text \<open>
  Commands submitted to the device, in order: a TLB batch (\<open>tlb_service_dev\<close>, with
  its page order), an invalidation run (\<open>fpga_invalidate\<close>, with its last-run flag), and
  the two bulk copies (\<open>dma_offload_start\<close>, \<open>dma_sync_start\<close>).
\<close>

datatype hw_cmd =
    Tlb_service bool "tlb_desc list"
  | Invalidate u64 u64 int bool
  | Offload_start "u64 list" "u64 list" u64 bool
  | Sync_start "u64 list" "u64 list" u64 bool

text \<open>A translation installed in the device TLB: physical address, host flag, context, pid.\<close>

record tlb_entry =
  te_paddr :: u64
  te_host :: bool
  te_cpid :: nat
  te_hpid :: int

record gup_state =
  user_buff_map :: "nat \<Rightarrow> bucket_table"
  dev_tlb :: "bool \<times> u64 \<Rightarrow> tlb_entry option"
  hw_trace :: "hw_cmd list"
  wait_invldt :: bool
  wait_offload :: bool
  wait_sync :: bool
  offload_lock :: bool
  sync_lock :: bool
  pid_array :: "nat \<Rightarrow> int"
  page_refs :: "u64 \<Rightarrow> nat"
  page_dirty :: "u64 \<Rightarrow> bool"
  hmem :: "u64 \<Rightarrow> nat"
  cmem :: "u64 \<Rightarrow> nat"
  card_pool :: "bool \<Rightarrow> u64 list"

text \<open>
  The host process: its page table (virtual base page to page frame) and whether the
  VMA holding a byte address is a hugetlb mapping (\<open>is_vm_hugetlb_page(find_vma(..))\<close>).
\<close>

record host_mm =
  mm_pages :: "u64 \<Rightarrow> u64 option"
  mm_huge :: "u64 \<Rightarrow> bool"

section \<open>Kernel and device collaborators\<close>

text \<open>Error numbers returned by the routines.\<close>

definition EINVAL :: int where "EINVAL = 22"
definition ENOMEM :: int where "ENOMEM = 12"
definition EFAULT :: int where "EFAULT = 14"

text \<open>\<open>page_to_phys\<close> with \<open>PAGE_SHIFT = 12\<close>.\<close>

definition page_to_phys :: "u64 \<Rightarrow> u64" where
  "page_to_phys pfn = push_bit 12 pfn"

text \<open>\<open>get_page\<close> (taken by \<open>get_user_pages_remote\<close>) and \<open>put_page\<close> on a list of frames.\<close>

definition get_pages :: "(u64 \<Rightarrow> nat) \<Rightarrow> u64 list \<Rightarrow> (u64 \<Rightarrow> nat)" where
  "get_pages refs ps = fold (\<lambda>p r. r(p := Suc (r p))) ps refs"

definition put_pages :: "(u64 \<Rightarrow> nat) \<Rightarrow> u64 list \<Rightarrow> (u64 \<Rightarrow> nat)" where
  "put_pages refs ps = fold (\<lambda>p r. r(p := r p - 1)) ps refs"

text \<open>
  \<open>get_user_pages_remote(mm, start, n, FOLL_WRITE, pages)\<close>: it pins the pages of the
  range from the first one on, up to the first that is not mapped, and returns how many
  it pinned, or \<open>-EFAULT\<close> when it could pin none of a nonempty range.
\<close>

fun gup_walk :: "(u64 \<Rightarrow> u64 option) \<Rightarrow> u64 \<Rightarrow> nat \<Rightarrow> u64 list" where
  "gup_walk pt v 0 = []"
| "gup_walk pt v (Suc k) = (case pt v of None \<Rightarrow> [] | Some p \<Rightarrow> p # gup_walk pt (v + 1) k)"

definition get_user_pages_remote ::
  "host_mm \<Rightarrow> u64 \<Rightarrow> u64 \<Rightarrow> gup_state \<Rightarrow> int \<times> u64 list \<times> gup_state" where
  "get_user_pages_remote mm v n s =
     (let ps = gup_walk (mm_pages mm) v (unat n)
      in if ps = [] \<and> 0 < n then (- EFAULT, [], s)
         else (int (length ps), ps, s\<lparr>page_refs := get_pages (page_refs s) ps\<rparr>))"

text \<open>
  \<open>card_alloc(d, cpages, n, huge)\<close>: \<open>n\<close> card pages of the order from the pool, or
  \<open>-ENOMEM\<close> with nothing taken.
\<close>

definition card_alloc :: "gup_state \<Rightarrow> u64 \<Rightarrow> bool \<Rightarrow> int \<times> u64 list \<times> gup_state" where
  "card_alloc s n huge =
     (let pool = card_pool s huge
      in if unat n \<le> length pool
         then (0, take (unat n) pool, s\<lparr>card_pool := (card_pool s)(huge := drop (unat n) pool)\<rparr>)
         else (- ENOMEM, [], s))"

text \<open>\<open>card_free(d, cpages, n, huge)\<close>: the pages go back to the pool.\<close>

definition card_free :: "gup_state \<Rightarrow> u64 list \<Rightarrow> bool \<Rightarrow> gup_state" where
  "card_free s cs huge = s\<lparr>card_pool := (card_pool s)(huge := cs @ card_pool s huge)\<rparr>"

text \<open>
  The device's reaction to a submitted command (the contracts \<open>submit_tlb_batch\<close>,
  \<open>invalidate_device_range\<close> and \<open>start_device_copy\<close> of section 6 of the
  specification): a TLB batch installs or removes the translations of its page order in
  batch order; an invalidation run marked final raises the unmap-completion flag; a bulk
  copy moves the value held by each source page to the paired destination page and raises
  its completion flag. Every command is logged in \<open>hw_trace\<close>.
\<close>

fun tlb_apply :: "bool \<Rightarrow> tlb_desc \<Rightarrow> (bool \<times> u64 \<Rightarrow> tlb_entry option) \<Rightarrow> (bool \<times> u64 \<Rightarrow> tlb_entry option)" where
  "tlb_apply huge (Map_desc v pa host cpid hpid) t =
     t((huge, v) \<mapsto> \<lparr>te_paddr = pa, te_host = host, te_cpid = cpid, te_hpid = hpid\<rparr>)"
| "tlb_apply huge (Unmap_desc v hpid) t = t((huge, v) := None)"

definition copy_pages :: "(u64 \<Rightarrow> nat) \<Rightarrow> u64 list \<Rightarrow> (u64 \<Rightarrow> nat) \<Rightarrow> u64 list \<Rightarrow> (u64 \<Rightarrow> nat)" where
  "copy_pages src from dst to = fold (\<lambda>(a, b) m. m(b := src a)) (zip from to) dst"

fun device_step :: "hw_cmd \<Rightarrow> gup_state \<Rightarrow> gup_state" where
  "device_step (Tlb_service huge ds) s =
     s\<lparr>dev_tlb := fold (tlb_apply huge) ds (dev_tlb s), hw_trace := hw_trace s @ [Tlb_service huge ds]\<rparr>"
| "device_step (Invalidate v n hpid final) s =
     s\<lparr>hw_trace := hw_trace s @ [Invalidate v n hpid final], wait_invldt := (wait_invldt s \<or> final)\<rparr>"
| "device_step (Offload_start hs cs n huge) s =
     s\<lparr>cmem := copy_pages (hmem s) hs (cmem s) cs, hw_trace := hw_trace s @ [Offload_start hs cs n huge],
       wait_offload := True\<rparr>"
| "device_step (Sync_start hs cs n huge) s =
     s\<lparr>hmem := copy_pages (cmem s) cs (hmem s) hs, hw_trace := hw_trace s @ [Sync_start hs cs n huge],
       wait_sync := True\<rparr>"

subsection \<open>Fixture\<close>

text \<open>
  A device with 4 KiB base pages, 2 MiB huge pages, card memory, a batch limit of 16
  and two hash buckets per context; a host process whose pages 100-102 are mapped to
  frames 0x1064-0x1066; and the state of a device with empty tables and four free card
  pages of each order.
\<close>

definition ex_pd :: bus_drvdata where
  "ex_pd = \<lparr>stlb_order = \<lparr>hugepage = False, page_shift = 12, page_mask = NOT 0xFFF\<rparr>,
     ltlb_order = \<lparr>hugepage = True, page_shift = 21, page_mask = NOT 0x1FFFFF\<rparr>,
     n_pages_in_huge = 512, dif_order_page_shift = 9, en_mem = True,
     max_n_map_pages = 16, hash_order = 1\<rparr>"

definition ex_mm :: host_mm where
  "ex_mm = \<lparr>mm_pages = (\<lambda>v. if 100 \<le> v \<and> v < 103 then Some (v + 0x1000) else None),
     mm_huge = (\<lambda>_. False)\<rparr>"

definition ex_state :: gup_state where
  "ex_state = \<lparr>user_buff_map = (\<lambda>_. empty_table 1), dev_tlb = Map.empty, hw_trace = [],
     wait_invldt = False, wait_offload = False, wait_sync = False,
     offload_lock = False, sync_lock = False, pid_array = (\<lambda>_. 42),
     page_refs = (\<lambda>_. 0), page_dirty = (\<lambda>_. False), hmem = (\<lambda>a. unat a), cmem = (\<lambda>_. 0),
     card_pool = (\<lambda>_. [0x80000, 0x81000, 0x82000, 0x83000])\<rparr>"

section \<open>Lemmas\<close>

lemma get_pages_count: "get_pages refs ps = (\<lambda>p. refs p + count_list ps p)"
  unfolding get_pages_def
  by (induction ps arbitrary: refs) (auto simp: fun_eq_iff)

lemma put_pages_count: "put_pages refs ps = (\<lambda>p. refs p - count_list ps p)"
  unfolding put_pages_def
  by (induction ps arbitrary: refs) (auto simp: fun_eq_iff)

lemma put_get_pages [simp]: "put_pages (get_pages refs ps) ps = refs"
  by (simp add: get_pages_count put_pages_count)

lemma length_gup_walk: "length (gup_walk pt v k) \<le> k"
  by (induction k arbitrary: v) (auto split: option.splits)

end
