(* ===== verification/Page_Pinner.thy ===== *)
theory Page_Pinner
  imports Device
begin

text \<open>
  Page Pinner: \<open>tlb_get_user_pages\<close> of \<open>fpga_gup.c\<close> (lines 398-495). It rejects a
  descriptor whose range wraps or is empty, pins the host pages with
  \<open>get_user_pages_remote\<close>, compares the (signed) count it got with the (unsigned)
  request, records the physical address of every page, allocates card pages when the
  device has card memory, and inserts the new region, host-resident, at the head of the
  bucket of its start page. Its two failure exits release pages: \<open>fail_host_unmap\<close>
  puts the \<open>ret_val\<close> pages obtained, \<open>fail_card_unmap\<close> puts
  \<open>user_pg->n_pages\<close> pages, a field \<open>kzalloc\<close> left at 0 and nothing has set yet.
  The result is the position of the new entry (the pointer returned), or \<open>None\<close> for
  the NULL return.
\<close>

section \<open>Definitions\<close>

text \<open>C's \<open>ret_val < pfa->n_pages\<close>: the \<open>int\<close> is converted to the unsigned type.\<close>

definition gup_short :: "int \<Rightarrow> u64 \<Rightarrow> bool" where
  "gup_short ret n \<longleftrightarrow> word_of_int ret < n"

text \<open>The record filled at lines 461-465 (and the arrays filled before).\<close>

definition pinned_region :: "desc_aligned \<Rightarrow> u64 list \<Rightarrow> u64 list option \<Rightarrow> user_pages" where
  "pinned_region pfa ps cs =
     \<lparr>up_vaddr = pfa_vaddr pfa, up_huge = pfa_hugepages pfa, up_cpid = pfa_cpid pfa,
      up_n_pages = pfa_n_pages pfa, up_host = True, up_pages = ps,
      up_hpages = map page_to_phys ps, up_cpages = cs\<rparr>"

text \<open>Line 467: \<open>hash_add(user_buff_map[d->id][pfa->cpid], &user_pg->entry, pfa->vaddr)\<close>.\<close>

definition insert_region :: "bus_drvdata \<Rightarrow> user_pages \<Rightarrow> gup_state \<Rightarrow> entry_pos \<times> gup_state" where
  "insert_region pd e s =
     (let bits = hash_order pd; tbl = user_buff_map s (up_cpid e)
      in ((hash_64 (up_vaddr e) bits, 0),
          s\<lparr>user_buff_map := (user_buff_map s)(up_cpid e := hash_add bits tbl e (up_vaddr e))\<rparr>))"

text \<open>
  Lines 440-442 flush every page of the request; a page that \<open>get_user_pages_remote\<close>
  did not fill is still the NULL that lines 423-425 stored (or, for the last one, never
  initialised).
\<close>

definition flush_pages :: "u64 list \<Rightarrow> u64 \<Rightarrow> unit outcome" where
  "flush_pages ps n = (if unat n \<le> length ps then Inr () else Inl Null_deref)"

definition tlb_get_user_pages ::
  "bus_drvdata \<Rightarrow> host_mm \<Rightarrow> desc_aligned \<Rightarrow> gup_state \<Rightarrow> (entry_pos option \<times> gup_state) outcome" where
  "tlb_get_user_pages pd mm pfa s =
     (let v = pfa_vaddr pfa; n = pfa_n_pages pfa; kzalloc_n_pages = (0 :: u64) in
      if v + n < v then Inr (None, s)
      else if n = 0 then Inr (None, s)
      else
        (case get_user_pages_remote mm v n s of (ret, ps, s1) \<Rightarrow>
          if gup_short ret n
          then Inr (None, s1\<lparr>page_refs := put_pages (page_refs s1) (take (nat ret) ps)\<rparr>)
          else obind (flush_pages ps n) (\<lambda>_.
            if en_mem pd then
              (case card_alloc s1 n (pfa_hugepages pfa) of (r, cs, s2) \<Rightarrow>
                if r \<noteq> 0
                then Inr (None, s2\<lparr>page_refs := put_pages (page_refs s2) (take (unat kzalloc_n_pages) ps)\<rparr>)
                else (case insert_region pd (pinned_region pfa ps (Some cs)) s2 of
                        (p, s3) \<Rightarrow> Inr (Some p, s3)))
            else (case insert_region pd (pinned_region pfa ps None) s1 of
                    (p, s3) \<Rightarrow> Inr (Some p, s3)))))"

section \<open>Lemmas\<close>

lemma pin_result_Some:
  "(case r of Inr (Some p, s') \<Rightarrow> True | _ \<Rightarrow> False) \<Longrightarrow> \<exists>p s'. r = Inr (Some p, s')"
  by (auto split: sum.splits option.splits prod.splits)

lemma gup_short_len:
  assumes "len < unat n"
  shows "gup_short (int len) n"
proof -
  have "len < 2 ^ 64" using assms unat_lt_2p64 [of n] by simp
  then have "unat (word_of_nat len :: u64) = len" by (simp add: unat_of_nat)
  then show ?thesis using assms by (simp add: gup_short_def word_less_nat_alt)
qed

lemma gup_full_not_short:
  assumes "len = unat n"
  shows "\<not> gup_short (int len) n"
  using assms by (simp add: gup_short_def)

lemma gup_remote_nonempty:
  "gup_walk (mm_pages mm) v (unat n) = ps \<Longrightarrow> ps \<noteq> [] \<Longrightarrow>
   get_user_pages_remote mm v n s = (int (length ps), ps, s\<lparr>page_refs := get_pages (page_refs s) ps\<rparr>)"
  by (simp add: get_user_pages_remote_def)

text \<open>
  C13. Page Pinner, partial pin: when \<open>get_user_pages_remote\<close> pins some but not all
  pages of a range that does not wrap, \<open>tlb_get_user_pages\<close> returns NULL and the state
  is exactly the one before the call: the pages it obtained are released and no region
  is inserted.
\<close>

theorem tlb_get_user_pages_partial:
  assumes nw: "no_wrap (pfa_vaddr pfa) (pfa_n_pages pfa)"
    and ps: "gup_walk (mm_pages mm) (pfa_vaddr pfa) (unat (pfa_n_pages pfa)) = ps"
    and got: "0 < length ps" and short: "length ps < unat (pfa_n_pages pfa)"
  shows "tlb_get_user_pages pd mm pfa s = Inr (None, s)"
proof -
  have n0: "pfa_n_pages pfa \<noteq> 0" using short by (auto simp: unat_eq_zero)
  have g: "get_user_pages_remote mm (pfa_vaddr pfa) (pfa_n_pages pfa) s =
      (int (length ps), ps, s\<lparr>page_refs := get_pages (page_refs s) ps\<rparr>)"
    using ps got by (simp add: gup_remote_nonempty)
  show ?thesis
    using nw n0 g gup_short_len [OF short]
    by (simp add: tlb_get_user_pages_def no_wrap_def Let_def)
qed

text \<open>
  C35. Page Pinner, unmapped first page: when the first page of the range is not mapped,
  \<open>get_user_pages_remote\<close> returns \<open>-EFAULT\<close>; the comparison \<open>ret_val < n_pages\<close>
  converts it to a huge unsigned value, the failure exit is skipped, and the routine
  dereferences the NULL page pointers when it flushes them.
\<close>

theorem tlb_get_user_pages_efault:
  assumes nw: "no_wrap (pfa_vaddr pfa) (pfa_n_pages pfa)" and n0: "pfa_n_pages pfa \<noteq> 0"
    and unmapped: "mm_pages mm (pfa_vaddr pfa) = None"
    and small: "pfa_n_pages pfa \<le> word_of_int (- EFAULT)"
  shows "tlb_get_user_pages pd mm pfa s = Inl Null_deref"
proof -
  obtain k where k: "unat (pfa_n_pages pfa) = Suc k"
    using n0 by (metis not0_implies_Suc unat_eq_zero)
  have "gup_walk (mm_pages mm) (pfa_vaddr pfa) (unat (pfa_n_pages pfa)) = []"
    using unmapped k by simp
  then have g: "get_user_pages_remote mm (pfa_vaddr pfa) (pfa_n_pages pfa) s = (- EFAULT, [], s)"
    using n0 by (simp add: get_user_pages_remote_def word_neq_0_conv)
  have ns: "\<not> gup_short (- EFAULT) (pfa_n_pages pfa)"
    using small by (simp add: gup_short_def not_less)
  have "flush_pages [] (pfa_n_pages pfa) = Inl Null_deref"
    using k by (simp add: flush_pages_def)
  then show ?thesis
    using nw n0 g ns by (simp add: tlb_get_user_pages_def no_wrap_def Let_def)
qed

text \<open>
  C34. Page Pinner, card allocation failure: when all host pages are pinned but the card
  allocator cannot supply the pages, \<open>tlb_get_user_pages\<close> returns NULL with the table
  unchanged but with every host page still pinned: the rollback loop runs over
  \<open>user_pg->n_pages\<close>, which is still 0.
\<close>

theorem tlb_get_user_pages_card_fail:
  assumes nw: "no_wrap (pfa_vaddr pfa) (pfa_n_pages pfa)" and n0: "pfa_n_pages pfa \<noteq> 0"
    and ps: "gup_walk (mm_pages mm) (pfa_vaddr pfa) (unat (pfa_n_pages pfa)) = ps"
    and full: "length ps = unat (pfa_n_pages pfa)"
    and mem: "en_mem pd" and pool: "length (card_pool s (pfa_hugepages pfa)) < unat (pfa_n_pages pfa)"
  shows "tlb_get_user_pages pd mm pfa s = Inr (None, s\<lparr>page_refs := get_pages (page_refs s) ps\<rparr>)"
proof -
  have ne: "ps \<noteq> []" using full n0 by (auto simp: unat_eq_zero)
  have g: "get_user_pages_remote mm (pfa_vaddr pfa) (pfa_n_pages pfa) s =
      (int (length ps), ps, s\<lparr>page_refs := get_pages (page_refs s) ps\<rparr>)"
    using ps ne by (simp add: gup_remote_nonempty)
  have f: "flush_pages ps (pfa_n_pages pfa) = Inr ()"
    using full by (simp add: flush_pages_def)
  have c: "card_alloc (s\<lparr>page_refs := get_pages (page_refs s) ps\<rparr>) (pfa_n_pages pfa) (pfa_hugepages pfa) =
      (- ENOMEM, [], s\<lparr>page_refs := get_pages (page_refs s) ps\<rparr>)"
    using pool by (simp add: card_alloc_def)
  show ?thesis
    using nw n0 g f c mem gup_full_not_short [OF full]
    by (simp add: tlb_get_user_pages_def no_wrap_def Let_def ENOMEM_def put_pages_def)
qed

lemma get_user_pages_remote_facts:
  assumes "get_user_pages_remote mm v n s = (ret, ps, s1)"
  shows "user_buff_map s1 = user_buff_map s \<and> card_pool s1 = card_pool s \<and>
    (ps \<noteq> [] \<longrightarrow> ps = gup_walk (mm_pages mm) v (unat n) \<and> ret = int (length ps) \<and>
       page_refs s1 = get_pages (page_refs s) ps)"
  using assms by (auto simp: get_user_pages_remote_def Let_def split: if_splits)

lemma card_alloc_ok:
  assumes "card_alloc s n h = (0, cs, s2)"
  shows "length cs = unat n \<and> user_buff_map s2 = user_buff_map s \<and> page_refs s2 = page_refs s"
  using assms by (auto simp: card_alloc_def Let_def ENOMEM_def split: if_splits)

lemma tlb_get_user_pages_SomeD:
  assumes res: "tlb_get_user_pages pd mm pfa s = Inr (Some p, s')"
  shows "\<exists>ps cs s1. no_wrap (pfa_vaddr pfa) (pfa_n_pages pfa) \<and> pfa_n_pages pfa \<noteq> 0 \<and>
     gup_walk (mm_pages mm) (pfa_vaddr pfa) (unat (pfa_n_pages pfa)) = ps \<and>
     length ps = unat (pfa_n_pages pfa) \<and>
     (case cs of None \<Rightarrow> \<not> en_mem pd | Some c \<Rightarrow> en_mem pd \<and> length c = unat (pfa_n_pages pfa)) \<and>
     user_buff_map s1 = user_buff_map s \<and> page_refs s1 = get_pages (page_refs s) ps \<and>
     insert_region pd (pinned_region pfa ps cs) s1 = (p, s')"
proof -
  let ?v = "pfa_vaddr pfa" and ?n = "pfa_n_pages pfa"
  have nw: "no_wrap ?v ?n" and n0: "?n \<noteq> 0"
    using res by (auto simp: tlb_get_user_pages_def Let_def no_wrap_def split: if_splits)
  obtain ret ps s1 where g: "get_user_pages_remote mm ?v ?n s = (ret, ps, s1)"
    by (metis prod_cases3)
  have r: "(if gup_short ret ?n
      then Inr (None, s1\<lparr>page_refs := put_pages (page_refs s1) (take (nat ret) ps)\<rparr>)
      else obind (flush_pages ps ?n) (\<lambda>_.
        if en_mem pd then
          (case card_alloc s1 ?n (pfa_hugepages pfa) of (r, cs, s2) \<Rightarrow>
            if r \<noteq> 0
            then Inr (None, s2\<lparr>page_refs := put_pages (page_refs s2) (take (unat (0::u64)) ps)\<rparr>)
            else (case insert_region pd (pinned_region pfa ps (Some cs)) s2 of (p, s3) \<Rightarrow> Inr (Some p, s3)))
        else (case insert_region pd (pinned_region pfa ps None) s1 of (p, s3) \<Rightarrow> Inr (Some p, s3))))
      = Inr (Some p, s')"
    using res nw n0 g by (simp add: tlb_get_user_pages_def Let_def no_wrap_def)
  then have ns: "\<not> gup_short ret ?n"
    by (auto split: if_splits)
  with r have fl: "flush_pages ps ?n = Inr ()"
    by (auto simp: obind_eq_Inr)
  then have len1: "unat ?n \<le> length ps" by (simp add: flush_pages_def split: if_splits)
  then have "ps \<noteq> []" using n0 by (auto simp: unat_eq_zero)
  with get_user_pages_remote_facts [OF g]
  have ps: "ps = gup_walk (mm_pages mm) ?v (unat ?n)" and u1: "user_buff_map s1 = user_buff_map s"
    and rf: "page_refs s1 = get_pages (page_refs s) ps" by auto
  have len: "length ps = unat ?n" using len1 length_gup_walk [of "mm_pages mm" ?v "unat ?n"] ps by simp
  show ?thesis
  proof (cases "en_mem pd")
    case True
    obtain r cs s2 where c: "card_alloc s1 ?n (pfa_hugepages pfa) = (r, cs, s2)"
      by (metis prod_cases3)
    with r fl True have r0: "r = 0" and ins: "insert_region pd (pinned_region pfa ps (Some cs)) s2 = (p, s')"
      by (auto split: if_splits prod.splits)
    from card_alloc_ok [OF c [unfolded r0]] u1 rf
    show ?thesis using nw n0 ps len ins True
      by (intro exI [of _ ps] exI [of _ "Some cs"] exI [of _ s2]) auto
  next
    case False
    obtain p0 s0 where i: "insert_region pd (pinned_region pfa ps None) s1 = (p0, s0)"
      by fastforce
    with r ns fl False have "p0 = p" "s0 = s'"
      by simp_all
    with i have ins: "insert_region pd (pinned_region pfa ps None) s1 = (p, s')"
      by simp
    show ?thesis using nw n0 ps len ins False u1 rf
      by (intro exI [of _ ps] exI [of _ None] exI [of _ s1]) auto
  qed
qed

lemma pinned_region_wf:
  assumes "no_wrap (pfa_vaddr pfa) (pfa_n_pages pfa)" "pfa_n_pages pfa \<noteq> 0"
    "length ps = unat (pfa_n_pages pfa)"
    "case cs of None \<Rightarrow> True | Some c \<Rightarrow> length c = unat (pfa_n_pages pfa)"
  shows "entry_wf (pinned_region pfa ps cs)"
  using assms by (simp add: entry_wf_def pinned_region_def word_neq_0_conv split: option.splits)

lemma hash_add_head:
  assumes "length tbl = 2 ^ bits"
  shows "valid_pos (hash_add bits tbl e k) (hash_64 k bits, 0) \<and>
         entry_at (hash_add bits tbl e k) (hash_64 k bits, 0) = e"
  using assms hash_64_bound [of k bits]
  by (simp add: hash_add_def valid_pos_def entry_at_def Let_def)

lemma pin_insert_inv:
  assumes inv: "table_inv (hash_order pd) (user_buff_map s (pfa_cpid pfa))"
    and dis: "\<forall>e\<in>set (table_entries (user_buff_map s (pfa_cpid pfa))).
                page_range (pfa_vaddr pfa) (pfa_n_pages pfa) \<inter> region_range e = {}"
    and res: "tlb_get_user_pages pd mm pfa s = Inr (Some p, s')"
  shows "table_inv (hash_order pd) (user_buff_map s' (pfa_cpid pfa)) \<and>
    valid_pos (user_buff_map s' (pfa_cpid pfa)) p \<and>
    up_vaddr (entry_at (user_buff_map s' (pfa_cpid pfa)) p) = pfa_vaddr pfa \<and>
    up_n_pages (entry_at (user_buff_map s' (pfa_cpid pfa)) p) = pfa_n_pages pfa \<and>
    up_host (entry_at (user_buff_map s' (pfa_cpid pfa)) p) \<and>
    (\<forall>c. c \<noteq> pfa_cpid pfa \<longrightarrow> user_buff_map s' c = user_buff_map s c)"
proof -
  let ?bits = "hash_order pd" and ?tbl = "user_buff_map s (pfa_cpid pfa)"
  from tlb_get_user_pages_SomeD [OF res] obtain ps cs s1 where
    nw: "no_wrap (pfa_vaddr pfa) (pfa_n_pages pfa)" and n0: "pfa_n_pages pfa \<noteq> 0"
    and len: "length ps = unat (pfa_n_pages pfa)"
    and cs: "case cs of None \<Rightarrow> \<not> en_mem pd | Some c \<Rightarrow> en_mem pd \<and> length c = unat (pfa_n_pages pfa)"
    and u1: "user_buff_map s1 = user_buff_map s"
    and ins: "insert_region pd (pinned_region pfa ps cs) s1 = (p, s')"
    by blast
  let ?e = "pinned_region pfa ps cs"
  have wf: "entry_wf ?e"
    using nw n0 len cs by (intro pinned_region_wf) (auto split: option.splits)
  have "\<forall>f\<in>set (table_entries ?tbl). regions_disjoint ?e f"
    using dis by (simp add: regions_disjoint_def region_range_def pinned_region_def)
  then have inv': "table_inv ?bits (hash_add ?bits ?tbl ?e (up_vaddr ?e))"
    using inv wf by (rule table_inv_hash_add [rotated 2])
  have p: "p = (hash_64 (pfa_vaddr pfa) ?bits, 0)"
    and s': "user_buff_map s' = (user_buff_map s)(pfa_cpid pfa := hash_add ?bits ?tbl ?e (pfa_vaddr pfa))"
    using ins u1 by (auto simp: insert_region_def Let_def pinned_region_def)
  have "length ?tbl = 2 ^ ?bits" using inv by (simp add: table_inv_def)
  from hash_add_head [OF this, of ?e "pfa_vaddr pfa"]
  have "valid_pos (user_buff_map s' (pfa_cpid pfa)) p \<and> entry_at (user_buff_map s' (pfa_cpid pfa)) p = ?e"
    using p s' by simp
  then show ?thesis
    using inv' s' by (simp add: pinned_region_def)
qed

text \<open>
  C2. Page Pinner, insertion: when the context's table is well formed and the new range
  is disjoint from all its regions, a successful \<open>tlb_get_user_pages\<close> keeps the table
  well formed (no overlap), returns the position of the new host-resident entry with the
  requested start and count, and leaves the tables of the other contexts alone.
\<close>

theorem tlb_get_user_pages_inv:
  assumes inv: "table_inv (hash_order pd) (user_buff_map s (pfa_cpid pfa))"
    and dis: "\<forall>e\<in>set (table_entries (user_buff_map s (pfa_cpid pfa))).
                page_range (pfa_vaddr pfa) (pfa_n_pages pfa) \<inter> region_range e = {}"
    and res: "tlb_get_user_pages pd mm pfa s = Inr (Some p, s')"
  shows "table_inv (hash_order pd) (user_buff_map s' (pfa_cpid pfa)) \<and>
    valid_pos (user_buff_map s' (pfa_cpid pfa)) p \<and>
    up_vaddr (entry_at (user_buff_map s' (pfa_cpid pfa)) p) = pfa_vaddr pfa \<and>
    up_n_pages (entry_at (user_buff_map s' (pfa_cpid pfa)) p) = pfa_n_pages pfa \<and>
    up_host (entry_at (user_buff_map s' (pfa_cpid pfa)) p) \<and>
    (\<forall>c. c \<noteq> pfa_cpid pfa \<longrightarrow> user_buff_map s' c = user_buff_map s c)"
  by (rule pin_insert_inv [OF assms])

lemma tlb_get_user_pages_wrap:
  "\<not> no_wrap (pfa_vaddr pfa) (pfa_n_pages pfa) \<Longrightarrow> tlb_get_user_pages pd mm pfa s = Inr (None, s)"
  by (simp add: tlb_get_user_pages_def no_wrap_def Let_def)

lemma tlb_get_user_pages_None_tables:
  "tlb_get_user_pages pd mm pfa s = Inr (None, s') \<Longrightarrow> user_buff_map s' = user_buff_map s"
  by (auto simp: tlb_get_user_pages_def Let_def obind_eq_Inr get_user_pages_remote_def card_alloc_def
      insert_region_def split: if_splits prod.splits)

lemma tlb_get_user_pages_locks:
  "tlb_get_user_pages pd mm pfa s = Inr (r, s1) \<Longrightarrow>
   offload_lock s1 = offload_lock s \<and> sync_lock s1 = sync_lock s"
  by (auto simp: tlb_get_user_pages_def Let_def obind_eq_Inr get_user_pages_remote_def card_alloc_def
      insert_region_def split: if_splits prod.splits)

lemma pin_entry_no_card:
  assumes pin: "tlb_get_user_pages pd mm pfa s = Inr (Some p, s1)" and nomem: "\<not> en_mem pd"
    and len: "length (user_buff_map s (pfa_cpid pfa)) = 2 ^ hash_order pd"
  shows "valid_pos (user_buff_map s1 (pfa_cpid pfa)) p \<and> up_cpages (entry_at (user_buff_map s1 (pfa_cpid pfa)) p) = None"
proof -
  from tlb_get_user_pages_SomeD [OF pin] obtain ps cs s0 where
    cs: "case cs of None \<Rightarrow> \<not> en_mem pd | Some c \<Rightarrow> en_mem pd \<and> length c = unat (pfa_n_pages pfa)"
    and u0: "user_buff_map s0 = user_buff_map s"
    and ins: "insert_region pd (pinned_region pfa ps cs) s0 = (p, s1)"
    by blast
  have none: "cs = None" using cs nomem by (cases cs) auto
  have p: "p = (hash_64 (pfa_vaddr pfa) (hash_order pd), 0)"
    and s1: "user_buff_map s1 (pfa_cpid pfa) =
      hash_add (hash_order pd) (user_buff_map s (pfa_cpid pfa)) (pinned_region pfa ps cs) (pfa_vaddr pfa)"
    using ins u0 by (auto simp: insert_region_def Let_def pinned_region_def)
  show ?thesis
    using hash_add_head [OF len, of "pinned_region pfa ps cs" "pfa_vaddr pfa"] p s1 none
    by (simp add: pinned_region_def)
qed

section \<open>Witnesses\<close>

theorem tlb_get_user_pages_partial_witness:
  "no_wrap 100 5 \<and> gup_walk (mm_pages ex_mm) 100 (unat (5::u64)) = [0x1064, 0x1065, 0x1066] \<and>
   tlb_get_user_pages ex_pd ex_mm (ex_fault 100 5) ex_state = Inr (None, ex_state)"
proof -
  have h1: "no_wrap (pfa_vaddr (ex_fault 100 5)) (pfa_n_pages (ex_fault 100 5))" by (simp add: ex_fault_def no_wrap_def EFAULT_def)
  have h2: "gup_walk (mm_pages ex_mm) (pfa_vaddr (ex_fault 100 5)) (unat (pfa_n_pages (ex_fault 100 5))) = [0x1064, 0x1065, 0x1066]"
    by code_simp
  have h3: "0 < length [0x1064, 0x1065, 0x1066 :: u64]" "length [0x1064, 0x1065, 0x1066 :: u64] < unat (pfa_n_pages (ex_fault 100 5))"
    by code_simp+
  from tlb_get_user_pages_partial [OF h1 h2 h3] h1 h2 show ?thesis
    by (simp add: ex_fault_def)
qed

theorem tlb_get_user_pages_efault_witness:
  "no_wrap 200 2 \<and> mm_pages ex_mm 200 = None \<and>
   tlb_get_user_pages ex_pd ex_mm (ex_fault 200 2) ex_state = Inl Null_deref"
proof -
  have h1: "no_wrap (pfa_vaddr (ex_fault 200 2)) (pfa_n_pages (ex_fault 200 2))" by (simp add: ex_fault_def no_wrap_def EFAULT_def)
  have h2: "pfa_n_pages (ex_fault 200 2) \<noteq> 0" by (simp add: ex_fault_def no_wrap_def EFAULT_def)
  have h3: "mm_pages ex_mm (pfa_vaddr (ex_fault 200 2)) = None" by code_simp
  have h4: "pfa_n_pages (ex_fault 200 2) \<le> word_of_int (- EFAULT)" by (simp add: ex_fault_def no_wrap_def EFAULT_def)
  from tlb_get_user_pages_efault [OF h1 h2 h3 h4] h1 h3 show ?thesis
    by (simp add: ex_fault_def)
qed

theorem tlb_get_user_pages_card_fail_witness:
  "en_mem ex_pd \<and> length (card_pool (ex_state\<lparr>card_pool := \<lambda>_. [0x80000]\<rparr>) False) = 1 \<and>
   tlb_get_user_pages ex_pd ex_mm (ex_fault 100 3) (ex_state\<lparr>card_pool := \<lambda>_. [0x80000]\<rparr>) =
     Inr (None, ex_state\<lparr>card_pool := \<lambda>_. [0x80000],
       page_refs := get_pages (page_refs ex_state) [0x1064, 0x1065, 0x1066]\<rparr>) \<and>
   get_pages (page_refs ex_state) [0x1064, 0x1065, 0x1066] 0x1064 = 1"
proof -
  let ?s = "ex_state\<lparr>card_pool := \<lambda>_. [0x80000]\<rparr>"
  have h1: "no_wrap (pfa_vaddr (ex_fault 100 3)) (pfa_n_pages (ex_fault 100 3))" by (simp add: ex_fault_def no_wrap_def EFAULT_def)
  have h2: "pfa_n_pages (ex_fault 100 3) \<noteq> 0" by (simp add: ex_fault_def no_wrap_def EFAULT_def)
  have h3: "gup_walk (mm_pages ex_mm) (pfa_vaddr (ex_fault 100 3)) (unat (pfa_n_pages (ex_fault 100 3))) = [0x1064, 0x1065, 0x1066]"
    by code_simp
  have h4: "length [0x1064, 0x1065, 0x1066 :: u64] = unat (pfa_n_pages (ex_fault 100 3))" by code_simp
  have h5: "en_mem ex_pd" by code_simp
  have h6: "length (card_pool ?s (pfa_hugepages (ex_fault 100 3))) < unat (pfa_n_pages (ex_fault 100 3))"
    by code_simp
  have r: "get_pages (page_refs ex_state) [0x1064, 0x1065, 0x1066] 0x1064 = 1"
    by code_simp
  from tlb_get_user_pages_card_fail [OF h1 h2 h3 h4 h5 h6] h5 r show ?thesis
    by simp
qed

theorem tlb_get_user_pages_inv_witness:
  "\<exists>p s'. tlb_get_user_pages ex_pd ex_mm (ex_fault 100 3) ex_state = Inr (Some p, s') \<and>
     table_inv 1 (user_buff_map s' 0) \<and> valid_pos (user_buff_map s' 0) p \<and>
     up_vaddr (entry_at (user_buff_map s' 0) p) = 100 \<and> up_host (entry_at (user_buff_map s' 0) p)"
proof -
  have "case tlb_get_user_pages ex_pd ex_mm (ex_fault 100 3) ex_state of Inr (Some p, s') \<Rightarrow> True | _ \<Rightarrow> False"
    by code_simp
  then obtain p s' where res: "tlb_get_user_pages ex_pd ex_mm (ex_fault 100 3) ex_state = Inr (Some p, s')"
    using pin_result_Some by blast
  have h1: "table_inv (hash_order ex_pd) (user_buff_map ex_state (pfa_cpid (ex_fault 100 3)))" by code_simp
  have h2: "\<forall>e\<in>set (table_entries (user_buff_map ex_state (pfa_cpid (ex_fault 100 3)))).
      page_range (pfa_vaddr (ex_fault 100 3)) (pfa_n_pages (ex_fault 100 3)) \<inter> region_range e = {}"
    by code_simp
  from tlb_get_user_pages_inv [OF h1 h2 res] res show ?thesis
    by (auto simp: ex_fault_def ex_pd_def)
qed

end
