(* ===== verification/TLB_Programmer.thy ===== *)
theory TLB_Programmer
  imports Device
begin

text \<open>
  The TLB Programmer of \<open>fpga_gup.c\<close>: \<open>tlb_map_gup\<close> (lines 175-217) and
  \<open>tlb_unmap_gup\<close> (lines 226-267). Both build an array of TLB descriptors in a loop
  that steps through the region by \<open>pg_inc\<close> base pages and submit it in one batch;
  the unmap then issues one invalidation per run, marks the run it computes as the last
  one, and waits for the device's acknowledgement. The loop counters keep their C
  widths: \<open>n_pages\<close>, \<open>n_map_pages\<close> and \<open>pg_inc\<close> are \<open>uint32_t\<close>, and \<open>i\<close> is an
  \<open>int\<close> compared with them as unsigned, so a 32-bit counter.
\<close>

unbundle bit_operations_syntax

section \<open>Definitions\<close>

text \<open>\<open>pg_inc\<close> (lines 187 and 239): the device step in base pages.\<close>

definition tlb_pg_inc :: "bus_drvdata \<Rightarrow> user_pages \<Rightarrow> 32 word" where
  "tlb_pg_inc pd up = (if up_huge up then ucast (n_pages_in_huge pd) else 1)"

text \<open>\<open>n_map_pages\<close> before any cap (lines 193 and 237): one entry per huge page.\<close>

definition map_pages_of :: "bus_drvdata \<Rightarrow> bool \<Rightarrow> 32 word \<Rightarrow> 32 word" where
  "map_pages_of pd huge n = (if huge then drop_bit (dif_order_page_shift pd) n else n)"

text \<open>
  \<open>vmalloc(n_map_pages * 2 * sizeof(uint64_t))\<close> and its \<open>BUG_ON\<close> (lines 200-201 and
  242-243): the product \<open>n_map_pages * 2\<close> is taken in 32 bits; a request of zero bytes
  returns NULL. The result is the number of two-word descriptor slots of the array.
\<close>

definition map_array_slots :: "32 word \<Rightarrow> nat outcome" where
  "map_array_slots nmp = (let words = unat (nmp * 2) in if words = 0 then Inl Bug_on else Inr (words div 2))"

text \<open>Line 208: \<open>user_pg->host ? user_pg->hpages[k] : user_pg->cpages[k]\<close>.\<close>

definition backing_addr :: "user_pages \<Rightarrow> nat \<Rightarrow> u64 outcome" where
  "backing_addr up k =
     (if up_host up then read_at (up_hpages up) k
      else (case up_cpages up of None \<Rightarrow> Inl Null_deref | Some cs \<Rightarrow> read_at cs k))"

text \<open>
  The fill loops (lines 204-212 and 245-250). A pass builds the descriptor for \<open>i\<close> and
  \<open>vaddr_tmp\<close> (\<open>mk\<close>, which may read the backing arrays) and stores it into slot \<open>j\<close>;
  a slot past the array is an out-of-bounds write. The loop ends because every pass
  stores into a new slot, even when \<open>i\<close> wraps or \<open>pg_inc\<close> is zero.
\<close>

function fill_loop ::
  "(32 word \<Rightarrow> u64 \<Rightarrow> tlb_desc outcome) \<Rightarrow> 32 word \<Rightarrow> 32 word \<Rightarrow> nat \<Rightarrow> 32 word \<Rightarrow> nat \<Rightarrow> u64 \<Rightarrow>
    tlb_desc list \<Rightarrow> tlb_desc list outcome" where
  "fill_loop mk pg_inc n_pages slots i j vaddr_tmp acc =
     (if i < n_pages then
        obind (mk i vaddr_tmp) (\<lambda>d.
          if j < slots
          then fill_loop mk pg_inc n_pages slots (i + pg_inc) (Suc j) (vaddr_tmp + ucast pg_inc) (acc @ [d])
          else Inl Oob_write)
      else Inr acc)"
  by pat_completeness auto
termination
  by (relation "measure (\<lambda>(_, _, _, slots, _, j, _, _). slots - j)") auto

declare fill_loop.simps [simp del]

text \<open>
  Lines 207-209: \<open>tlb_create_map\<close> for counter \<open>i\<close>; the index \<open>i + pg_offs\<close> converts the
  \<open>int\<close> to \<open>uint64_t\<close> (sign extension).
\<close>

definition map_entry :: "user_pages \<Rightarrow> int \<Rightarrow> u64 \<Rightarrow> 32 word \<Rightarrow> u64 \<Rightarrow> tlb_desc outcome" where
  "map_entry up hpid pg_offs i vaddr_tmp =
     obind (backing_addr up (unat (scast i + pg_offs)))
       (\<lambda>pa. Inr (Map_desc vaddr_tmp pa (up_host up) (up_cpid up) hpid))"

text \<open>\<open>tlb_map_gup(d, pfa, user_pg, hpid)\<close>.\<close>

definition tlb_map_gup :: "bus_drvdata \<Rightarrow> desc_aligned \<Rightarrow> user_pages \<Rightarrow> int \<Rightarrow> gup_state \<Rightarrow> gup_state outcome" where
  "tlb_map_gup pd pfa up hpid s =
     (let pg_inc = tlb_pg_inc pd up;
          pg_offs = pfa_vaddr pfa - up_vaddr up;
          n_pages = (ucast (pfa_n_pages pfa) :: 32 word);
          n_map_pages0 = map_pages_of pd (up_huge up) n_pages;
          n_map_pages = (if max_n_map_pages pd < unat n_map_pages0
                         then of_nat (max_n_map_pages pd) else n_map_pages0)
      in obind (map_array_slots n_map_pages) (\<lambda>slots.
         obind (fill_loop (map_entry up hpid pg_offs) pg_inc n_pages slots 0 0 (pfa_vaddr pfa) []) (\<lambda>ds.
           Inr (device_step (Tlb_service (up_huge up) (take (unat n_map_pages) ds)) s))))"

text \<open>
  The invalidation loop (lines 256-260): one \<open>fpga_invalidate\<close> per run of \<open>pg_inc\<close>
  pages, the run with \<open>i == n_pages - pg_inc\<close> marked last. With a zero step, or a
  counter that wraps past \<open>n_pages\<close>, the loop never ends: the value is then \<open>None\<close>.
\<close>

partial_function (option) inval_runs :: "32 word \<Rightarrow> 32 word \<Rightarrow> int \<Rightarrow> 32 word \<Rightarrow> u64 \<Rightarrow> hw_cmd list option" where
  "inval_runs n_pages pg_inc hpid i vaddr_tmp =
     (if i < n_pages then
        Option.bind (inval_runs n_pages pg_inc hpid (i + pg_inc) (vaddr_tmp + ucast pg_inc))
          (\<lambda>rest. Some (Invalidate vaddr_tmp (ucast pg_inc) hpid (i = n_pages - pg_inc) # rest))
      else Some [])"

declare inval_runs.simps [code]

text \<open>Lines 263-264: wait until the device raises \<open>wait_invldt\<close>, then clear it.\<close>

definition wait_invldt_done :: "gup_state \<Rightarrow> gup_state outcome" where
  "wait_invldt_done s = (if wait_invldt s then Inr (s\<lparr>wait_invldt := False\<rparr>) else Inl Blocked)"

text \<open>\<open>tlb_unmap_gup(d, user_pg, hpid)\<close>.\<close>

definition tlb_unmap_gup :: "bus_drvdata \<Rightarrow> user_pages \<Rightarrow> int \<Rightarrow> gup_state \<Rightarrow> gup_state outcome" where
  "tlb_unmap_gup pd up hpid s =
     (let n_pages = (ucast (up_n_pages up) :: 32 word);
          n_map_pages = map_pages_of pd (up_huge up) n_pages;
          pg_inc = tlb_pg_inc pd up
      in obind (map_array_slots n_map_pages) (\<lambda>slots.
         obind (fill_loop (\<lambda>_ v. Inr (Unmap_desc v hpid)) pg_inc n_pages slots 0 0 (up_vaddr up) []) (\<lambda>ds.
           let s1 = device_step (Tlb_service (up_huge up) (take (unat n_map_pages) ds)) s
           in (case inval_runs n_pages pg_inc hpid 0 (up_vaddr up) of
                 None \<Rightarrow> Inl Diverges
               | Some cmds \<Rightarrow> wait_invldt_done (fold device_step cmds s1)))))"

section \<open>The contract of the TLB Programmer\<close>

text \<open>
  The device configuration the driver is built with: a huge page is \<open>2 ^ dif_order_page_shift\<close>
  base pages and fits a 32-bit step.
\<close>

definition pd_wf :: "bus_drvdata \<Rightarrow> bool" where
  "pd_wf pd \<longleftrightarrow> dif_order_page_shift pd < 31 \<and> n_pages_in_huge pd = 2 ^ dif_order_page_shift pd"

text \<open>The backing addresses the region's residency selects (section 4.3 of the specification).\<close>

definition backing_list :: "user_pages \<Rightarrow> u64 list" where
  "backing_list up = (if up_host up then up_hpages up else (case up_cpages up of None \<Rightarrow> [] | Some cs \<Rightarrow> cs))"

text \<open>
  The batch \<open>program_map(region, sub_range)\<close> submits: one entry per device page of the
  sub-range, pairing the virtual page with the backing address of the same page.
\<close>

definition map_batch :: "bus_drvdata \<Rightarrow> desc_aligned \<Rightarrow> user_pages \<Rightarrow> int \<Rightarrow> tlb_desc list" where
  "map_batch pd pfa up hpid =
     (let inc = unat (tlb_pg_inc pd up); offs = unat (pfa_vaddr pfa - up_vaddr up)
      in map (\<lambda>k. Map_desc (pfa_vaddr pfa + word_of_nat (k * inc)) (backing_list up ! (offs + k * inc))
                    (up_host up) (up_cpid up) hpid)
           [0..<unat (pfa_n_pages pfa) div inc])"

text \<open>
  The batch and the invalidation runs of \<open>program_unmap(region)\<close>: one unmapping per
  device page, one invalidation per run, only the final run marked.
\<close>

definition unmap_batch :: "bus_drvdata \<Rightarrow> user_pages \<Rightarrow> int \<Rightarrow> tlb_desc list" where
  "unmap_batch pd up hpid =
     (let inc = unat (tlb_pg_inc pd up)
      in map (\<lambda>k. Unmap_desc (up_vaddr up + word_of_nat (k * inc)) hpid) [0..<unat (up_n_pages up) div inc])"

definition inval_batch :: "bus_drvdata \<Rightarrow> user_pages \<Rightarrow> int \<Rightarrow> hw_cmd list" where
  "inval_batch pd up hpid =
     (let inc = unat (tlb_pg_inc pd up); K = unat (up_n_pages up) div inc
      in map (\<lambda>k. Invalidate (up_vaddr up + word_of_nat (k * inc)) (ucast (tlb_pg_inc pd up)) hpid (Suc k = K))
           [0..<K])"

text \<open>A step that changes only the device TLB, the command log and the unmap flag.\<close>

definition tlb_only :: "gup_state \<Rightarrow> gup_state \<Rightarrow> bool" where
  "tlb_only s s' \<longleftrightarrow> s' = s\<lparr>dev_tlb := dev_tlb s', hw_trace := hw_trace s', wait_invldt := wait_invldt s'\<rparr>"

subsection \<open>Fixture\<close>

text \<open>A host-resident base-page region of pages 100-102 backed by three distinct frames.\<close>

definition ex_host_region :: user_pages where
  "ex_host_region = (ex_region 100 3)\<lparr>up_hpages := [0x1000, 0x2000, 0x3000]\<rparr>"

section \<open>Lemmas\<close>

lemma fill_loop_exact:
  assumes "unat n = unat i + K * unat inc" "0 < unat inc" "j + K \<le> slots"
    "\<forall>k<K. mk (i + word_of_nat (k * unat inc)) (v + word_of_nat (k * unat inc)) = Inr (f k)"
  shows "fill_loop mk inc n slots i j v acc = Inr (acc @ map f [0..<K])"
  using assms
proof (induction K arbitrary: i j v acc f)
  case 0
  then show ?case by (subst fill_loop.simps) (simp add: word_less_nat_alt)
next
  case (Suc K)
  have lt: "i < n" using Suc.prems(1,2) by (simp add: word_less_nat_alt)
  have mk0: "mk i v = Inr (f 0)" using Suc.prems(4) by (metis mult_zero_left of_nat_0 add_0_right zero_less_Suc)
  have "unat i + unat inc \<le> unat n" using Suc.prems(1) by simp
  then have ui: "unat (i + inc) = unat i + unat inc"
    using unsigned_less [where 'a = nat and w = n] unat_add_lem [of i inc] by simp
  have rest: "fill_loop mk inc n slots (i + inc) (Suc j) (v + ucast inc) (acc @ [f 0]) =
      Inr ((acc @ [f 0]) @ map (f \<circ> Suc) [0..<K])"
  proof (rule Suc.IH)
    show "unat n = unat (i + inc) + K * unat inc" using Suc.prems(1) ui by simp
    show "0 < unat inc" by fact
    show "Suc j + K \<le> slots" using Suc.prems(3) by simp
    show "\<forall>k<K. mk (i + inc + word_of_nat (k * unat inc)) (v + ucast inc + word_of_nat (k * unat inc)) = Inr ((f \<circ> Suc) k)"
    proof (intro allI impI)
      fix k assume "k < K"
      then have "mk (i + word_of_nat (Suc k * unat inc)) (v + word_of_nat (Suc k * unat inc)) = Inr (f (Suc k))"
        using Suc.prems(4) by blast
      then show "mk (i + inc + word_of_nat (k * unat inc)) (v + ucast inc + word_of_nat (k * unat inc)) = Inr ((f \<circ> Suc) k)"
        by (simp add: algebra_simps)
    qed
  qed
  have "fill_loop mk inc n slots i j v acc =
      fill_loop mk inc n slots (i + inc) (Suc j) (v + ucast inc) (acc @ [f 0])"
    using lt mk0 Suc.prems(3) by (subst fill_loop.simps) simp
  also have "\<dots> = Inr (acc @ map f [0..<Suc K])"
    using rest by (simp add: map_upt_Suc comp_def del: upt_Suc)
  finally show ?case .
qed

lemma fill_loop_overflow:
  assumes "unat i + K * unat inc < unat n" "j + K = slots"
    "\<forall>k\<le>K. \<exists>d. mk (i + word_of_nat (k * unat inc)) (v + word_of_nat (k * unat inc)) = Inr d"
  shows "fill_loop mk inc n slots i j v acc = Inl Oob_write"
  using assms
proof (induction K arbitrary: i j v acc)
  case 0
  then obtain d where "mk i v = Inr d" by fastforce
  with 0 show ?case by (subst fill_loop.simps) (simp add: word_less_nat_alt)
next
  case (Suc K)
  have lt: "i < n" using Suc.prems(1) by (simp add: word_less_nat_alt)
  obtain d where d: "mk i v = Inr d" using Suc.prems(3) by fastforce
  have "unat i + unat inc < 2 ^ 32"
    using Suc.prems(1) unsigned_less [where 'a = nat and w = n] by simp
  then have ui: "unat (i + inc) = unat i + unat inc" using unat_add_lem [of i inc] by simp
  have rest: "fill_loop mk inc n slots (i + inc) (Suc j) (v + ucast inc) (acc @ [d]) = Inl Oob_write"
  proof (rule Suc.IH)
    show "unat (i + inc) + K * unat inc < unat n" using Suc.prems(1) ui by simp
    show "Suc j + K = slots" using Suc.prems(2) by simp
    show "\<forall>k\<le>K. \<exists>d. mk (i + inc + word_of_nat (k * unat inc)) (v + ucast inc + word_of_nat (k * unat inc)) = Inr d"
    proof (intro allI impI)
      fix k assume "k \<le> K"
      then obtain d' where "mk (i + word_of_nat (Suc k * unat inc)) (v + word_of_nat (Suc k * unat inc)) = Inr d'"
        using Suc.prems(3) by (meson Suc_le_mono)
      then show "\<exists>d. mk (i + inc + word_of_nat (k * unat inc)) (v + ucast inc + word_of_nat (k * unat inc)) = Inr d"
        by (auto simp: algebra_simps)
    qed
  qed
  show ?case
    using lt d rest Suc.prems(2) by (subst fill_loop.simps) simp
qed

lemma inval_runs_exact:
  assumes "unat n = unat i + K * unat inc" "0 < unat inc"
  shows "inval_runs n inc hpid i v =
    Some (map (\<lambda>k. Invalidate (v + word_of_nat (k * unat inc)) (ucast inc) hpid (Suc k = K)) [0..<K])"
  using assms
proof (induction K arbitrary: i v)
  case 0
  then show ?case by (subst inval_runs.simps) (simp add: word_less_nat_alt)
next
  case (Suc K)
  have lt: "i < n" using Suc.prems by (simp add: word_less_nat_alt)
  have "unat i + unat inc \<le> unat n" using Suc.prems(1) by simp
  then have ui: "unat (i + inc) = unat i + unat inc"
    using unsigned_less [where 'a = nat and w = n] unat_add_lem [of i inc] by simp
  have last: "(i = n - inc) = (K = 0)"
  proof -
    have "inc \<le> n" using Suc.prems(1) by (simp add: word_le_nat_alt)
    then have "unat (n - inc) = unat n - unat inc" by (simp add: unat_sub)
    then show ?thesis using Suc.prems by (auto simp: word_unat_eq_iff)
  qed
  have rest: "inval_runs n inc hpid (i + inc) (v + ucast inc) =
      Some (map (\<lambda>k. Invalidate (v + ucast inc + word_of_nat (k * unat inc)) (ucast inc) hpid (Suc k = K)) [0..<K])"
    using Suc.prems(1,2) ui by (intro Suc.IH) simp_all
  show ?case
    using lt last rest
    by (subst inval_runs.simps) (simp add: map_upt_Suc algebra_simps del: upt_Suc)
qed

lemma fold_device_step_inval:
  "\<forall>c\<in>set cs. \<exists>v n h f. c = Invalidate v n h f \<Longrightarrow>
   fold device_step cs s =
     s\<lparr>hw_trace := hw_trace s @ cs,
       wait_invldt := (wait_invldt s \<or> (\<exists>c\<in>set cs. case c of Invalidate _ _ _ f \<Rightarrow> f | _ \<Rightarrow> False))\<rparr>"
proof (induction cs arbitrary: s)
  case Nil
  then show ?case by simp
next
  case (Cons c cs)
  then obtain v n h f where c: "c = Invalidate v n h f" by auto
  show ?case using Cons c by auto
qed

lemma tlb_pg_inc_unat:
  "pd_wf pd \<Longrightarrow> unat (tlb_pg_inc pd up) = (if up_huge up then 2 ^ dif_order_page_shift pd else 1)"
proof -
  have "pd_wf pd \<Longrightarrow> (2::nat) ^ dif_order_page_shift pd < 2 ^ 32"
    using power_strict_increasing [of "dif_order_page_shift pd" 32 "2::nat"] by (simp add: pd_wf_def)
  then show "pd_wf pd \<Longrightarrow> ?thesis"
    by (auto simp: tlb_pg_inc_def pd_wf_def unsigned_ucast_eq take_bit_nat_eq_self unat_pow2)
qed

lemma tlb_pg_inc_pos: "pd_wf pd \<Longrightarrow> 0 < unat (tlb_pg_inc pd up)"
  by (simp add: tlb_pg_inc_unat)

lemma map_pages_of_unat:
  "pd_wf pd \<Longrightarrow> unat (map_pages_of pd (up_huge up) n) = unat n div unat (tlb_pg_inc pd up)"
  by (simp add: map_pages_of_def tlb_pg_inc_unat drop_bit_eq_div unat_div unat_pow2 pd_wf_def)

lemma map_array_slots_ok:
  "0 < unat nmp \<Longrightarrow> unat nmp < 2 ^ 31 \<Longrightarrow> map_array_slots nmp = Inr (unat nmp)"
  using unat_mult_lem [of nmp 2] by (simp add: map_array_slots_def Let_def)

lemma backing_addr_ok:
  "k < length (backing_list up) \<Longrightarrow> up_host up \<or> up_cpages up \<noteq> None \<Longrightarrow>
   backing_addr up k = Inr (backing_list up ! k)"
  by (auto simp: backing_addr_def backing_list_def)

lemma length_backing_list:
  "entry_wf up \<Longrightarrow> up_host up \<or> up_cpages up \<noteq> None \<Longrightarrow> length (backing_list up) = unat (up_n_pages up)"
  by (auto simp: backing_list_def entry_wf_def)

lemma map_entry_ok:
  assumes wf: "entry_wf up" and cp: "up_host up \<or> up_cpages up \<noteq> None"
    and sub: "page_range (pfa_vaddr pfa) (pfa_n_pages pfa) \<subseteq> region_range up"
    and n0: "0 < pfa_n_pages pfa" and small: "unat (pfa_n_pages pfa) < 2 ^ 31"
    and m: "m < unat (pfa_n_pages pfa)"
  shows "map_entry up hpid (pfa_vaddr pfa - up_vaddr up) (word_of_nat m) v' =
    Inr (Map_desc v' (backing_list up ! (unat (pfa_vaddr pfa - up_vaddr up) + m)) (up_host up) (up_cpid up) hpid)"
proof -
  let ?offs = "pfa_vaddr pfa - up_vaddr up"
  have sc: "(scast (word_of_nat m :: 32 word) :: u64) = word_of_nat m"
    using small m by (intro scast_of_nat_small) simp
  have bnd: "unat ?offs + unat (pfa_n_pages pfa) \<le> unat (up_n_pages up)"
    using sub_range [OF sub n0] by simp
  have lt64: "unat ?offs + m < 2 ^ 64"
    using m bnd unat_lt_2p64 [of "up_n_pages up"] by linarith
  then have "unat (word_of_nat m :: u64) = m"
    by (subst unat_of_nat) simp
  then have "unat (word_of_nat m + ?offs) = unat ?offs + m"
    using lt64 unat_add_lem [of "word_of_nat m :: u64" ?offs] by simp
  moreover have "unat ?offs + m < length (backing_list up)"
    using m bnd length_backing_list [OF wf cp] by linarith
  ultimately show ?thesis
    using sc cp by (simp add: map_entry_def backing_addr_ok)
qed

lemma tlb_map_gup_eq:
  assumes pd: "pd_wf pd" and wf: "entry_wf up"
    and sub: "page_range (pfa_vaddr pfa) (pfa_n_pages pfa) \<subseteq> region_range up"
    and n0: "0 < pfa_n_pages pfa" and small: "unat (pfa_n_pages pfa) < 2 ^ 31"
    and mult: "unat (pfa_n_pages pfa) mod unat (tlb_pg_inc pd up) = 0"
    and cap: "unat (pfa_n_pages pfa) div unat (tlb_pg_inc pd up) \<le> max_n_map_pages pd"
    and cp: "up_host up \<or> up_cpages up \<noteq> None"
  shows "tlb_map_gup pd pfa up hpid s =
    Inr (device_step (Tlb_service (up_huge up) (map_batch pd pfa up hpid)) s)"
proof -
  define inc where "inc = unat (tlb_pg_inc pd up)"
  define n where "n = unat (pfa_n_pages pfa)"
  define K where "K = n div inc"
  define n32 where "n32 = (ucast (pfa_n_pages pfa) :: 32 word)"
  define offs where "offs = pfa_vaddr pfa - up_vaddr up"
  have inc0: "0 < inc" using pd by (simp add: inc_def tlb_pg_inc_pos)
  have un: "unat n32 = n" using small by (simp add: n32_def n_def unat_ucast_small)
  have nK: "n = K * inc" using mult div_mult_mod_eq [of n inc] by (simp add: K_def n_def inc_def)
  have "0 < n" using n0 by (simp add: n_def unat_gt_0)
  then have K0: "0 < K" using nK by (cases K) simp_all
  have Kn: "K \<le> n" using nK inc0 by simp
  have nmp: "unat (map_pages_of pd (up_huge up) n32) = K"
    using pd un by (simp add: map_pages_of_unat K_def inc_def)
  have slots: "map_array_slots (map_pages_of pd (up_huge up) n32) = Inr K"
    using map_array_slots_ok [of "map_pages_of pd (up_huge up) n32"] nmp K0 Kn small
    by (simp add: n_def)
  have bnd: "unat offs + n \<le> unat (up_n_pages up)"
    using sub_range [OF sub n0] by (simp add: offs_def n_def)
  have len: "length (backing_list up) = unat (up_n_pages up)"
    using wf cp by (rule length_backing_list)
  define f where "f k = Map_desc (pfa_vaddr pfa + word_of_nat (k * inc))
      (backing_list up ! (unat offs + k * inc)) (up_host up) (up_cpid up) hpid" for k
  have entries: "\<forall>k<K. map_entry up hpid offs (0 + word_of_nat (k * inc))
      (pfa_vaddr pfa + word_of_nat (k * inc)) = Inr (f k)"
  proof (intro allI impI)
    fix k assume "k < K"
    then have kn: "k * inc < n" using nK inc0 by simp
    then have sc: "(scast (word_of_nat (k * inc) :: 32 word) :: u64) = word_of_nat (k * inc)"
      using small by (intro scast_of_nat_small) (simp add: n_def)
    have lt64: "unat offs + k * inc < 2 ^ 64"
      using kn bnd unat_lt_2p64 [of "up_n_pages up"] by linarith
    then have "unat (word_of_nat (k * inc) :: u64) = k * inc"
      by (subst unat_of_nat) simp
    then have "unat (word_of_nat (k * inc) + offs) = unat offs + k * inc"
      using lt64 unat_add_lem [of "word_of_nat (k * inc) :: u64" offs] by simp
    moreover have "unat offs + k * inc < length (backing_list up)"
      using kn bnd len by linarith
    ultimately show "map_entry up hpid offs (0 + word_of_nat (k * inc))
        (pfa_vaddr pfa + word_of_nat (k * inc)) = Inr (f k)"
      using sc cp by (simp add: map_entry_def backing_addr_ok f_def)
  qed
  have loop: "fill_loop (map_entry up hpid offs) (tlb_pg_inc pd up) n32 K 0 0 (pfa_vaddr pfa) [] =
      Inr ([] @ map f [0..<K])"
    using un nK inc0 entries by (intro fill_loop_exact) (simp_all add: inc_def)
  have batch: "map_batch pd pfa up hpid = map f [0..<K]"
    by (simp add: map_batch_def Let_def f_def K_def n_def inc_def offs_def)
  show ?thesis
    using slots nmp loop batch cap
    by (simp add: tlb_map_gup_def Let_def n32_def [symmetric] offs_def [symmetric]
        K_def n_def inc_def)
qed

lemma tlb_unmap_gup_eq:
  assumes pd: "pd_wf pd" and n0: "0 < up_n_pages up" and small: "unat (up_n_pages up) < 2 ^ 31"
    and mult: "unat (up_n_pages up) mod unat (tlb_pg_inc pd up) = 0"
  shows "tlb_unmap_gup pd up hpid s =
    Inr (s\<lparr>dev_tlb := fold (tlb_apply (up_huge up)) (unmap_batch pd up hpid) (dev_tlb s),
           hw_trace := hw_trace s @ Tlb_service (up_huge up) (unmap_batch pd up hpid) # inval_batch pd up hpid,
           wait_invldt := False\<rparr>)"
proof -
  define inc where "inc = unat (tlb_pg_inc pd up)"
  define n where "n = unat (up_n_pages up)"
  define K where "K = n div inc"
  define n32 where "n32 = (ucast (up_n_pages up) :: 32 word)"
  have inc0: "0 < inc" using pd by (simp add: inc_def tlb_pg_inc_pos)
  have un: "unat n32 = n" using small by (simp add: n32_def n_def unat_ucast_small)
  have nK: "n = K * inc" using mult div_mult_mod_eq [of n inc] by (simp add: K_def n_def inc_def)
  have "0 < n" using n0 by (simp add: n_def unat_gt_0)
  then have K0: "0 < K" using nK by (cases K) simp_all
  have Kn: "K \<le> n" using nK inc0 by simp
  have nmp: "unat (map_pages_of pd (up_huge up) n32) = K"
    using pd un by (simp add: map_pages_of_unat K_def inc_def)
  have slots: "map_array_slots (map_pages_of pd (up_huge up) n32) = Inr K"
    using map_array_slots_ok [of "map_pages_of pd (up_huge up) n32"] nmp K0 Kn small
    by (simp add: n_def)
  have loop: "fill_loop (\<lambda>_ v. Inr (Unmap_desc v hpid)) (tlb_pg_inc pd up) n32 K 0 0 (up_vaddr up) [] =
      Inr ([] @ unmap_batch pd up hpid)"
    unfolding unmap_batch_def Let_def
    using un nK inc0 by (intro fill_loop_exact) (simp_all add: inc_def K_def n_def)
  have runs: "inval_runs n32 (tlb_pg_inc pd up) hpid 0 (up_vaddr up) = Some (inval_batch pd up hpid)"
    unfolding inval_batch_def Let_def
    using un nK inc0 inval_runs_exact [of n32 0 K "tlb_pg_inc pd up" hpid "up_vaddr up"]
    by (simp add: inc_def K_def n_def)
  have fin: "\<exists>c\<in>set (inval_batch pd up hpid). case c of Invalidate _ _ _ f \<Rightarrow> f | _ \<Rightarrow> False"
    using K0 by (auto simp: inval_batch_def Let_def K_def n_def inc_def intro!: bexI [of _ "K - 1"])
  have allinv: "\<forall>c\<in>set (inval_batch pd up hpid). \<exists>v n h f. c = Invalidate v n h f"
    by (auto simp: inval_batch_def Let_def)
  have tk: "take (unat (map_pages_of pd (up_huge up) n32)) (unmap_batch pd up hpid) = unmap_batch pd up hpid"
    using nmp by (simp add: unmap_batch_def Let_def K_def n_def inc_def)
  show ?thesis
    using slots loop runs fold_device_step_inval [OF allinv] fin tk
    by (simp add: tlb_unmap_gup_def Let_def n32_def [symmetric] wait_invldt_done_def)
qed

lemma inval_runs_only_inval:
  assumes "inval_runs n inc hpid i v = Some cmds"
  shows "\<forall>c\<in>set cmds. \<exists>a b h f. c = Invalidate a b h f"
proof (rule inval_runs.raw_induct [where P = "\<lambda>_ _ _ _ _ cmds. \<forall>c\<in>set cmds. \<exists>a b h f. c = Invalidate a b h f"])
  fix f n' inc' hpid' i' v' cmds'
  assume IH: "\<And>a b c d e y. f a b c d e = Some y \<Longrightarrow> \<forall>c\<in>set y. \<exists>a b h f. c = Invalidate a b h f"
    and eq: "(if i' < n'
              then Option.bind (f n' inc' hpid' (i' + inc') (v' + ucast inc'))
                (\<lambda>rest. Some (Invalidate v' (ucast inc') hpid' (i' = n' - inc') # rest))
              else Some []) = Some cmds'"
  show "\<forall>c\<in>set cmds'. \<exists>a b h f. c = Invalidate a b h f"
  proof (cases "i' < n'")
    case True
    with eq obtain rest where "f n' inc' hpid' (i' + inc') (v' + ucast inc') = Some rest"
      and "cmds' = Invalidate v' (ucast inc') hpid' (i' = n' - inc') # rest"
      by (auto simp: bind_eq_Some_conv)
    with IH show ?thesis by fastforce
  next
    case False
    with eq show ?thesis by simp
  qed
next
  show "inval_runs n inc hpid i v = Some cmds" by (rule assms)
qed

lemma tlb_only_device_tlb: "tlb_only s (device_step (Tlb_service huge ds) s)"
  by (simp add: tlb_only_def)

lemma tlb_only_trans: "tlb_only s s1 \<Longrightarrow> tlb_only s1 s2 \<Longrightarrow> tlb_only s s2"
  unfolding tlb_only_def by (cases s, cases s1, cases s2) simp

lemma tlb_map_gup_only: "tlb_map_gup pd pfa up hpid s = Inr s' \<Longrightarrow> tlb_only s s'"
  by (auto simp: tlb_map_gup_def Let_def obind_eq_Inr tlb_only_def)

lemma tlb_unmap_gup_only: "tlb_unmap_gup pd up hpid s = Inr s' \<Longrightarrow> tlb_only s s'"
proof -
  assume r: "tlb_unmap_gup pd up hpid s = Inr s'"
  then obtain ds cmds where
    runs: "inval_runs (ucast (up_n_pages up)) (tlb_pg_inc pd up) hpid 0 (up_vaddr up) = Some cmds" and
    w: "wait_invldt_done (fold device_step cmds (device_step (Tlb_service (up_huge up) ds) s)) = Inr s'"
    by (auto simp: tlb_unmap_gup_def Let_def obind_eq_Inr split: option.splits)
  have "fold device_step cmds (device_step (Tlb_service (up_huge up) ds) s) =
      (device_step (Tlb_service (up_huge up) ds) s)\<lparr>hw_trace := hw_trace s @ [Tlb_service (up_huge up) ds] @ cmds,
        wait_invldt := wait_invldt s \<or> (\<exists>c\<in>set cmds. case c of Invalidate _ _ _ f \<Rightarrow> f | _ \<Rightarrow> False)\<rparr>"
    using fold_device_step_inval [OF inval_runs_only_inval [OF runs]] by simp
  then show ?thesis
    using w unfolding wait_invldt_done_def tlb_only_def by (simp split: if_splits) (cases s; auto)
qed

text \<open>
  C9. TLB Programmer, map: for a sub-range of a well-formed region whose page count is a
  whole number of device pages, within the batch limit, \<open>tlb_map_gup\<close> submits exactly
  the batch of the specification: the \<open>k\<close>-th entry pairs virtual page
  \<open>start + k * pg_inc\<close> with the backing address (host or card, by residency) of the same
  page of the region, and nothing else changes.
\<close>

theorem tlb_map_gup_batch:
  assumes pd: "pd_wf pd" and wf: "entry_wf up"
    and sub: "page_range (pfa_vaddr pfa) (pfa_n_pages pfa) \<subseteq> region_range up"
    and n0: "0 < pfa_n_pages pfa" and small: "unat (pfa_n_pages pfa) < 2 ^ 31"
    and mult: "unat (pfa_n_pages pfa) mod unat (tlb_pg_inc pd up) = 0"
    and cap: "unat (pfa_n_pages pfa) div unat (tlb_pg_inc pd up) \<le> max_n_map_pages pd"
    and cp: "up_host up \<or> up_cpages up \<noteq> None"
  shows "tlb_map_gup pd pfa up hpid s =
    Inr (device_step (Tlb_service (up_huge up) (map_batch pd pfa up hpid)) s)"
  by (rule tlb_map_gup_eq [OF assms])

text \<open>
  C32. TLB Programmer, batch limit: when a base-page request has more pages than
  \<open>MAX_N_MAP_PAGES\<close>, \<open>tlb_map_gup\<close> caps the array it allocates but not the fill loop,
  and writes past the end of the array.
\<close>

theorem tlb_map_gup_overflow:
  assumes wf: "entry_wf up" and base: "\<not> up_huge up" and cp: "up_host up \<or> up_cpages up \<noteq> None"
    and sub: "page_range (pfa_vaddr pfa) (pfa_n_pages pfa) \<subseteq> region_range up"
    and small: "unat (pfa_n_pages pfa) < 2 ^ 31"
    and cap0: "0 < max_n_map_pages pd" and cap: "max_n_map_pages pd < unat (pfa_n_pages pfa)"
  shows "tlb_map_gup pd pfa up hpid s = Inl Oob_write"
proof -
  define n32 where "n32 = (ucast (pfa_n_pages pfa) :: 32 word)"
  define M where "M = max_n_map_pages pd"
  have n0: "0 < pfa_n_pages pfa" using cap by (simp add: word_less_nat_alt)
  have un: "unat n32 = unat (pfa_n_pages pfa)" using small by (simp add: n32_def unat_ucast_small)
  have inc: "tlb_pg_inc pd up = 1" using base by (simp add: tlb_pg_inc_def)
  have uM: "unat (word_of_nat M :: 32 word) = M"
    using cap small by (subst unat_of_nat) (simp add: M_def)
  have slots: "map_array_slots (word_of_nat M) = Inr M"
    using map_array_slots_ok [of "word_of_nat M :: 32 word"] uM cap0 cap small by (simp add: M_def)
  have loop: "fill_loop (map_entry up hpid (pfa_vaddr pfa - up_vaddr up)) 1 n32 M 0 0 (pfa_vaddr pfa) [] =
      Inl Oob_write"
  proof (rule fill_loop_overflow)
    show "unat 0 + M * unat (1 :: 32 word) < unat n32" using cap un by (simp add: M_def)
    show "0 + M = M" by simp
    show "\<forall>k\<le>M. \<exists>d. map_entry up hpid (pfa_vaddr pfa - up_vaddr up) (0 + word_of_nat (k * unat (1 :: 32 word)))
        (pfa_vaddr pfa + word_of_nat (k * unat (1 :: 32 word))) = Inr d"
      using map_entry_ok [OF wf cp sub n0 small] cap by (simp add: M_def)
  qed
  show ?thesis
    using slots loop cap un inc base
    by (simp add: tlb_map_gup_def Let_def map_pages_of_def n32_def [symmetric] M_def [symmetric])
qed

text \<open>
  C10. TLB Programmer, unmap: for a region whose page count is a whole number of device
  pages, \<open>tlb_unmap_gup\<close> returns: it removes the translation of every device page of
  the region, submits the unmapping batch and then one invalidation per run with only the
  last one marked, and leaves the completion flag clear.
\<close>

theorem tlb_unmap_gup_runs:
  assumes pd: "pd_wf pd" and n0: "0 < up_n_pages up" and small: "unat (up_n_pages up) < 2 ^ 31"
    and mult: "unat (up_n_pages up) mod unat (tlb_pg_inc pd up) = 0"
  shows "tlb_unmap_gup pd up hpid s =
    Inr (s\<lparr>dev_tlb := fold (tlb_apply (up_huge up)) (unmap_batch pd up hpid) (dev_tlb s),
           hw_trace := hw_trace s @ Tlb_service (up_huge up) (unmap_batch pd up hpid) # inval_batch pd up hpid,
           wait_invldt := False\<rparr>)"
  by (rule tlb_unmap_gup_eq [OF assms])

text \<open>
  C33. TLB Programmer, ragged huge region: when a huge-page region's page count is not a
  multiple of the huge-page size, \<open>tlb_unmap_gup\<close> never completes: with fewer pages than
  one huge page the zero-sized array stops the kernel in \<open>BUG_ON\<close>, otherwise the fill
  loop writes one entry past the array, which holds only the whole huge pages.
\<close>

theorem tlb_unmap_gup_ragged:
  assumes pd: "pd_wf pd" and huge: "up_huge up" and small: "unat (up_n_pages up) < 2 ^ 31"
    and rag: "unat (up_n_pages up) mod 2 ^ dif_order_page_shift pd \<noteq> 0"
  shows "tlb_unmap_gup pd up hpid s =
    Inl (if unat (up_n_pages up) < 2 ^ dif_order_page_shift pd then Bug_on else Oob_write)"
proof -
  define inc where "inc = unat (tlb_pg_inc pd up)"
  define n where "n = unat (up_n_pages up)"
  define K where "K = n div inc"
  define n32 where "n32 = (ucast (up_n_pages up) :: 32 word)"
  have inc: "inc = 2 ^ dif_order_page_shift pd" using pd huge by (simp add: inc_def tlb_pg_inc_unat)
  have un: "unat n32 = n" using small by (simp add: n32_def n_def unat_ucast_small)
  have nmp: "unat (map_pages_of pd (up_huge up) n32) = K"
    using pd un by (simp add: map_pages_of_unat K_def inc_def)
  have Kn: "K * inc < n" using rag div_mult_mod_eq [of n inc] by (simp add: K_def n_def inc)
  show ?thesis
  proof (cases "K = 0")
    case True
    then have "map_array_slots (map_pages_of pd (up_huge up) n32) = Inl Bug_on"
      using nmp by (simp add: map_array_slots_def Let_def unat_eq_zero)
    moreover have "n < 2 ^ dif_order_page_shift pd" using True inc
      by (simp add: K_def div_eq_0_iff)
    ultimately show ?thesis by (simp add: tlb_unmap_gup_def Let_def n32_def [symmetric] n_def)
  next
    case False
    have "K \<le> n" by (simp add: K_def)
    then have slots: "map_array_slots (map_pages_of pd (up_huge up) n32) = Inr K"
      using map_array_slots_ok [of "map_pages_of pd (up_huge up) n32"] nmp False small
      by (simp add: n_def)
    have loop: "fill_loop (\<lambda>_ v. Inr (Unmap_desc v hpid)) (tlb_pg_inc pd up) n32 K 0 0 (up_vaddr up) [] =
        Inl Oob_write"
      using Kn un by (intro fill_loop_overflow) (simp_all add: inc_def)
    have "\<not> n < 2 ^ dif_order_page_shift pd" using False inc by (simp add: K_def div_eq_0_iff)
    then show ?thesis
      using slots loop by (simp add: tlb_unmap_gup_def Let_def n32_def [symmetric] n_def)
  qed
qed

lemma tlb_only_frame:
  "tlb_only s s' \<Longrightarrow> user_buff_map s' = user_buff_map s \<and> hmem s' = hmem s \<and> cmem s' = cmem s \<and>
     offload_lock s' = offload_lock s \<and> sync_lock s' = sync_lock s \<and> wait_offload s' = wait_offload s \<and>
     wait_sync s' = wait_sync s \<and> pid_array s' = pid_array s \<and> page_refs s' = page_refs s \<and>
     card_pool s' = card_pool s"
  unfolding tlb_only_def by (cases s, cases s') simp

lemma tlb_map_gup_empty: "pfa_n_pages pfa = 0 \<Longrightarrow> tlb_map_gup pd pfa up hpid s = Inl Bug_on"
  by (simp add: tlb_map_gup_def Let_def map_pages_of_def map_array_slots_def)

lemma tlb_pg_inc_host [simp]: "tlb_pg_inc pd (e\<lparr>up_host := h\<rparr>) = tlb_pg_inc pd e"
  by (simp add: tlb_pg_inc_def)

section \<open>Witnesses\<close>

theorem tlb_map_gup_batch_witness:
  "tlb_map_gup ex_pd (ex_fault 101 2) ex_host_region 7 ex_state =
     Inr (device_step (Tlb_service False (map_batch ex_pd (ex_fault 101 2) ex_host_region 7)) ex_state) \<and>
   map_batch ex_pd (ex_fault 101 2) ex_host_region 7 = [Map_desc 101 0x2000 True 0 7, Map_desc 102 0x3000 True 0 7]"
proof
  have sub: "page_range (pfa_vaddr (ex_fault 101 2)) (pfa_n_pages (ex_fault 101 2)) \<subseteq> region_range ex_host_region"
    by (simp add: page_range_def region_range_def ex_fault_def ex_host_region_def ex_region_def)
  have "pd_wf ex_pd" "entry_wf ex_host_region" "0 < pfa_n_pages (ex_fault 101 2)"
    "unat (pfa_n_pages (ex_fault 101 2)) < 2 ^ 31"
    "unat (pfa_n_pages (ex_fault 101 2)) mod unat (tlb_pg_inc ex_pd ex_host_region) = 0"
    "unat (pfa_n_pages (ex_fault 101 2)) div unat (tlb_pg_inc ex_pd ex_host_region) \<le> max_n_map_pages ex_pd"
    "up_host ex_host_region \<or> up_cpages ex_host_region \<noteq> None"
    by (simp_all add: ex_pd_def pd_wf_def ex_fault_def ex_host_region_def ex_region_def entry_wf_def no_wrap_def tlb_pg_inc_def)
  then show "tlb_map_gup ex_pd (ex_fault 101 2) ex_host_region 7 ex_state =
     Inr (device_step (Tlb_service False (map_batch ex_pd (ex_fault 101 2) ex_host_region 7)) ex_state)"
    using tlb_map_gup_batch [of ex_pd ex_host_region "ex_fault 101 2" 7 ex_state] sub
    by (simp add: ex_host_region_def ex_region_def)
  show "map_batch ex_pd (ex_fault 101 2) ex_host_region 7 = [Map_desc 101 0x2000 True 0 7, Map_desc 102 0x3000 True 0 7]"
    by (simp add: map_batch_def ex_fault_def tlb_pg_inc_def ex_host_region_def ex_region_def backing_list_def upt_rec)
qed

theorem tlb_map_gup_overflow_witness:
  "tlb_map_gup ex_pd (ex_fault 100 20) (ex_region 100 20) 7 ex_state = Inl Oob_write"
proof -
  have sub: "page_range (pfa_vaddr (ex_fault 100 20)) (pfa_n_pages (ex_fault 100 20)) \<subseteq> region_range (ex_region 100 20)"
    by (simp add: page_range_def region_range_def ex_fault_def ex_region_def)
  have "entry_wf (ex_region 100 20)" "\<not> up_huge (ex_region 100 20)"
    "up_host (ex_region 100 20) \<or> up_cpages (ex_region 100 20) \<noteq> None"
    "unat (pfa_n_pages (ex_fault 100 20)) < 2 ^ 31" "0 < max_n_map_pages ex_pd"
    "max_n_map_pages ex_pd < unat (pfa_n_pages (ex_fault 100 20))"
    by (simp_all add: ex_pd_def pd_wf_def ex_fault_def ex_host_region_def ex_region_def entry_wf_def no_wrap_def tlb_pg_inc_def)
  then show ?thesis
    using tlb_map_gup_overflow [of "ex_region 100 20" "ex_fault 100 20" ex_pd 7 ex_state] sub by blast
qed

theorem tlb_unmap_gup_runs_witness:
  "tlb_unmap_gup ex_pd (ex_region 100 2) 7 ex_state =
    Inr (ex_state\<lparr>dev_tlb := fold (tlb_apply False) (unmap_batch ex_pd (ex_region 100 2) 7) (dev_tlb ex_state),
           hw_trace := hw_trace ex_state @ Tlb_service False (unmap_batch ex_pd (ex_region 100 2) 7) #
             inval_batch ex_pd (ex_region 100 2) 7,
           wait_invldt := False\<rparr>) \<and>
   unmap_batch ex_pd (ex_region 100 2) 7 = [Unmap_desc 100 7, Unmap_desc 101 7] \<and>
   inval_batch ex_pd (ex_region 100 2) 7 = [Invalidate 100 1 7 False, Invalidate 101 1 7 True]"
proof (intro conjI)
  have "pd_wf ex_pd" "0 < up_n_pages (ex_region 100 2)" "unat (up_n_pages (ex_region 100 2)) < 2 ^ 31"
    "unat (up_n_pages (ex_region 100 2)) mod unat (tlb_pg_inc ex_pd (ex_region 100 2)) = 0"
    by (simp_all add: ex_pd_def pd_wf_def ex_fault_def ex_host_region_def ex_region_def entry_wf_def no_wrap_def tlb_pg_inc_def)
  then show "tlb_unmap_gup ex_pd (ex_region 100 2) 7 ex_state =
    Inr (ex_state\<lparr>dev_tlb := fold (tlb_apply False) (unmap_batch ex_pd (ex_region 100 2) 7) (dev_tlb ex_state),
           hw_trace := hw_trace ex_state @ Tlb_service False (unmap_batch ex_pd (ex_region 100 2) 7) #
             inval_batch ex_pd (ex_region 100 2) 7,
           wait_invldt := False\<rparr>)"
    using tlb_unmap_gup_runs [of ex_pd "ex_region 100 2" 7 ex_state] by (simp add: ex_region_def)
  show "unmap_batch ex_pd (ex_region 100 2) 7 = [Unmap_desc 100 7, Unmap_desc 101 7]"
    by (simp add: unmap_batch_def tlb_pg_inc_def ex_region_def upt_rec)
  show "inval_batch ex_pd (ex_region 100 2) 7 = [Invalidate 100 1 7 False, Invalidate 101 1 7 True]"
    by (simp add: inval_batch_def tlb_pg_inc_def ex_region_def upt_rec)
qed

theorem tlb_unmap_gup_ragged_witness:
  "tlb_unmap_gup ex_pd ((ex_region 512 600)\<lparr>up_huge := True\<rparr>) 7 ex_state = Inl Oob_write"
proof -
  have "pd_wf ex_pd" "up_huge ((ex_region 512 600)\<lparr>up_huge := True\<rparr>)"
    "unat (up_n_pages ((ex_region 512 600)\<lparr>up_huge := True\<rparr>)) < 2 ^ 31"
    "unat (up_n_pages ((ex_region 512 600)\<lparr>up_huge := True\<rparr>)) mod 2 ^ dif_order_page_shift ex_pd \<noteq> 0"
    "\<not> unat (up_n_pages ((ex_region 512 600)\<lparr>up_huge := True\<rparr>)) < 2 ^ dif_order_page_shift ex_pd"
    by (simp_all add: pd_wf_def ex_pd_def ex_region_def)
  then show ?thesis
    using tlb_unmap_gup_ragged [of ex_pd "(ex_region 512 600)\<lparr>up_huge := True\<rparr>" 7 ex_state] by simp
qed

subsection \<open>Termination of the invalidation loop\<close>

lemma inval_runs_some:
  assumes "0 < inc" "unat n + unat inc \<le> 2 ^ 32"
  shows "\<exists>cmds. inval_runs n inc hpid i v = Some cmds"
  using assms
proof (induction "unat n - unat i" arbitrary: i v rule: less_induct)
  case less
  show ?case
  proof (cases "i < n")
    case True
    have lt: "unat i < unat n" using True by (simp add: word_less_nat_alt)
    have "unat i + unat inc < 2 ^ 32" using lt less.prems(2) by linarith
    then have ui: "unat (i + inc) = unat i + unat inc" by (simp add: unat_add_lem [THEN iffD1])
    have "0 < unat inc" using less.prems(1) by (simp add: word_less_nat_alt)
    then have "unat n - unat (i + inc) < unat n - unat i"
      using ui lt by linarith
    then obtain rest where "inval_runs n inc hpid (i + inc) (v + ucast inc) = Some rest"
      using less.hyps less.prems by blast
    then show ?thesis using True by (subst inval_runs.simps) simp
  next
    case False
    then show ?thesis by (subst inval_runs.simps) simp
  qed
qed

text \<open>
  C26. The invalidation loop of \<open>tlb_unmap_gup\<close> (lines 256-260) terminates from any start
  when \<open>pg_inc\<close> is positive and \<open>n_pages + pg_inc\<close> does not wrap in 32 bits: the counter
  then grows strictly until it reaches \<open>n_pages\<close>.
\<close>

theorem inval_runs_terminates:
  assumes "0 < inc" "unat n + unat inc \<le> 2 ^ 32"
  shows "\<exists>cmds. inval_runs n inc hpid i v = Some cmds"
  by (rule inval_runs_some [OF assms])

theorem inval_runs_terminates_witness:
  "(0 :: 32 word) < 1 \<and> unat (3 :: 32 word) + unat (1 :: 32 word) \<le> 2 ^ 32 \<and>
   (\<exists>cmds. inval_runs 3 1 42 0 100 = Some cmds)"
  using inval_runs_terminates [of 1 3 42 0 100] by simp

end
