(* ===== verification/Migration.thy ===== *)
theory Migration
  imports Device
begin

text \<open>
  The Migration Engine of \<open>fpga_gup.c\<close>: \<open>migrate_to_card_gup\<close> (lines 275-289) and
  \<open>migrate_to_host_gup\<close> (lines 335-349). Each takes its own per-device mutex, starts one
  bulk copy of the region's pages between the host frames \<open>hpages\<close> and the card pages
  \<open>cpages\<close>, blocks until the device raises the copy's completion flag, clears it and
  releases the mutex. The copy reads the first \<open>n_pages\<close> entries of both arrays; a region
  without card pages passes NULL.
\<close>

section \<open>Definitions\<close>

text \<open>
  The arrays \<open>dma_offload_start\<close> and \<open>dma_sync_start\<close> read: the first \<open>n_pages\<close> host
  addresses and card addresses of the region.
\<close>

definition dma_args :: "user_pages \<Rightarrow> (u64 list \<times> u64 list) outcome" where
  "dma_args up =
     (case up_cpages up of
        None \<Rightarrow> Inl Null_deref
      | Some cs \<Rightarrow>
          (let n = unat (up_n_pages up)
           in if n \<le> length (up_hpages up) \<and> n \<le> length cs
              then Inr (take n (up_hpages up), take n cs) else Inl Oob_read))"

text \<open>\<open>mutex_lock\<close> on a mutex no other caller holds; a held one blocks.\<close>

definition lock_offload :: "gup_state \<Rightarrow> gup_state outcome" where
  "lock_offload s = (if offload_lock s then Inl Blocked else Inr (s\<lparr>offload_lock := True\<rparr>))"

definition lock_sync :: "gup_state \<Rightarrow> gup_state outcome" where
  "lock_sync s = (if sync_lock s then Inl Blocked else Inr (s\<lparr>sync_lock := True\<rparr>))"

text \<open>
  \<open>wait_event_interruptible(.., atomic_read(&d->wait_offload) == FLAG_SET)\<close>, the
  \<open>atomic_set(.., FLAG_CLR)\<close> after it and the \<open>mutex_unlock\<close> (lines 284-288).
\<close>

definition wait_offload_done :: "gup_state \<Rightarrow> gup_state outcome" where
  "wait_offload_done s =
     (if wait_offload s then Inr (s\<lparr>wait_offload := False, offload_lock := False\<rparr>) else Inl Blocked)"

text \<open>The same for the sync (lines 344-348).\<close>

definition wait_sync_done :: "gup_state \<Rightarrow> gup_state outcome" where
  "wait_sync_done s =
     (if wait_sync s then Inr (s\<lparr>wait_sync := False, sync_lock := False\<rparr>) else Inl Blocked)"

text \<open>\<open>migrate_to_card_gup(d, user_pg)\<close>.\<close>

definition migrate_to_card_gup :: "user_pages \<Rightarrow> gup_state \<Rightarrow> gup_state outcome" where
  "migrate_to_card_gup up s =
     obind (lock_offload s) (\<lambda>s1.
     obind (dma_args up) (\<lambda>(hs, cs).
       wait_offload_done (device_step (Offload_start hs cs (up_n_pages up) (up_huge up)) s1)))"

text \<open>\<open>migrate_to_host_gup(d, user_pg)\<close>.\<close>

definition migrate_to_host_gup :: "user_pages \<Rightarrow> gup_state \<Rightarrow> gup_state outcome" where
  "migrate_to_host_gup up s =
     obind (lock_sync s) (\<lambda>s1.
     obind (dma_args up) (\<lambda>(hs, cs).
       wait_sync_done (device_step (Sync_start hs cs (up_n_pages up) (up_huge up)) s1)))"

text \<open>
  A region whose card pages are distinct, one per page: what \<open>card_alloc\<close> hands out
  from a pool without duplicates.
\<close>

definition card_backed :: "user_pages \<Rightarrow> bool" where
  "card_backed up \<longleftrightarrow>
     (case up_cpages up of None \<Rightarrow> False
      | Some cs \<Rightarrow> distinct cs \<and> length cs = unat (up_n_pages up) \<and>
                   length (up_hpages up) = unat (up_n_pages up))"

subsection \<open>Fixture\<close>

text \<open>The region of pages 100-102 with three host frames and three distinct card pages.\<close>

definition ex_card_region :: user_pages where
  "ex_card_region = (ex_region 100 3)\<lparr>up_hpages := [0x1000, 0x2000, 0x3000],
     up_cpages := Some [0x80000, 0x81000, 0x82000]\<rparr>"

section \<open>Lemmas\<close>

lemma copy_pages_other:
  "b \<notin> set to \<Longrightarrow> copy_pages src from dst to b = dst b"
proof (induction to arbitrary: "from" dst)
  case Nil
  then show ?case by (simp add: copy_pages_def)
next
  case (Cons t ts)
  then show ?case by (cases "from") (auto simp: copy_pages_def)
qed

lemma copy_pages_at:
  "distinct to \<Longrightarrow> k < length to \<Longrightarrow> k < length from \<Longrightarrow>
   copy_pages src from dst to (to ! k) = src (from ! k)"
proof (induction to arbitrary: "from" dst k)
  case Nil
  then show ?case by simp
next
  case (Cons t ts)
  then obtain f fs where fr: "from = f # fs" by (cases "from") auto
  have step: "copy_pages src (f # fs) dst (t # ts) = copy_pages src fs (dst(t := src f)) ts"
    by (simp add: copy_pages_def)
  show ?case
  proof (cases k)
    case 0
    then show ?thesis using Cons.prems fr step copy_pages_other [of t ts] by simp
  next
    case (Suc k')
    then show ?thesis using Cons fr step by simp
  qed
qed

lemma copy_pages_fixed:
  "\<forall>(a, b)\<in>set (zip from to). src a = dst b \<Longrightarrow> copy_pages src from dst to = dst"
proof (induction "from" arbitrary: to)
  case Nil
  then show ?case by (simp add: copy_pages_def)
next
  case (Cons f fs)
  then show ?case
    by (cases to) (auto simp: copy_pages_def fun_upd_idem)
qed

lemma copy_pages_roundtrip:
  assumes "distinct cs" "length hs = length cs"
  shows "copy_pages (copy_pages h hs c cs) cs h hs = h"
proof (rule copy_pages_fixed)
  show "\<forall>(a, b)\<in>set (zip cs hs). copy_pages h hs c cs a = h b"
  proof
    fix p assume "p \<in> set (zip cs hs)"
    then obtain k where k: "k < length cs" "p = (cs ! k, hs ! k)"
      using assms(2) by (auto simp: in_set_zip)
    then show "case p of (a, b) \<Rightarrow> copy_pages h hs c cs a = h b"
      using copy_pages_at [OF assms(1)] assms(2) by simp
  qed
qed

lemma dma_args_ok:
  "card_backed up \<Longrightarrow> \<exists>cs. up_cpages up = Some cs \<and> dma_args up = Inr (up_hpages up, cs)"
  by (auto simp: card_backed_def dma_args_def split: option.splits)

lemma migrate_to_card_eq:
  assumes "card_backed up" "up_cpages up = Some cs" "\<not> offload_lock s"
  shows "migrate_to_card_gup up s =
    Inr (s\<lparr>cmem := copy_pages (hmem s) (up_hpages up) (cmem s) cs,
           hw_trace := hw_trace s @ [Offload_start (up_hpages up) cs (up_n_pages up) (up_huge up)],
           wait_offload := False, offload_lock := False\<rparr>)"
  using assms dma_args_ok [OF assms(1)]
  by (auto simp: migrate_to_card_gup_def lock_offload_def wait_offload_done_def)

lemma migrate_to_host_eq:
  assumes "card_backed up" "up_cpages up = Some cs" "\<not> sync_lock s"
  shows "migrate_to_host_gup up s =
    Inr (s\<lparr>hmem := copy_pages (cmem s) cs (hmem s) (up_hpages up),
           hw_trace := hw_trace s @ [Sync_start (up_hpages up) cs (up_n_pages up) (up_huge up)],
           wait_sync := False, sync_lock := False\<rparr>)"
  using assms dma_args_ok [OF assms(1)]
  by (auto simp: migrate_to_host_gup_def lock_sync_def wait_sync_done_def)

lemma migrate_to_card_tables:
  "migrate_to_card_gup up s = Inr s' \<Longrightarrow> user_buff_map s' = user_buff_map s \<and> pid_array s' = pid_array s"
  by (auto simp: migrate_to_card_gup_def lock_offload_def wait_offload_done_def obind_eq_Inr split: if_splits)

lemma migrate_to_host_tables:
  "migrate_to_host_gup up s = Inr s' \<Longrightarrow> user_buff_map s' = user_buff_map s \<and> pid_array s' = pid_array s"
  by (auto simp: migrate_to_host_gup_def lock_sync_def wait_sync_done_def obind_eq_Inr split: if_splits)

text \<open>
  C11. Migration Engine, round trip: for a region with distinct card pages, one per page,
  and both migration mutexes free, an offload followed by a sync both return, and the host
  memory ends exactly as it was: every host page holds its value from before the offload.
  Both mutexes and both completion flags end clear.
\<close>

theorem migrate_roundtrip:
  assumes cb: "card_backed up" and l1: "\<not> offload_lock s" and l2: "\<not> sync_lock s"
  shows "\<exists>s1 s2. migrate_to_card_gup up s = Inr s1 \<and> migrate_to_host_gup up s1 = Inr s2 \<and>
    hmem s2 = hmem s \<and> \<not> offload_lock s2 \<and> \<not> sync_lock s2 \<and> \<not> wait_offload s2 \<and> \<not> wait_sync s2"
proof -
  obtain cs where cs: "up_cpages up = Some cs" and da: "dma_args up = Inr (up_hpages up, cs)"
    using dma_args_ok [OF cb] by blast
  have d: "distinct cs" and len: "length (up_hpages up) = length cs"
    using cb cs by (auto simp: card_backed_def)
  show ?thesis
    using da l1 l2 copy_pages_roundtrip [OF d len]
    by (simp add: migrate_to_card_gup_def migrate_to_host_gup_def lock_offload_def lock_sync_def
        wait_offload_done_def wait_sync_done_def)
qed

text \<open>
  C12. Migration Engine, offload: \<open>migrate_to_card_gup\<close> on a region with distinct card
  pages returns with each card page holding the value of the matching host page, host
  memory, the region tables and the device TLB unchanged, and the mutex and flag clear.
\<close>

theorem migrate_to_card_copies:
  assumes cb: "card_backed up" and l1: "\<not> offload_lock s"
  shows "\<exists>s1 cs. migrate_to_card_gup up s = Inr s1 \<and> up_cpages up = Some cs \<and>
    (\<forall>k < unat (up_n_pages up). cmem s1 (cs ! k) = hmem s (up_hpages up ! k)) \<and>
    hmem s1 = hmem s \<and> user_buff_map s1 = user_buff_map s \<and> dev_tlb s1 = dev_tlb s \<and>
    \<not> offload_lock s1 \<and> \<not> wait_offload s1"
proof -
  obtain cs where cs: "up_cpages up = Some cs" and da: "dma_args up = Inr (up_hpages up, cs)"
    using dma_args_ok [OF cb] by blast
  have d: "distinct cs" and len: "length cs = unat (up_n_pages up)" "length (up_hpages up) = unat (up_n_pages up)"
    using cb cs by (auto simp: card_backed_def)
  have "\<forall>k < unat (up_n_pages up). copy_pages (hmem s) (up_hpages up) (cmem s) cs (cs ! k) = hmem s (up_hpages up ! k)"
    using copy_pages_at [OF d] len by simp
  then show ?thesis
    using da l1 cs
    by (simp add: migrate_to_card_gup_def lock_offload_def wait_offload_done_def)
qed

lemma card_backed_host [simp]: "card_backed (e\<lparr>up_host := h\<rparr>) = card_backed e"
  by (simp add: card_backed_def split: option.splits)

section \<open>Witnesses\<close>

theorem migrate_roundtrip_witness:
  "card_backed ex_card_region \<and>
   (\<exists>s1 s2. migrate_to_card_gup ex_card_region ex_state = Inr s1 \<and>
      migrate_to_host_gup ex_card_region s1 = Inr s2 \<and> hmem s2 = hmem ex_state \<and>
      \<not> offload_lock s2 \<and> \<not> sync_lock s2 \<and> \<not> wait_offload s2 \<and> \<not> wait_sync s2)"
proof
  show cb: "card_backed ex_card_region"
    by (simp add: card_backed_def ex_card_region_def ex_region_def)
  have "\<not> offload_lock ex_state" "\<not> sync_lock ex_state" by (simp_all add: ex_state_def)
  then show "\<exists>s1 s2. migrate_to_card_gup ex_card_region ex_state = Inr s1 \<and>
      migrate_to_host_gup ex_card_region s1 = Inr s2 \<and> hmem s2 = hmem ex_state \<and>
      \<not> offload_lock s2 \<and> \<not> sync_lock s2 \<and> \<not> wait_offload s2 \<and> \<not> wait_sync s2"
    using migrate_roundtrip [OF cb] by blast
qed

theorem migrate_to_card_copies_witness:
  "\<exists>s1. migrate_to_card_gup ex_card_region ex_state = Inr s1 \<and>
     cmem s1 0x81000 = 0x2000 \<and> hmem s1 = hmem ex_state"
proof -
  have cb: "card_backed ex_card_region"
    by (simp add: card_backed_def ex_card_region_def ex_region_def)
  have "\<not> offload_lock ex_state" by (simp add: ex_state_def)
  from migrate_to_card_copies [OF cb this] obtain s1 cs where
    r: "migrate_to_card_gup ex_card_region ex_state = Inr s1" and cs: "up_cpages ex_card_region = Some cs"
    and cp: "\<forall>k < unat (up_n_pages ex_card_region). cmem s1 (cs ! k) = hmem ex_state (up_hpages ex_card_region ! k)"
    and h: "hmem s1 = hmem ex_state"
    by blast
  have "cmem s1 (cs ! 1) = hmem ex_state (up_hpages ex_card_region ! 1)"
    using cp by (simp add: ex_card_region_def ex_region_def)
  moreover have "cs = [0x80000, 0x81000, 0x82000]"
    using cs by (simp add: ex_card_region_def)
  ultimately have "cmem s1 0x81000 = 0x2000"
    by (simp add: ex_card_region_def ex_state_def)
  then show ?thesis using r h by blast
qed

end
