(* ===== verification/Fault_Handler.thy ===== *)
theory Fault_Handler
  imports Region_Lookup Page_Pinner TLB_Programmer Migration
begin

text \<open>
  The Fault Orchestrator of \<open>fpga_gup.c\<close>: the page-fault handler \<open>mmu_handler_gup\<close>
  (lines 51-136) and the two user-triggered migrations \<open>offload_user_gup\<close> (lines
  297-326) and \<open>sync_user_gup\<close> (lines 358-387). They compose the other components: the
  handler aligns the fault to a page order, looks it up with \<open>map_present\<close>, and either
  maps the hit (migrating it first when its residency differs from the access) or pins a
  new region with \<open>tlb_get_user_pages\<close> and maps it. The user-triggered migrations probe
  one hash bucket for a region containing the address and force unmap, flip, migrate and
  remap on it.
\<close>

unbundle bit_operations_syntax

section \<open>Definitions\<close>

text \<open>The access directions of the \<open>stream\<close> argument, a \<open>bool\<close>.\<close>

definition HOST_ACCESS :: bool where "HOST_ACCESS = True"
definition CARD_ACCESS :: bool where "CARD_ACCESS = False"

text \<open>
  Lines 69-84: the page order of the VMA holding \<open>vaddr\<close>, the first and last page of
  \<open>[vaddr, vaddr + len)\<close> in that order, and for a huge mapping the conversion of both to
  base pages. All arithmetic is on \<open>uint64_t\<close>.
\<close>

definition fault_desc :: "bus_drvdata \<Rightarrow> host_mm \<Rightarrow> u64 \<Rightarrow> u64 \<Rightarrow> nat \<Rightarrow> desc_aligned" where
  "fault_desc pd mm vaddr len cpid =
     (let huge = mm_huge mm vaddr;
          ord = (if huge then ltlb_order pd else stlb_order pd);
          first = drop_bit (page_shift ord) (vaddr AND page_mask ord);
          last = drop_bit (page_shift ord) ((vaddr + len - 1) AND page_mask ord);
          n = last - first + 1
      in if huge
         then \<lparr>pfa_vaddr = push_bit (dif_order_page_shift pd) first,
               pfa_n_pages = n * n_pages_in_huge pd, pfa_cpid = cpid, pfa_hugepages = True\<rparr>
         else \<lparr>pfa_vaddr = first, pfa_n_pages = n, pfa_cpid = cpid, pfa_hugepages = False\<rparr>)"

text \<open>A store \<open>user_pg->host = h\<close> through a pointer into the context's table.\<close>

definition set_host :: "nat \<Rightarrow> entry_pos \<Rightarrow> bool \<Rightarrow> gup_state \<Rightarrow> gup_state" where
  "set_host cpid p h s =
     s\<lparr>user_buff_map := (user_buff_map s)(cpid := update_entry (user_buff_map s cpid) p (\<lambda>e. e\<lparr>up_host := h\<rparr>))\<rparr>"

text \<open>
  The residency change the handler (lines 98-101 and 106-109) and the user-triggered
  migrations (lines 317-320 and 378-381) perform on the entry at \<open>p\<close>: unmap it, set
  \<open>host\<close> to the target, migrate it in that direction, and map \<open>pfa\<close>.
\<close>

definition remap_migrate ::
  "bus_drvdata \<Rightarrow> desc_aligned \<Rightarrow> nat \<Rightarrow> entry_pos \<Rightarrow> bool \<Rightarrow> int \<Rightarrow> gup_state \<Rightarrow> gup_state outcome" where
  "remap_migrate pd pfa cpid p h hpid s =
     obind (tlb_unmap_gup pd (entry_at (user_buff_map s cpid) p) hpid s) (\<lambda>s1.
       let s2 = set_host cpid p h s1; up = entry_at (user_buff_map s2 cpid) p
       in obind ((if h then migrate_to_host_gup else migrate_to_card_gup) up s2) (\<lambda>s3.
            tlb_map_gup pd pfa up hpid s3))"

text \<open>\<open>mmu_handler_gup(d, vaddr, len, cpid, stream, hpid)\<close> on the process \<open>mm\<close> of \<open>hpid\<close>.\<close>

definition mmu_handler_gup ::
  "bus_drvdata \<Rightarrow> host_mm \<Rightarrow> u64 \<Rightarrow> u64 \<Rightarrow> nat \<Rightarrow> bool \<Rightarrow> int \<Rightarrow> gup_state \<Rightarrow> (int \<times> gup_state) outcome" where
  "mmu_handler_gup pd mm vaddr len cpid stream hpid s =
     (case map_present (user_buff_map s cpid) (fault_desc pd mm vaddr len cpid) of
        (pfa, Some p) \<Rightarrow>
          (let up = entry_at (user_buff_map s cpid) p in
           if stream = HOST_ACCESS then
             (if up_host up then obind (tlb_map_gup pd pfa up hpid s) (\<lambda>s'. Inr (0, s'))
              else obind (remap_migrate pd pfa cpid p True hpid s) (\<lambda>s'. Inr (0, s')))
           else if stream = CARD_ACCESS then
             (if up_host up then obind (remap_migrate pd pfa cpid p False hpid s) (\<lambda>s'. Inr (0, s'))
              else obind (tlb_map_gup pd pfa up hpid s) (\<lambda>s'. Inr (0, s')))
           else Inr (- EINVAL, s))
      | (pfa, None) \<Rightarrow>
          obind (tlb_get_user_pages pd mm pfa s) (\<lambda>(r, s1).
            case r of
              None \<Rightarrow> Inr (- ENOMEM, s1)
            | Some p \<Rightarrow>
                if stream
                then obind (tlb_map_gup pd pfa (entry_at (user_buff_map s1 cpid) p) hpid s1) (\<lambda>s'. Inr (0, s'))
                else (let s2 = set_host cpid p False s1; up = entry_at (user_buff_map s2 cpid) p
                      in obind (migrate_to_card_gup up s2) (\<lambda>s3.
                           obind (tlb_map_gup pd pfa up hpid s3) (\<lambda>s'. Inr (0, s'))))))"

text \<open>Lines 311-314 and 372-375: the descriptor of a whole entry.\<close>

definition entry_desc :: "user_pages \<Rightarrow> nat \<Rightarrow> desc_aligned" where
  "entry_desc e cpid =
     \<lparr>pfa_vaddr = up_vaddr e, pfa_n_pages = up_n_pages e, pfa_cpid = cpid, pfa_hugepages = up_huge e\<rparr>"

text \<open>
  The loop \<open>hash_for_each_possible\<close> of \<open>offload_user_gup\<close> and \<open>sync_user_gup\<close> over
  bucket \<open>b\<close>, from entry \<open>i\<close>, with \<open>k\<close> entries left: every entry containing page
  \<open>v\<close> is moved to residency \<open>h\<close> and sets the result to 0.
\<close>

fun migrate_scan ::
  "bus_drvdata \<Rightarrow> nat \<Rightarrow> bool \<Rightarrow> int \<Rightarrow> u64 \<Rightarrow> nat \<Rightarrow> nat \<Rightarrow> nat \<Rightarrow> int \<Rightarrow> gup_state \<Rightarrow> (int \<times> gup_state) outcome" where
  "migrate_scan pd cpid h hpid v b i 0 ret s = Inr (ret, s)"
| "migrate_scan pd cpid h hpid v b i (Suc k) ret s =
     (let e = entry_at (user_buff_map s cpid) (b, i)
      in if v \<ge> up_vaddr e \<and> v < up_vaddr e + up_n_pages e
         then obind (remap_migrate pd (entry_desc e cpid) cpid (b, i) h hpid s) (\<lambda>s'.
                migrate_scan pd cpid h hpid v b (Suc i) k 0 s')
         else migrate_scan pd cpid h hpid v b (Suc i) k ret s)"

text \<open>Lines 306 and 367: the base page of \<open>vaddr\<close> and its bucket.\<close>

definition user_page :: "bus_drvdata \<Rightarrow> u64 \<Rightarrow> u64" where
  "user_page pd vaddr = drop_bit (page_shift (stlb_order pd)) (vaddr AND page_mask (stlb_order pd))"

definition user_migrate :: "bus_drvdata \<Rightarrow> bool \<Rightarrow> u64 \<Rightarrow> nat \<Rightarrow> gup_state \<Rightarrow> (int \<times> gup_state) outcome" where
  "user_migrate pd h vaddr cpid s =
     (let v = user_page pd vaddr; hpid = pid_array s cpid; b = hash_64 v (hash_order pd)
      in migrate_scan pd cpid h hpid v b 0 (length (user_buff_map s cpid ! b)) 1 s)"

text \<open>\<open>offload_user_gup(d, vaddr, cpid)\<close> and \<open>sync_user_gup(d, vaddr, cpid)\<close>.\<close>

definition offload_user_gup :: "bus_drvdata \<Rightarrow> u64 \<Rightarrow> nat \<Rightarrow> gup_state \<Rightarrow> (int \<times> gup_state) outcome" where
  "offload_user_gup pd vaddr cpid s = user_migrate pd False vaddr cpid s"

definition sync_user_gup :: "bus_drvdata \<Rightarrow> u64 \<Rightarrow> nat \<Rightarrow> gup_state \<Rightarrow> (int \<times> gup_state) outcome" where
  "sync_user_gup pd vaddr cpid s = user_migrate pd True vaddr cpid s"

subsection \<open>Fixture\<close>

text \<open>
  The state of the device after the region of pages 100-102 (host-resident, with card
  pages) was pinned for every context.
\<close>

definition ex_gup_state :: gup_state where
  "ex_gup_state = ex_state\<lparr>user_buff_map := (\<lambda>_. hash_add 1 (empty_table 1) ex_card_region 100)\<rparr>"

section \<open>Lemmas\<close>

lemma fault_desc_cpid [simp]: "pfa_cpid (fault_desc pd mm vaddr len cpid) = cpid"
  by (simp add: fault_desc_def Let_def)

lemma set_host_tables:
  "\<forall>c. table_inv bits (user_buff_map s c) \<Longrightarrow> \<forall>c. table_inv bits (user_buff_map (set_host cpid p h s) c)"
proof
  fix c assume inv: "\<forall>c. table_inv bits (user_buff_map s c)"
  have "table_inv bits (update_entry (user_buff_map s cpid) p (\<lambda>e. e\<lparr>up_host := h\<rparr>))"
    using inv by (intro table_inv_update_entry) (simp_all add: entry_wf_def split: option.splits)
  then show "table_inv bits (user_buff_map (set_host cpid p h s) c)"
    using inv by (simp add: set_host_def)
qed

lemma remap_migrate_tables:
  assumes r: "remap_migrate pd pfa cpid p h hpid s = Inr s'"
    and inv: "\<forall>c. table_inv bits (user_buff_map s c)"
  shows "\<forall>c. table_inv bits (user_buff_map s' c)"
proof -
  from r obtain s1 s3 where
    u: "tlb_unmap_gup pd (entry_at (user_buff_map s cpid) p) hpid s = Inr s1" and
    m: "(if h then migrate_to_host_gup else migrate_to_card_gup)
          (entry_at (user_buff_map (set_host cpid p h s1) cpid) p) (set_host cpid p h s1) = Inr s3" and
    t: "tlb_map_gup pd pfa (entry_at (user_buff_map (set_host cpid p h s1) cpid) p) hpid s3 = Inr s'"
    by (auto simp: remap_migrate_def Let_def obind_eq_Inr)
  have "user_buff_map s1 = user_buff_map s"
    using tlb_only_frame [OF tlb_unmap_gup_only [OF u]] by simp
  then have "\<forall>c. table_inv bits (user_buff_map (set_host cpid p h s1) c)"
    using inv set_host_tables [of bits s1] by simp
  moreover have "user_buff_map s3 = user_buff_map (set_host cpid p h s1)"
    using m migrate_to_card_tables migrate_to_host_tables by (auto split: if_splits)
  moreover have "user_buff_map s' = user_buff_map s3"
    using tlb_only_frame [OF tlb_map_gup_only [OF t]] by simp
  ultimately show ?thesis by simp
qed

lemma entry_at_set_host:
  "valid_pos (user_buff_map s cpid) p \<Longrightarrow>
   entry_at (user_buff_map (set_host cpid p h s) cpid) p = (entry_at (user_buff_map s cpid) p)\<lparr>up_host := h\<rparr>"
  by (simp add: set_host_def entry_at_update_same)

lemma remap_migrate_eq:
  assumes pd: "pd_wf pd" and vp: "valid_pos (user_buff_map s cpid) p"
    and e: "entry_at (user_buff_map s cpid) p = e" and wf: "entry_wf e"
    and cs: "up_cpages e = Some cs" and cb: "card_backed e"
    and small: "unat (up_n_pages e) < 2 ^ 31"
    and mult: "unat (up_n_pages e) mod unat (tlb_pg_inc pd e) = 0"
    and sub: "page_range (pfa_vaddr pfa) (pfa_n_pages pfa) \<subseteq> region_range e"
    and n0: "0 < pfa_n_pages pfa" and psmall: "unat (pfa_n_pages pfa) < 2 ^ 31"
    and pmult: "unat (pfa_n_pages pfa) mod unat (tlb_pg_inc pd e) = 0"
    and cap: "unat (pfa_n_pages pfa) div unat (tlb_pg_inc pd e) \<le> max_n_map_pages pd"
    and lock: "if h then \<not> sync_lock s else \<not> offload_lock s"
  shows "\<exists>s'. remap_migrate pd pfa cpid p h hpid s = Inr s' \<and>
    hw_trace s' = hw_trace s @ Tlb_service (up_huge e) (unmap_batch pd e hpid) # inval_batch pd e hpid @
      [if h then Sync_start (up_hpages e) cs (up_n_pages e) (up_huge e)
       else Offload_start (up_hpages e) cs (up_n_pages e) (up_huge e),
       Tlb_service (up_huge e) (map_batch pd pfa (e\<lparr>up_host := h\<rparr>) hpid)] \<and>
    user_buff_map s' = (user_buff_map s)(cpid := update_entry (user_buff_map s cpid) p (\<lambda>x. x\<lparr>up_host := h\<rparr>)) \<and>
    hmem s' = (if h then copy_pages (cmem s) cs (hmem s) (up_hpages e) else hmem s) \<and>
    cmem s' = (if h then cmem s else copy_pages (hmem s) (up_hpages e) (cmem s) cs) \<and>
    offload_lock s' = offload_lock s \<and> sync_lock s' = sync_lock s \<and> pid_array s' = pid_array s"
proof -
  have en0: "0 < up_n_pages e" using wf by (simp add: entry_wf_def)
  define s1 where "s1 = s\<lparr>dev_tlb := fold (tlb_apply (up_huge e)) (unmap_batch pd e hpid) (dev_tlb s),
           hw_trace := hw_trace s @ Tlb_service (up_huge e) (unmap_batch pd e hpid) # inval_batch pd e hpid,
           wait_invldt := False\<rparr>"
  have u: "tlb_unmap_gup pd e hpid s = Inr s1"
    unfolding s1_def using pd en0 small mult by (rule tlb_unmap_gup_eq)
  define s2 where "s2 = set_host cpid p h s1"
  have vp1: "valid_pos (user_buff_map s1 cpid) p" using vp by (simp add: s1_def)
  have e2: "entry_at (user_buff_map s2 cpid) p = e\<lparr>up_host := h\<rparr>"
    using entry_at_set_host [OF vp1] e by (simp add: s2_def s1_def)
  define s3 where "s3 = (if h then s2\<lparr>hmem := copy_pages (cmem s2) cs (hmem s2) (up_hpages e),
           hw_trace := hw_trace s2 @ [Sync_start (up_hpages e) cs (up_n_pages e) (up_huge e)],
           wait_sync := False, sync_lock := False\<rparr>
        else s2\<lparr>cmem := copy_pages (hmem s2) (up_hpages e) (cmem s2) cs,
           hw_trace := hw_trace s2 @ [Offload_start (up_hpages e) cs (up_n_pages e) (up_huge e)],
           wait_offload := False, offload_lock := False\<rparr>)"
  have m: "(if h then migrate_to_host_gup else migrate_to_card_gup) (e\<lparr>up_host := h\<rparr>) s2 = Inr s3"
  proof (cases h)
    case True
    then show ?thesis using migrate_to_host_eq [of "e\<lparr>up_host := h\<rparr>" cs s2] cb cs lock
      by (simp add: s3_def s2_def s1_def set_host_def)
  next
    case False
    then show ?thesis using migrate_to_card_eq [of "e\<lparr>up_host := h\<rparr>" cs s2] cb cs lock
      by (simp add: s3_def s2_def s1_def set_host_def)
  qed
  have t: "tlb_map_gup pd pfa (e\<lparr>up_host := h\<rparr>) hpid s3 =
      Inr (device_step (Tlb_service (up_huge e) (map_batch pd pfa (e\<lparr>up_host := h\<rparr>) hpid)) s3)"
    using tlb_map_gup_eq [of pd "e\<lparr>up_host := h\<rparr>" pfa hpid s3] pd wf sub n0 psmall pmult cap cs by simp
  have r: "remap_migrate pd pfa cpid p h hpid s =
      Inr (device_step (Tlb_service (up_huge e) (map_batch pd pfa (e\<lparr>up_host := h\<rparr>) hpid)) s3)"
    using u e2 m t e by (simp add: remap_migrate_def s2_def Let_def)
  show ?thesis
    using r lock by (cases h) (simp_all add: s3_def s2_def s1_def set_host_def)
qed

lemma miss_pin_tables:
  assumes inv: "\<forall>c. table_inv (hash_order pd) (user_buff_map s c)"
    and mp: "map_present (user_buff_map s cpid) pfa0 = (pfa, None)" and cp: "pfa_cpid pfa0 = cpid"
    and pin: "tlb_get_user_pages pd mm pfa s = Inr (Some p, s1)"
  shows "(\<forall>c. table_inv (hash_order pd) (user_buff_map s1 c)) \<and> valid_pos (user_buff_map s1 cpid) p"
proof (cases "no_wrap (pfa_vaddr pfa0) (pfa_n_pages pfa0)")
  case True
  have cpid: "pfa_cpid pfa = cpid" using map_present_fields [OF mp] cp by simp
  have "\<forall>e\<in>set (table_entries (user_buff_map s cpid)).
      page_range (pfa_vaddr pfa) (pfa_n_pages pfa) \<inter> region_range e = {}"
    using map_present_miss_facts [OF inv [rule_format, of cpid] True mp] by blast
  then have "table_inv (hash_order pd) (user_buff_map s1 cpid) \<and> valid_pos (user_buff_map s1 cpid) p \<and>
      (\<forall>c. c \<noteq> cpid \<longrightarrow> user_buff_map s1 c = user_buff_map s c)"
    using pin_insert_inv [of pd s pfa mm p s1] inv pin cpid by simp
  then show ?thesis using inv by metis
next
  case False
  then have "pfa = pfa0" using map_present_wrap [OF mp] by simp
  then show ?thesis using pin tlb_get_user_pages_wrap [OF False, of pd mm s] by simp
qed

lemma migrate_scan_skip:
  "\<forall>j. i \<le> j \<and> j < i + k \<longrightarrow>
     \<not> (up_vaddr (entry_at (user_buff_map s cpid) (b, j)) \<le> v \<and>
        v < up_vaddr (entry_at (user_buff_map s cpid) (b, j)) + up_n_pages (entry_at (user_buff_map s cpid) (b, j))) \<Longrightarrow>
   migrate_scan pd cpid h hpid v b i k ret s = Inr (ret, s)"
proof (induction k arbitrary: i)
  case 0
  then show ?case by simp
next
  case (Suc k)
  have "\<not> (up_vaddr (entry_at (user_buff_map s cpid) (b, i)) \<le> v \<and>
        v < up_vaddr (entry_at (user_buff_map s cpid) (b, i)) + up_n_pages (entry_at (user_buff_map s cpid) (b, i)))"
    using Suc.prems by auto
  moreover have "migrate_scan pd cpid h hpid v b (Suc i) k ret s = Inr (ret, s)"
    using Suc.prems by (intro Suc.IH) auto
  ultimately show ?case by (auto simp: Let_def)
qed

lemma handler_result_Inr:
  "(case r of Inr _ \<Rightarrow> True | _ \<Rightarrow> False) \<Longrightarrow> \<exists>ret s'. r = Inr (ret, s')"
  by (auto split: sum.splits)

lemma miss_branch_tables:
  assumes inv: "\<forall>c. table_inv (hash_order pd) (user_buff_map s c)"
    and mp: "map_present (user_buff_map s cpid) (fault_desc pd mm vaddr len cpid) = (pfa, None)"
    and pin: "tlb_get_user_pages pd mm pfa s = Inr (r1, s1)"
    and rest: "(case r1 of None \<Rightarrow> Inr (- ENOMEM, s1)
            | Some p \<Rightarrow>
                if stream
                then obind (tlb_map_gup pd pfa (entry_at (user_buff_map s1 cpid) p) hpid s1) (\<lambda>s'. Inr (0, s'))
                else (let s2 = set_host cpid p False s1; up = entry_at (user_buff_map s2 cpid) p
                      in obind (migrate_to_card_gup up s2) (\<lambda>s3.
                           obind (tlb_map_gup pd pfa up hpid s3) (\<lambda>s'. Inr (0, s'))))) = Inr (ret, s')"
  shows "\<forall>c. table_inv (hash_order pd) (user_buff_map s' c)"
proof (cases r1)
  case None
  then show ?thesis using rest pin tlb_get_user_pages_None_tables inv by auto
next
  case (Some p)
  have inv1: "\<forall>c. table_inv (hash_order pd) (user_buff_map s1 c)"
    using miss_pin_tables [OF inv mp fault_desc_cpid] pin Some by blast
  show ?thesis
  proof (cases stream)
    case True
    then have "tlb_map_gup pd pfa (entry_at (user_buff_map s1 cpid) p) hpid s1 = Inr s'"
      using rest Some by (auto simp: obind_eq_Inr)
    then show ?thesis using inv1 tlb_only_frame [OF tlb_map_gup_only] by metis
  next
    case False
    let ?s2 = "set_host cpid p False s1"
    from rest Some False obtain s3 where
      m: "migrate_to_card_gup (entry_at (user_buff_map ?s2 cpid) p) ?s2 = Inr s3" and
      t: "tlb_map_gup pd pfa (entry_at (user_buff_map ?s2 cpid) p) hpid s3 = Inr s'"
      by (auto simp: obind_eq_Inr Let_def)
    have "\<forall>c. table_inv (hash_order pd) (user_buff_map ?s2 c)"
      using inv1 by (rule set_host_tables)
    then show ?thesis
      using migrate_to_card_tables [OF m] tlb_only_frame [OF tlb_map_gup_only [OF t]] by simp
  qed
qed

text \<open>
  C1. Fault Orchestrator, table invariant: whatever the fault, \<open>mmu_handler_gup\<close>
  keeps every context's region table well formed: each entry in its hash bucket, every
  entry well formed, no two regions overlapping. A miss pins only the range the lookup
  clipped, which overlaps no region; a hit changes only the residency flag of the entry.
\<close>

theorem mmu_handler_gup_inv:
  assumes inv: "\<forall>c. table_inv (hash_order pd) (user_buff_map s c)"
    and r: "mmu_handler_gup pd mm vaddr len cpid stream hpid s = Inr (ret, s')"
  shows "\<forall>c. table_inv (hash_order pd) (user_buff_map s' c)"
proof -
  let ?pfa0 = "fault_desc pd mm vaddr len cpid"
  obtain pfa ro where mp: "map_present (user_buff_map s cpid) ?pfa0 = (pfa, ro)" by fastforce
  show ?thesis
  proof (cases ro)
    case (Some p)
    let ?up = "entry_at (user_buff_map s cpid) p"
    have "s' = s \<or> tlb_map_gup pd pfa ?up hpid s = Inr s' \<or> (\<exists>h. remap_migrate pd pfa cpid p h hpid s = Inr s')"
      using r mp Some by (auto simp: mmu_handler_gup_def Let_def obind_eq_Inr split: if_splits)
    then show ?thesis
      using inv tlb_only_frame [OF tlb_map_gup_only] remap_migrate_tables by metis
  next
    case None
    from r mp None obtain r1 s1 where pin: "tlb_get_user_pages pd mm pfa s = Inr (r1, s1)"
      and rest: "(case r1 of None \<Rightarrow> Inr (- ENOMEM, s1)
            | Some p \<Rightarrow>
                if stream
                then obind (tlb_map_gup pd pfa (entry_at (user_buff_map s1 cpid) p) hpid s1) (\<lambda>s'. Inr (0, s'))
                else (let s2 = set_host cpid p False s1; up = entry_at (user_buff_map s2 cpid) p
                      in obind (migrate_to_card_gup up s2) (\<lambda>s3.
                           obind (tlb_map_gup pd pfa up hpid s3) (\<lambda>s'. Inr (0, s'))))) = Inr (ret, s')"
      by (auto simp: mmu_handler_gup_def obind_eq_Inr)
    show ?thesis using miss_branch_tables [OF inv mp [unfolded None] pin rest] .
  qed
qed

text \<open>
  C7. Fault Orchestrator, host hit: a host access that hits a host-resident region does
  no migration: \<open>mmu_handler_gup\<close> returns 0 after submitting exactly the map batch of the
  clipped range, and changes nothing else.
\<close>

theorem mmu_handler_gup_host_hit:
  assumes inv: "table_inv (hash_order pd) (user_buff_map s cpid)" and pd: "pd_wf pd"
    and nw: "no_wrap (pfa_vaddr (fault_desc pd mm vaddr len cpid)) (pfa_n_pages (fault_desc pd mm vaddr len cpid))"
    and n0: "0 < pfa_n_pages (fault_desc pd mm vaddr len cpid)"
    and mp: "map_present (user_buff_map s cpid) (fault_desc pd mm vaddr len cpid) = (pfa, Some p)"
    and host: "up_host (entry_at (user_buff_map s cpid) p)"
    and small: "unat (pfa_n_pages pfa) < 2 ^ 31"
    and mult: "unat (pfa_n_pages pfa) mod unat (tlb_pg_inc pd (entry_at (user_buff_map s cpid) p)) = 0"
    and cap: "unat (pfa_n_pages pfa) div unat (tlb_pg_inc pd (entry_at (user_buff_map s cpid) p)) \<le> max_n_map_pages pd"
  shows "mmu_handler_gup pd mm vaddr len cpid HOST_ACCESS hpid s =
    Inr (0, device_step (Tlb_service (up_huge (entry_at (user_buff_map s cpid) p))
                          (map_batch pd pfa (entry_at (user_buff_map s cpid) p) hpid)) s)"
proof -
  let ?e = "entry_at (user_buff_map s cpid) p"
  have hit: "valid_pos (user_buff_map s cpid) p" "0 < pfa_n_pages pfa"
    "page_range (pfa_vaddr pfa) (pfa_n_pages pfa) \<subseteq> region_range ?e"
    using map_present_hit_facts [OF inv nw mp] n0 by blast+
  have "tlb_map_gup pd pfa ?e hpid s = Inr (device_step (Tlb_service (up_huge ?e) (map_batch pd pfa ?e hpid)) s)"
    using tlb_map_gup_eq [OF pd hit_entry_wf [OF inv hit(1)] hit(3) hit(2) small mult cap] host by simp
  then show ?thesis
    using mp host by (simp add: mmu_handler_gup_def HOST_ACCESS_def Let_def)
qed

text \<open>
  C8. Fault Orchestrator, residency change: a card access that hits a host-resident
  region unmaps the whole region (batch, then the invalidation runs), copies it to the card,
  and only then maps the clipped range to the card pages; the entry ends card-resident.
\<close>

theorem mmu_handler_gup_card_hit:
  assumes inv: "table_inv (hash_order pd) (user_buff_map s cpid)" and pd: "pd_wf pd"
    and nw: "no_wrap (pfa_vaddr (fault_desc pd mm vaddr len cpid)) (pfa_n_pages (fault_desc pd mm vaddr len cpid))"
    and n0: "0 < pfa_n_pages (fault_desc pd mm vaddr len cpid)"
    and mp: "map_present (user_buff_map s cpid) (fault_desc pd mm vaddr len cpid) = (pfa, Some p)"
    and e: "entry_at (user_buff_map s cpid) p = e" and host: "up_host e"
    and cs: "up_cpages e = Some cs" and cb: "card_backed e"
    and esmall: "unat (up_n_pages e) < 2 ^ 31" and emult: "unat (up_n_pages e) mod unat (tlb_pg_inc pd e) = 0"
    and small: "unat (pfa_n_pages pfa) < 2 ^ 31"
    and mult: "unat (pfa_n_pages pfa) mod unat (tlb_pg_inc pd e) = 0"
    and cap: "unat (pfa_n_pages pfa) div unat (tlb_pg_inc pd e) \<le> max_n_map_pages pd"
    and lock: "\<not> offload_lock s"
  shows "\<exists>s'. mmu_handler_gup pd mm vaddr len cpid CARD_ACCESS hpid s = Inr (0, s') \<and>
    hw_trace s' = hw_trace s @ Tlb_service (up_huge e) (unmap_batch pd e hpid) # inval_batch pd e hpid @
      [Offload_start (up_hpages e) cs (up_n_pages e) (up_huge e),
       Tlb_service (up_huge e) (map_batch pd pfa (e\<lparr>up_host := False\<rparr>) hpid)] \<and>
    \<not> up_host (entry_at (user_buff_map s' cpid) p) \<and>
    cmem s' = copy_pages (hmem s) (up_hpages e) (cmem s) cs \<and> hmem s' = hmem s"
proof -
  have hit: "valid_pos (user_buff_map s cpid) p" "0 < pfa_n_pages pfa"
    "page_range (pfa_vaddr pfa) (pfa_n_pages pfa) \<subseteq> region_range e"
    using map_present_hit_facts [OF inv nw mp] n0 e by blast+
  have wf: "entry_wf e" using hit_entry_wf [OF inv hit(1)] e by simp
  obtain s' where r: "remap_migrate pd pfa cpid p False hpid s = Inr s'"
    and tr: "hw_trace s' = hw_trace s @ Tlb_service (up_huge e) (unmap_batch pd e hpid) # inval_batch pd e hpid @
      [Offload_start (up_hpages e) cs (up_n_pages e) (up_huge e),
       Tlb_service (up_huge e) (map_batch pd pfa (e\<lparr>up_host := False\<rparr>) hpid)]"
    and tb: "user_buff_map s' = (user_buff_map s)(cpid := update_entry (user_buff_map s cpid) p (\<lambda>x. x\<lparr>up_host := False\<rparr>))"
    and mem: "hmem s' = hmem s" "cmem s' = copy_pages (hmem s) (up_hpages e) (cmem s) cs"
    using remap_migrate_eq [OF pd hit(1) e wf cs cb esmall emult hit(3) hit(2) small mult cap, of False hpid] lock
    by auto
  have "\<not> up_host (entry_at (user_buff_map s' cpid) p)"
    using tb entry_at_update_same [OF hit(1)] by simp
  moreover have "mmu_handler_gup pd mm vaddr len cpid CARD_ACCESS hpid s = Inr (0, s')"
    using mp e host r by (simp add: mmu_handler_gup_def HOST_ACCESS_def CARD_ACCESS_def)
  ultimately show ?thesis using tr mem by blast
qed

text \<open>
  Fault Orchestrator, card access without card memory: on a device without card
  memory, a card access that misses pins a region without card pages and then migrates
  it, passing the NULL \<open>cpages\<close> to the copy.
\<close>

theorem mmu_handler_gup_card_no_mem:
  assumes inv: "table_inv (hash_order pd) (user_buff_map s cpid)" and nomem: "\<not> en_mem pd"
    and mp: "map_present (user_buff_map s cpid) (fault_desc pd mm vaddr len cpid) = (pfa, None)"
    and pin: "tlb_get_user_pages pd mm pfa s = Inr (Some p, s1)"
    and lock: "\<not> offload_lock s"
  shows "mmu_handler_gup pd mm vaddr len cpid CARD_ACCESS hpid s = Inl Null_deref"
proof -
  have cp: "pfa_cpid pfa = cpid" using map_present_fields [OF mp] by simp
  have len: "length (user_buff_map s (pfa_cpid pfa)) = 2 ^ hash_order pd"
    using inv cp by (simp add: table_inv_def)
  have e: "valid_pos (user_buff_map s1 cpid) p" "up_cpages (entry_at (user_buff_map s1 cpid) p) = None"
    using pin_entry_no_card [OF pin nomem len] cp by simp_all
  let ?s2 = "set_host cpid p False s1"
  have "up_cpages (entry_at (user_buff_map ?s2 cpid) p) = None"
    using entry_at_set_host [OF e(1)] e(2) by simp
  moreover have "\<not> offload_lock ?s2"
    using tlb_get_user_pages_locks [OF pin] lock by (simp add: set_host_def)
  ultimately have "migrate_to_card_gup (entry_at (user_buff_map ?s2 cpid) p) ?s2 = Inl Null_deref"
    by (simp add: migrate_to_card_gup_def lock_offload_def dma_args_def)
  then show ?thesis
    using mp pin by (simp add: mmu_handler_gup_def CARD_ACCESS_def HOST_ACCESS_def Let_def)
qed

text \<open>
  Fault Orchestrator, user-triggered migration: \<open>offload_user_gup\<close> and
  \<open>sync_user_gup\<close> look only in the hash bucket of the address's page; when no entry of
  that bucket contains the page they return 1 (not found) and change nothing, even when a
  region of another bucket contains it.
\<close>

theorem user_migrate_probe:
  assumes miss: "\<forall>e\<in>set (user_buff_map s cpid ! hash_64 (user_page pd vaddr) (hash_order pd)).
      \<not> (up_vaddr e \<le> user_page pd vaddr \<and> user_page pd vaddr < up_vaddr e + up_n_pages e)"
  shows "offload_user_gup pd vaddr cpid s = Inr (1, s) \<and> sync_user_gup pd vaddr cpid s = Inr (1, s)"
proof -
  let ?b = "hash_64 (user_page pd vaddr) (hash_order pd)"
  have "\<forall>j. 0 \<le> j \<and> j < 0 + length (user_buff_map s cpid ! ?b) \<longrightarrow>
     \<not> (up_vaddr (entry_at (user_buff_map s cpid) (?b, j)) \<le> user_page pd vaddr \<and>
        user_page pd vaddr < up_vaddr (entry_at (user_buff_map s cpid) (?b, j)) +
          up_n_pages (entry_at (user_buff_map s cpid) (?b, j)))"
    using miss by (auto simp: entry_at_def)
  then show ?thesis
    by (simp add: offload_user_gup_def sync_user_gup_def user_migrate_def Let_def migrate_scan_skip)
qed

text \<open>
  Fault Orchestrator, empty fault: when the aligned fault covers no page (a zero
  length at a page-aligned address), a hit whose residency matches the access maps an
  empty batch, whose zero-byte array stops the kernel in \<open>BUG_ON\<close>, and a miss returns
  \<open>-ENOMEM\<close>.
\<close>

theorem mmu_handler_gup_empty:
  assumes z: "pfa_n_pages (fault_desc pd mm vaddr len cpid) = 0"
  shows "(map_present (user_buff_map s cpid) (fault_desc pd mm vaddr len cpid) = (pfa, Some p) \<and>
          up_host (entry_at (user_buff_map s cpid) p) = stream \<longrightarrow>
          mmu_handler_gup pd mm vaddr len cpid stream hpid s = Inl Bug_on) \<and>
         (map_present (user_buff_map s cpid) (fault_desc pd mm vaddr len cpid) = (pfa, None) \<longrightarrow>
          mmu_handler_gup pd mm vaddr len cpid stream hpid s = Inr (- ENOMEM, s))"
proof (intro conjI impI)
  assume "map_present (user_buff_map s cpid) (fault_desc pd mm vaddr len cpid) = (pfa, Some p) \<and>
      up_host (entry_at (user_buff_map s cpid) p) = stream"
  then have mp: "map_present (user_buff_map s cpid) (fault_desc pd mm vaddr len cpid) = (pfa, Some p)"
    and h: "up_host (entry_at (user_buff_map s cpid) p) = stream" by simp_all
  have "tlb_map_gup pd pfa (entry_at (user_buff_map s cpid) p) hpid s = Inl Bug_on"
    using map_present_zero [OF z mp] by (rule tlb_map_gup_empty)
  then show "mmu_handler_gup pd mm vaddr len cpid stream hpid s = Inl Bug_on"
    using mp h by (cases stream) (simp_all add: mmu_handler_gup_def HOST_ACCESS_def CARD_ACCESS_def Let_def)
next
  assume mp: "map_present (user_buff_map s cpid) (fault_desc pd mm vaddr len cpid) = (pfa, None)"
  have "tlb_get_user_pages pd mm pfa s = Inr (None, s)"
    using map_present_zero [OF z mp] by (simp add: tlb_get_user_pages_def Let_def)
  then show "mmu_handler_gup pd mm vaddr len cpid stream hpid s = Inr (- ENOMEM, s)"
    using mp by (simp add: mmu_handler_gup_def)
qed

section \<open>Witnesses\<close>

theorem mmu_handler_gup_inv_witness:
  "\<exists>ret s'. mmu_handler_gup ex_pd ex_mm 0x64000 0x3000 0 True 42 ex_state = Inr (ret, s') \<and>
     (\<forall>c. table_inv (hash_order ex_pd) (user_buff_map s' c))"
proof -
  have inv: "\<forall>c. table_inv (hash_order ex_pd) (user_buff_map ex_state c)"
  proof
    fix c
    show "table_inv (hash_order ex_pd) (user_buff_map ex_state c)"
      by (simp add: ex_state_def) code_simp
  qed
  have "case mmu_handler_gup ex_pd ex_mm 0x64000 0x3000 0 True 42 ex_state of Inr _ \<Rightarrow> True | _ \<Rightarrow> False"
    by code_simp
  then obtain ret s' where r: "mmu_handler_gup ex_pd ex_mm 0x64000 0x3000 0 True 42 ex_state = Inr (ret, s')"
    using handler_result_Inr by blast
  then show ?thesis using mmu_handler_gup_inv [OF inv r] by blast
qed

theorem mmu_handler_gup_host_hit_witness:
  "map_present (user_buff_map ex_gup_state 0) (fault_desc ex_pd ex_mm 0x65000 0x1000 0) = (ex_fault 0x65 1, Some (0, 0)) \<and>
   up_host (entry_at (user_buff_map ex_gup_state 0) (0, 0)) \<and>
   mmu_handler_gup ex_pd ex_mm 0x65000 0x1000 0 HOST_ACCESS 42 ex_gup_state =
     Inr (0, device_step (Tlb_service (up_huge (entry_at (user_buff_map ex_gup_state 0) (0, 0)))
                          (map_batch ex_pd (ex_fault 0x65 1) (entry_at (user_buff_map ex_gup_state 0) (0, 0)) 42)) ex_gup_state)"
proof -
  have fd: "fault_desc ex_pd ex_mm 0x65000 0x1000 0 = ex_fault 0x65 1" by code_simp
  have mp: "map_present (user_buff_map ex_gup_state 0) (fault_desc ex_pd ex_mm 0x65000 0x1000 0) = (ex_fault 0x65 1, Some (0, 0))"
    unfolding fd by code_simp
  have inv: "table_inv (hash_order ex_pd) (user_buff_map ex_gup_state 0)" by code_simp
  have e: "entry_at (user_buff_map ex_gup_state 0) (0, 0) = ex_card_region" by code_simp
  have h: "pd_wf ex_pd" "no_wrap (pfa_vaddr (fault_desc ex_pd ex_mm 0x65000 0x1000 0)) (pfa_n_pages (fault_desc ex_pd ex_mm 0x65000 0x1000 0))"
    "0 < pfa_n_pages (fault_desc ex_pd ex_mm 0x65000 0x1000 0)"
    "up_host (entry_at (user_buff_map ex_gup_state 0) (0, 0))"
    "unat (pfa_n_pages (ex_fault 0x65 1)) < 2 ^ 31"
    "unat (pfa_n_pages (ex_fault 0x65 1)) mod unat (tlb_pg_inc ex_pd (entry_at (user_buff_map ex_gup_state 0) (0, 0))) = 0"
    "unat (pfa_n_pages (ex_fault 0x65 1)) div unat (tlb_pg_inc ex_pd (entry_at (user_buff_map ex_gup_state 0) (0, 0))) \<le> max_n_map_pages ex_pd"
    unfolding fd e by (simp_all add: pd_wf_def ex_pd_def ex_fault_def no_wrap_def ex_card_region_def ex_region_def tlb_pg_inc_def)
  show ?thesis
    using mmu_handler_gup_host_hit [OF inv h(1,2,3) mp h(4,5,6,7), of 42] mp h(4) by blast
qed

theorem mmu_handler_gup_card_hit_witness:
  "\<exists>s'. mmu_handler_gup ex_pd ex_mm 0x65000 0x1000 0 CARD_ACCESS 42 ex_gup_state = Inr (0, s') \<and>
    hw_trace s' = Tlb_service False (unmap_batch ex_pd ex_card_region 42) # inval_batch ex_pd ex_card_region 42 @
      [Offload_start [0x1000, 0x2000, 0x3000] [0x80000, 0x81000, 0x82000] 3 False,
       Tlb_service False (map_batch ex_pd (ex_fault 0x65 1) (ex_card_region\<lparr>up_host := False\<rparr>) 42)] \<and>
    \<not> up_host (entry_at (user_buff_map s' 0) (0, 0)) \<and>
    cmem s' = copy_pages (hmem ex_gup_state) [0x1000, 0x2000, 0x3000] (cmem ex_gup_state) [0x80000, 0x81000, 0x82000] \<and>
    hmem s' = hmem ex_gup_state"
proof -
  have fd: "fault_desc ex_pd ex_mm 0x65000 0x1000 0 = ex_fault 0x65 1" by code_simp
  have mp: "map_present (user_buff_map ex_gup_state 0) (fault_desc ex_pd ex_mm 0x65000 0x1000 0) = (ex_fault 0x65 1, Some (0, 0))"
    unfolding fd by code_simp
  have inv: "table_inv (hash_order ex_pd) (user_buff_map ex_gup_state 0)" by code_simp
  have e: "entry_at (user_buff_map ex_gup_state 0) (0, 0) = ex_card_region" by code_simp
  have h: "pd_wf ex_pd" "no_wrap (pfa_vaddr (fault_desc ex_pd ex_mm 0x65000 0x1000 0)) (pfa_n_pages (fault_desc ex_pd ex_mm 0x65000 0x1000 0))"
    "0 < pfa_n_pages (fault_desc ex_pd ex_mm 0x65000 0x1000 0)"
    "up_host ex_card_region" "up_cpages ex_card_region = Some [0x80000, 0x81000, 0x82000]"
    "card_backed ex_card_region" "unat (up_n_pages ex_card_region) < 2 ^ 31"
    "unat (up_n_pages ex_card_region) mod unat (tlb_pg_inc ex_pd ex_card_region) = 0"
    "unat (pfa_n_pages (ex_fault 0x65 1)) < 2 ^ 31"
    "unat (pfa_n_pages (ex_fault 0x65 1)) mod unat (tlb_pg_inc ex_pd ex_card_region) = 0"
    "unat (pfa_n_pages (ex_fault 0x65 1)) div unat (tlb_pg_inc ex_pd ex_card_region) \<le> max_n_map_pages ex_pd"
    "\<not> offload_lock ex_gup_state"
    unfolding fd
    by (simp_all add: pd_wf_def ex_pd_def ex_fault_def no_wrap_def ex_card_region_def ex_region_def
        tlb_pg_inc_def card_backed_def ex_gup_state_def ex_state_def)
  have tr: "hw_trace ex_gup_state = []" "up_hpages ex_card_region = [0x1000, 0x2000, 0x3000]"
    "up_n_pages ex_card_region = 3" "up_huge ex_card_region = False"
    by (simp_all add: ex_gup_state_def ex_state_def ex_card_region_def ex_region_def)
  show ?thesis
    using mmu_handler_gup_card_hit [OF inv h(1,2,3) mp e h(4,5,6,7,8,9,10,11,12), of 42] tr by simp
qed

theorem mmu_handler_gup_card_no_mem_witness:
  "mmu_handler_gup (ex_pd\<lparr>en_mem := False\<rparr>) ex_mm 0x64000 0x3000 0 CARD_ACCESS 42 ex_state = Inl Null_deref"
proof -
  let ?pd = "ex_pd\<lparr>en_mem := False\<rparr>"
  have fd: "fault_desc ?pd ex_mm 0x64000 0x3000 0 = ex_fault 0x64 3" by code_simp
  have mp: "map_present (user_buff_map ex_state 0) (fault_desc ?pd ex_mm 0x64000 0x3000 0) = (ex_fault 0x64 3, None)"
    unfolding fd by code_simp
  have inv: "table_inv (hash_order ?pd) (user_buff_map ex_state 0)" by code_simp
  have "case tlb_get_user_pages ?pd ex_mm (ex_fault 0x64 3) ex_state of Inr (Some _, _) \<Rightarrow> True | _ \<Rightarrow> False"
    by code_simp
  then obtain p s1 where pin: "tlb_get_user_pages ?pd ex_mm (ex_fault 0x64 3) ex_state = Inr (Some p, s1)"
    using pin_result_Some by blast
  have "\<not> en_mem ?pd" "\<not> offload_lock ex_state" by (simp_all add: ex_state_def)
  then show ?thesis using mmu_handler_gup_card_no_mem [OF inv _ mp pin] by blast
qed

theorem user_migrate_probe_witness:
  "unat (user_page ex_pd 0x65000) \<in> region_range ex_card_region \<and>
   offload_user_gup ex_pd 0x65000 0 ex_gup_state = Inr (1, ex_gup_state) \<and>
   sync_user_gup ex_pd 0x65000 0 ex_gup_state = Inr (1, ex_gup_state)"
proof -
  have "\<forall>e\<in>set (user_buff_map ex_gup_state 0 ! hash_64 (user_page ex_pd 0x65000) (hash_order ex_pd)).
      \<not> (up_vaddr e \<le> user_page ex_pd 0x65000 \<and> user_page ex_pd 0x65000 < up_vaddr e + up_n_pages e)"
    by code_simp
  moreover have "unat (user_page ex_pd 0x65000) \<in> region_range ex_card_region" by code_simp
  ultimately show ?thesis using user_migrate_probe by blast
qed

theorem mmu_handler_gup_empty_witness:
  "mmu_handler_gup ex_pd ex_mm 0x65000 0 0 HOST_ACCESS 42 ex_gup_state = Inl Bug_on \<and>
   mmu_handler_gup ex_pd ex_mm 0x70000 0 0 HOST_ACCESS 42 ex_gup_state = Inr (- ENOMEM, ex_gup_state)"
proof -
  have z1: "pfa_n_pages (fault_desc ex_pd ex_mm 0x65000 0 0) = 0" by code_simp
  have z2: "pfa_n_pages (fault_desc ex_pd ex_mm 0x70000 0 0) = 0" by code_simp
  have m1: "map_present (user_buff_map ex_gup_state 0) (fault_desc ex_pd ex_mm 0x65000 0 0) = (ex_fault 0x65 0, Some (0, 0)) \<and>
      up_host (entry_at (user_buff_map ex_gup_state 0) (0, 0)) = HOST_ACCESS" by code_simp
  have m2: "map_present (user_buff_map ex_gup_state 0) (fault_desc ex_pd ex_mm 0x70000 0 0) = (ex_fault 0x70 0, None)"
    by code_simp
  show ?thesis
    using mmu_handler_gup_empty [OF z1, of ex_gup_state "ex_fault 0x65 0" "(0, 0)" HOST_ACCESS 42] m1
      mmu_handler_gup_empty [OF z2, of ex_gup_state "ex_fault 0x70 0" _ HOST_ACCESS 42] m2
    by blast
qed

end
