(* ===== verification/Release.thy ===== *)
theory Release
  imports Fault_Handler "HOL-Library.Multiset"
begin

text \<open>
  The release paths of \<open>fpga_gup.c\<close>: \<open>tlb_put_user_pages\<close> (lines 505-547) releases
  the region holding an address, \<open>tlb_put_user_pages_cpid\<close> (lines 556-593) every region
  of a context. Releasing an entry unmaps it from the device TLB, returns its card pages,
  marks its frames dirty when asked, unpins them and removes the entry from the table, in
  that order. Both loops are the plain \<open>hash_for_each_possible\<close> and \<open>hash_for_each\<close>, not
  the \<open>_safe\<close> variants: \<open>hash_del\<close> is \<open>hlist_del_init\<close>, which sets the removed node's
  \<open>next\<close> to NULL, so the inner loop ends right after the entry it released.
\<close>

section \<open>Definitions\<close>

text \<open>\<open>SetPageDirty\<close> on a list of frames.\<close>

definition set_dirty :: "(u64 \<Rightarrow> bool) \<Rightarrow> u64 list \<Rightarrow> (u64 \<Rightarrow> bool)" where
  "set_dirty d ps = fold (\<lambda>p d. d(p := True)) ps d"

text \<open>
  Lines 521-541 (and 566-586): release the entry at \<open>p\<close>. \<open>card_free\<close> reads the
  \<open>n_pages\<close> card addresses; the two page loops read \<open>pages[0 .. n_pages - 1]\<close>.
\<close>

definition release_entry ::
  "bus_drvdata \<Rightarrow> nat \<Rightarrow> entry_pos \<Rightarrow> int \<Rightarrow> bool \<Rightarrow> gup_state \<Rightarrow> gup_state outcome" where
  "release_entry pd cpid p hpid dirtied s =
     (let e = entry_at (user_buff_map s cpid) p; n = unat (up_n_pages e) in
      obind (tlb_unmap_gup pd e hpid s) (\<lambda>s1.
      obind (if en_mem pd
             then (case up_cpages e of
                     None \<Rightarrow> Inl Null_deref
                   | Some cs \<Rightarrow> obind (read_prefix cs n) (\<lambda>cs'. Inr (card_free s1 cs' (up_huge e))))
             else Inr s1) (\<lambda>s2.
      obind (read_prefix (up_pages e) n) (\<lambda>ps.
        let s3 = (if dirtied then s2\<lparr>page_dirty := set_dirty (page_dirty s2) ps\<rparr> else s2);
            s4 = s3\<lparr>page_refs := put_pages (page_refs s3) ps\<rparr>
        in Inr (s4\<lparr>user_buff_map := (user_buff_map s4)(cpid := hash_del (user_buff_map s4 cpid) p)\<rparr>)))))"

text \<open>
  Lines 518-543: \<open>hash_for_each_possible\<close> over bucket \<open>b\<close>, entry \<open>i\<close> onwards. The test
  is \<open>vaddr_tmp <= vaddr + n_pages\<close>, and the loop stops after the first release.
\<close>

fun put_scan ::
  "bus_drvdata \<Rightarrow> nat \<Rightarrow> int \<Rightarrow> bool \<Rightarrow> u64 \<Rightarrow> nat \<Rightarrow> nat \<Rightarrow> user_pages list \<Rightarrow> gup_state \<Rightarrow> gup_state outcome" where
  "put_scan pd cpid hpid dirtied v b i [] s = Inr s"
| "put_scan pd cpid hpid dirtied v b i (e # es) s =
     (if up_vaddr e \<le> v \<and> v \<le> up_vaddr e + up_n_pages e
      then release_entry pd cpid (b, i) hpid dirtied s
      else put_scan pd cpid hpid dirtied v b (Suc i) es s)"

text \<open>\<open>tlb_put_user_pages(d, vaddr, cpid, hpid, dirtied)\<close>.\<close>

definition tlb_put_user_pages :: "bus_drvdata \<Rightarrow> u64 \<Rightarrow> nat \<Rightarrow> int \<Rightarrow> bool \<Rightarrow> gup_state \<Rightarrow> (int \<times> gup_state) outcome" where
  "tlb_put_user_pages pd vaddr cpid hpid dirtied s =
     (let v = user_page pd vaddr; b = hash_64 v (hash_order pd)
      in obind (put_scan pd cpid hpid dirtied v b 0 (user_buff_map s cpid ! b) s) (\<lambda>s'. Inr (0, s')))"

text \<open>
  Lines 565-589: \<open>hash_for_each\<close> from bucket \<open>b\<close> with \<open>k\<close> buckets left. It visits the
  head of a nonempty bucket, releases it, and goes on with the next bucket.
\<close>

fun put_all :: "bus_drvdata \<Rightarrow> nat \<Rightarrow> int \<Rightarrow> bool \<Rightarrow> nat \<Rightarrow> nat \<Rightarrow> gup_state \<Rightarrow> gup_state outcome" where
  "put_all pd cpid hpid dirtied b 0 s = Inr s"
| "put_all pd cpid hpid dirtied b (Suc k) s =
     (if user_buff_map s cpid ! b = [] then put_all pd cpid hpid dirtied (Suc b) k s
      else obind (release_entry pd cpid (b, 0) hpid dirtied s) (put_all pd cpid hpid dirtied (Suc b) k))"

text \<open>\<open>tlb_put_user_pages_cpid(d, cpid, hpid, dirtied)\<close>, over the \<open>HASH_SIZE\<close> buckets.\<close>

definition tlb_put_user_pages_cpid :: "bus_drvdata \<Rightarrow> nat \<Rightarrow> int \<Rightarrow> bool \<Rightarrow> gup_state \<Rightarrow> (int \<times> gup_state) outcome" where
  "tlb_put_user_pages_cpid pd cpid hpid dirtied s =
     obind (put_all pd cpid hpid dirtied 0 (2 ^ hash_order pd) s) (\<lambda>s'. Inr (0, s'))"

text \<open>An entry whose release completes: well formed, unmappable, with card pages when card memory is on.\<close>

definition releasable :: "bus_drvdata \<Rightarrow> user_pages \<Rightarrow> bool" where
  "releasable pd e \<longleftrightarrow> entry_wf e \<and> unat (up_n_pages e) < 2 ^ 31 \<and>
     unat (up_n_pages e) mod unat (tlb_pg_inc pd e) = 0 \<and> (en_mem pd \<longrightarrow> up_cpages e \<noteq> None)"

text \<open>Two adjacent one-page regions, pages 101 and 102, which share bucket 1 of a two-bucket table.\<close>

definition ex_left :: user_pages where
  "ex_left = (ex_region 101 1)\<lparr>up_cpages := Some [0x85000]\<rparr>"

definition ex_right :: user_pages where
  "ex_right = (ex_region 102 1)\<lparr>up_cpages := Some [0x84000]\<rparr>"

definition ex_adj_state :: gup_state where
  "ex_adj_state = ex_state\<lparr>user_buff_map := (\<lambda>_. hash_add 1 (hash_add 1 (empty_table 1) ex_right 102) ex_left 101)\<rparr>"

section \<open>Lemmas\<close>

lemma read_prefix_ok [simp]: "n \<le> length xs \<Longrightarrow> read_prefix xs n = Inr (take n xs)"
  by (simp add: read_prefix_def)

lemma release_entry_eq:
  assumes pd: "pd_wf pd" and e: "entry_at (user_buff_map s cpid) p = e" and r: "releasable pd e"
  shows "\<exists>s'. release_entry pd cpid p hpid dirtied s = Inr s' \<and>
    user_buff_map s' = (user_buff_map s)(cpid := hash_del (user_buff_map s cpid) p) \<and>
    page_refs s' = put_pages (page_refs s) (up_pages e)"
proof -
  have wf: "entry_wf e" and sm: "unat (up_n_pages e) < 2 ^ 31"
    and mu: "unat (up_n_pages e) mod unat (tlb_pg_inc pd e) = 0"
    and cp: "en_mem pd \<Longrightarrow> up_cpages e \<noteq> None"
    using r by (auto simp: releasable_def)
  have n0: "0 < up_n_pages e" and lp: "length (up_pages e) = unat (up_n_pages e)"
    and lc: "\<And>cs. up_cpages e = Some cs \<Longrightarrow> length cs = unat (up_n_pages e)"
    using wf by (auto simp: entry_wf_def)
  obtain s1 where u: "tlb_unmap_gup pd e hpid s = Inr s1" and t1: "tlb_only s s1"
    using tlb_unmap_gup_eq [OF pd n0 sm mu, of hpid s] by (auto simp: tlb_only_def)
  have f1: "user_buff_map s1 = user_buff_map s" "page_refs s1 = page_refs s"
    using tlb_only_frame [OF t1] by simp_all
  obtain s2 where c: "(if en_mem pd
             then (case up_cpages e of
                     None \<Rightarrow> Inl Null_deref
                   | Some cs \<Rightarrow> obind (read_prefix cs (unat (up_n_pages e))) (\<lambda>cs'. Inr (card_free s1 cs' (up_huge e))))
             else Inr s1) = Inr s2"
    and f2: "user_buff_map s2 = user_buff_map s1" "page_refs s2 = page_refs s1"
  proof (cases "en_mem pd")
    case True
    then obtain cs where "up_cpages e = Some cs" using cp by blast
    then show ?thesis using that True lc by (simp add: card_free_def)
  next
    case False
    then show ?thesis using that by simp
  qed
  show ?thesis
    using u c f1 f2 e lp by (auto simp: release_entry_def Let_def)
qed

subsection \<open>Removal from the table\<close>

lemma concat_hash_del:
  assumes "valid_pos tbl p"
  shows "\<exists>xs zs. concat tbl = xs @ entry_at tbl p # zs \<and> concat (hash_del tbl p) = xs @ zs"
proof -
  obtain b i where p: "p = (b, i)" by (cases p)
  have b: "b < length tbl" and i: "i < length (tbl ! b)" using assms by (simp_all add: p valid_pos_def)
  let ?A = "concat (take b tbl)" and ?C = "concat (drop (Suc b) tbl)" and ?bk = "tbl ! b"
  have bk: "?bk = take i ?bk @ ?bk ! i # drop (Suc i) ?bk" using i by (simp add: id_take_nth_drop)
  have "concat tbl = (?A @ take i ?bk) @ ?bk ! i # (drop (Suc i) ?bk @ ?C)"
    using concat_split [OF b] bk by (metis append.assoc append_Cons)
  moreover have "concat (hash_del tbl p) = (?A @ take i ?bk) @ (drop (Suc i) ?bk @ ?C)"
    using concat_update [OF b] by (simp add: hash_del_def p)
  ultimately show ?thesis unfolding entry_at_def p Let_def prod.case by blast
qed

lemma sorted_wrt_remove: "sorted_wrt R (xs @ y # zs) \<Longrightarrow> sorted_wrt R (xs @ zs)"
  by (simp add: sorted_wrt_append)

lemma set_hash_del_bucket: "set (hash_del tbl p ! c) \<subseteq> set (tbl ! c)"
proof -
  obtain b i where p: "p = (b, i)" by (cases p)
  have "set (take i (tbl ! b) @ drop (Suc i) (tbl ! b)) \<subseteq> set (tbl ! b)"
    using set_take_subset set_drop_subset by fastforce
  then show ?thesis
    by (cases "b < length tbl") (auto simp: hash_del_def p nth_list_update list_update_beyond)
qed

lemma table_inv_hash_del:
  assumes inv: "table_inv bits tbl"
  shows "table_inv bits (hash_del tbl p)"
proof (cases "valid_pos tbl p")
  case True
  obtain xs zs where c: "concat tbl = xs @ entry_at tbl p # zs" and d: "concat (hash_del tbl p) = xs @ zs"
    using concat_hash_del [OF True] by blast
  have len: "length (hash_del tbl p) = length tbl" by (cases p) (simp add: hash_del_def)
  have "sorted_wrt regions_disjoint (concat (hash_del tbl p))"
    using inv c d sorted_wrt_remove by (metis table_inv_def)
  moreover have "\<forall>b<length tbl. \<forall>e\<in>set (hash_del tbl p ! b). hash_64 (up_vaddr e) bits = b \<and> entry_wf e"
    using inv set_hash_del_bucket [of tbl p] unfolding table_inv_def by blast
  ultimately show ?thesis using inv len by (simp add: table_inv_def)
next
  case False
  obtain b i where p: "p = (b, i)" by (cases p)
  have "hash_del tbl p = tbl"
    using False by (cases "b < length tbl") (auto simp: p hash_del_def valid_pos_def list_update_beyond)
  then show ?thesis using inv by simp
qed

lemma mset_hash_del:
  "valid_pos tbl p \<Longrightarrow> mset (concat (hash_del tbl p)) = mset (concat tbl) - {#entry_at tbl p#}"
  using concat_hash_del [of tbl p] by auto

lemma put_scan_release:
  "j < length es \<Longrightarrow>
   \<forall>k<j. \<not> (up_vaddr (es ! k) \<le> v \<and> v \<le> up_vaddr (es ! k) + up_n_pages (es ! k)) \<Longrightarrow>
   up_vaddr (es ! j) \<le> v \<and> v \<le> up_vaddr (es ! j) + up_n_pages (es ! j) \<Longrightarrow>
   put_scan pd cpid hpid dirtied v b i es s = release_entry pd cpid (b, i + j) hpid dirtied s"
proof (induction es arbitrary: i j)
  case Nil
  then show ?case by simp
next
  case (Cons e es)
  show ?case
  proof (cases j)
    case 0
    then show ?thesis using Cons.prems by simp
  next
    case (Suc j')
    have "\<not> (up_vaddr e \<le> v \<and> v \<le> up_vaddr e + up_n_pages e)" using Cons.prems(2) Suc by force
    moreover have "put_scan pd cpid hpid dirtied v b (Suc i) es s = release_entry pd cpid (b, Suc i + j') hpid dirtied s"
      using Cons.prems Suc by (intro Cons.IH) auto
    ultimately show ?thesis using Suc by auto
  qed
qed

subsection \<open>The release scans\<close>

lemma sorted_wrt_bucket:
  "sorted_wrt R (concat tbl) \<Longrightarrow> b < length tbl \<Longrightarrow> sorted_wrt R (tbl ! b)"
  using concat_split [of b tbl] by (simp add: sorted_wrt_append)

lemma bucket_distinct_disjoint:
  assumes inv: "table_inv bits tbl" and b: "b < length tbl"
    and k: "k < j" "j < length (tbl ! b)"
  shows "region_range (tbl ! b ! k) \<inter> region_range (tbl ! b ! j) = {}"
proof -
  have "sorted_wrt regions_disjoint (tbl ! b)"
    using inv b sorted_wrt_bucket [of regions_disjoint tbl b] by (simp add: table_inv_def)
  then show ?thesis using k by (simp add: sorted_wrt_iff_nth_less regions_disjoint_def)
qed

lemma start_in_range: "entry_wf e \<Longrightarrow> unat (up_vaddr e) \<in> region_range e"
  by (auto simp: entry_wf_def region_range_def page_range_def unat_gt_0)

lemma scan_test_in_range:
  assumes "entry_wf f" "up_vaddr f \<le> v" "v \<le> up_vaddr f + up_n_pages f" "v \<noteq> up_vaddr f + up_n_pages f"
  shows "unat v \<in> region_range f"
proof -
  have nw: "no_wrap (up_vaddr f) (up_n_pages f)" using assms(1) by (simp add: entry_wf_def)
  have "v < up_vaddr f + up_n_pages f" using assms(3,4) by simp
  then show ?thesis using assms(2) nw
    by (simp add: region_range_def page_range_def word_le_nat_alt start_less_end_iff)
qed

lemma table_pos_of_entry:
  assumes inv: "table_inv bits tbl" and e: "e \<in> set (concat tbl)"
  obtains j where "hash_64 (up_vaddr e) bits < length tbl" "j < length (tbl ! hash_64 (up_vaddr e) bits)"
    "tbl ! hash_64 (up_vaddr e) bits ! j = e"
proof -
  obtain b where b: "b < length tbl" "e \<in> set (tbl ! b)" using e by (metis in_set_conv_nth set_concat UN_E)
  then have "hash_64 (up_vaddr e) bits = b" using inv by (simp add: table_inv_def)
  then show ?thesis using b that by (auto simp: in_set_conv_nth)
qed

lemma put_scan_target:
  assumes inv: "table_inv bits tbl" and b: "b < length tbl"
    and j: "j < length (tbl ! b)" "tbl ! b ! j = e"
    and ends: "\<forall>f\<in>set (tbl ! b). up_vaddr f + up_n_pages f \<noteq> up_vaddr e"
  shows "put_scan pd cpid hpid dirtied (up_vaddr e) b 0 (tbl ! b) s = release_entry pd cpid (b, j) hpid dirtied s"
proof -
  have wf: "\<forall>f\<in>set (tbl ! b). entry_wf f" using inv b by (simp add: table_inv_def)
  have "unat (up_vaddr e) \<in> region_range e" using wf j start_in_range by auto
  have early: "\<not> (up_vaddr (tbl ! b ! k) \<le> up_vaddr e \<and> up_vaddr e \<le> up_vaddr (tbl ! b ! k) + up_n_pages (tbl ! b ! k))"
    if k: "k < j" for k
  proof
    assume t: "up_vaddr (tbl ! b ! k) \<le> up_vaddr e \<and> up_vaddr e \<le> up_vaddr (tbl ! b ! k) + up_n_pages (tbl ! b ! k)"
    have f: "tbl ! b ! k \<in> set (tbl ! b)" using k j by simp
    have "unat (up_vaddr e) \<in> region_range (tbl ! b ! k)"
      using scan_test_in_range [of "tbl ! b ! k" "up_vaddr e"] t f wf ends by auto
    then show False
      using bucket_distinct_disjoint [OF inv b k j(1)] \<open>unat (up_vaddr e) \<in> region_range e\<close> j(2) by blast
  qed
  have "no_wrap (up_vaddr e) (up_n_pages e)" using wf j by (auto simp: entry_wf_def)
  then have "up_vaddr e \<le> up_vaddr e + up_n_pages e" by (simp add: no_wrap_def not_less)
  then show ?thesis
    using put_scan_release [of j "tbl ! b" "up_vaddr e" pd cpid hpid dirtied b 0 s] early j by simp
qed

text \<open>
  C3. Releasing a region at its starting address (\<open>tlb_put_user_pages\<close>, specification
  section 5: release removes exactly the targeted region) returns 0 and removes exactly that
  region from the context's table, leaves the other contexts' tables alone, keeps the table
  invariant, and drops one pin from each of the region's frames, provided no region of the
  table ends at that page (the scan test is \<open><=\<close>, see C14).
\<close>

theorem tlb_put_user_pages_release:
  assumes pd: "pd_wf pd" and inv: "table_inv (hash_order pd) (user_buff_map s cpid)"
    and e: "e \<in> set (concat (user_buff_map s cpid))" and v: "user_page pd vaddr = up_vaddr e"
    and r: "releasable pd e"
    and ends: "\<forall>f\<in>set (concat (user_buff_map s cpid)). up_vaddr f + up_n_pages f \<noteq> up_vaddr e"
  shows "\<exists>s'. tlb_put_user_pages pd vaddr cpid hpid dirtied s = Inr (0, s') \<and>
    mset (concat (user_buff_map s' cpid)) = mset (concat (user_buff_map s cpid)) - {#e#} \<and>
    table_inv (hash_order pd) (user_buff_map s' cpid) \<and>
    (\<forall>c. c \<noteq> cpid \<longrightarrow> user_buff_map s' c = user_buff_map s c) \<and>
    page_refs s' = put_pages (page_refs s) (up_pages e)"
proof -
  let ?T = "user_buff_map s cpid" and ?b = "hash_64 (up_vaddr e) (hash_order pd)"
  obtain j where b: "?b < length ?T" and j: "j < length (?T ! ?b)" "?T ! ?b ! j = e"
    using table_pos_of_entry [OF inv e] by blast
  have "\<forall>f\<in>set (?T ! ?b). up_vaddr f + up_n_pages f \<noteq> up_vaddr e" using ends b by auto
  then have scan: "put_scan pd cpid hpid dirtied (up_vaddr e) ?b 0 (?T ! ?b) s = release_entry pd cpid (?b, j) hpid dirtied s"
    using put_scan_target [OF inv b j] by blast
  have at: "entry_at ?T (?b, j) = e" and vp: "valid_pos ?T (?b, j)"
    using j b by (simp_all add: entry_at_def valid_pos_def)
  obtain s' where s': "release_entry pd cpid (?b, j) hpid dirtied s = Inr s'"
    "user_buff_map s' = (user_buff_map s)(cpid := hash_del ?T (?b, j))"
    "page_refs s' = put_pages (page_refs s) (up_pages e)"
    using release_entry_eq [OF pd at r] by blast
  have "tlb_put_user_pages pd vaddr cpid hpid dirtied s = Inr (0, s')"
    using scan s'(1) v by (simp add: tlb_put_user_pages_def)
  then show ?thesis
    using s'(2,3) mset_hash_del [OF vp] table_inv_hash_del [OF inv] at by auto
qed

lemma heads_step:
  "b < length T \<Longrightarrow>
   take (Suc b) (T[b := drop 1 (T ! b)]) @ map (drop 1) (take k (drop (Suc b) (T[b := drop 1 (T ! b)]))) @
     drop (Suc b + k) (T[b := drop 1 (T ! b)]) =
   take b T @ map (drop 1) (take (Suc k) (drop b T)) @ drop (b + Suc k) T"
  by (simp add: take_Suc_conv_app_nth Cons_nth_drop_Suc [symmetric])

lemma hash_del_head: "hash_del tbl (b, 0) = tbl[b := drop 1 (tbl ! b)]"
  by (simp add: hash_del_def)

lemma put_all_heads:
  assumes pd: "pd_wf pd"
  shows "\<forall>e\<in>set (concat (user_buff_map s cpid)). releasable pd e \<Longrightarrow> b + k \<le> length (user_buff_map s cpid) \<Longrightarrow>
    \<exists>s'. put_all pd cpid hpid dirtied b k s = Inr s' \<and>
      user_buff_map s' = (user_buff_map s)(cpid := take b (user_buff_map s cpid) @
        map (drop 1) (take k (drop b (user_buff_map s cpid))) @ drop (b + k) (user_buff_map s cpid))"
proof (induction k arbitrary: b s)
  case 0
  then show ?case by (simp add: fun_upd_idem)
next
  case (Suc k)
  let ?T = "user_buff_map s cpid"
  have b: "b < length ?T" using Suc.prems(2) by simp
  show ?case
  proof (cases "?T ! b = []")
    case True
    then have eq: "?T[b := drop 1 (?T ! b)] = ?T" by (metis drop_Nil list_update_id)
    obtain s' where s': "put_all pd cpid hpid dirtied (Suc b) k s = Inr s'"
      "user_buff_map s' = (user_buff_map s)(cpid := take (Suc b) ?T @
        map (drop 1) (take k (drop (Suc b) ?T)) @ drop (Suc b + k) ?T)"
      using Suc.IH [of s "Suc b", OF Suc.prems(1)] Suc.prems(2) by (metis add_Suc_shift)
    have "take (Suc b) ?T @ map (drop 1) (take k (drop (Suc b) ?T)) @ drop (Suc b + k) ?T =
      take b ?T @ map (drop 1) (take (Suc k) (drop b ?T)) @ drop (b + Suc k) ?T"
      using heads_step [OF b, of k] by (simp only: eq)
    then have m: "user_buff_map s' = (user_buff_map s)(cpid := take b ?T @
        map (drop 1) (take (Suc k) (drop b ?T)) @ drop (b + Suc k) ?T)" using s'(2) by (simp only:)
    have "put_all pd cpid hpid dirtied b (Suc k) s = Inr s'" using s'(1) True by simp
    then show ?thesis using m by blast
  next
    case False
    have vp: "valid_pos ?T (b, 0)" using b False by (simp add: valid_pos_def)
    have at: "entry_at ?T (b, 0) = ?T ! b ! 0" by (simp add: entry_at_def)
    have "?T ! b ! 0 \<in> set (concat ?T)" using b False by (auto intro!: bexI [of _ "?T ! b"])
    then have r: "releasable pd (entry_at ?T (b, 0))" using Suc.prems(1) unfolding at by blast
    obtain s1 where s1: "release_entry pd cpid (b, 0) hpid dirtied s = Inr s1"
      "user_buff_map s1 = (user_buff_map s)(cpid := hash_del ?T (b, 0))"
      using release_entry_eq [OF pd refl r] by blast
    obtain xs zs where "concat ?T = xs @ entry_at ?T (b, 0) # zs" "concat (hash_del ?T (b, 0)) = xs @ zs"
      using concat_hash_del [OF vp] by blast
    then have "set (concat (hash_del ?T (b, 0))) \<subseteq> set (concat ?T)" by auto
    then have "\<forall>e\<in>set (concat (user_buff_map s1 cpid)). releasable pd e" using Suc.prems(1) s1(2) by auto
    moreover have "Suc b + k \<le> length (user_buff_map s1 cpid)" using Suc.prems(2) s1(2) by (simp add: hash_del_head)
    ultimately obtain s' where "put_all pd cpid hpid dirtied (Suc b) k s1 = Inr s'"
      "user_buff_map s' = (user_buff_map s1)(cpid := take (Suc b) (user_buff_map s1 cpid) @
        map (drop 1) (take k (drop (Suc b) (user_buff_map s1 cpid))) @ drop (Suc b + k) (user_buff_map s1 cpid))"
      using Suc.IH by blast
    then have "user_buff_map s' = (user_buff_map s)(cpid := take b ?T @
        map (drop 1) (take (Suc k) (drop b ?T)) @ drop (b + Suc k) ?T)"
      by (simp only: s1(2) fun_upd_same fun_upd_upd hash_del_head heads_step [OF b])
    moreover have "put_all pd cpid hpid dirtied b (Suc k) s = put_all pd cpid hpid dirtied (Suc b) k s1"
      using s1(1) False by simp
    ultimately show ?thesis using \<open>put_all pd cpid hpid dirtied (Suc b) k s1 = Inr s'\<close> by metis
  qed
qed

text \<open>
  C15. \<open>tlb_put_user_pages_cpid\<close> releases only the first region of each bucket: with
  \<open>hash_del\<close> clearing the released node's \<open>next\<close>, \<open>hash_for_each\<close> moves to the next bucket
  after each release, so the context's table becomes \<open>map (drop 1)\<close> of itself and every
  region that shared a bucket with an earlier one stays pinned.
\<close>

theorem tlb_put_user_pages_cpid_heads:
  assumes pd: "pd_wf pd" and inv: "table_inv (hash_order pd) (user_buff_map s cpid)"
    and r: "\<forall>e\<in>set (concat (user_buff_map s cpid)). releasable pd e"
  shows "\<exists>s'. tlb_put_user_pages_cpid pd cpid hpid dirtied s = Inr (0, s') \<and>
    user_buff_map s' cpid = map (drop 1) (user_buff_map s cpid) \<and>
    (\<forall>c. c \<noteq> cpid \<longrightarrow> user_buff_map s' c = user_buff_map s c)"
proof -
  have len: "length (user_buff_map s cpid) = 2 ^ hash_order pd" using inv by (simp add: table_inv_def)
  obtain s' where "put_all pd cpid hpid dirtied 0 (2 ^ hash_order pd) s = Inr s'"
    "user_buff_map s' = (user_buff_map s)(cpid := map (drop 1) (user_buff_map s cpid))"
    using put_all_heads [OF pd r, of 0 "2 ^ hash_order pd" hpid dirtied] len by auto
  then show ?thesis by (simp add: tlb_put_user_pages_cpid_def)
qed

text \<open>
  C14. The scan test of \<open>tlb_put_user_pages\<close> is \<open>vaddr_tmp <= vaddr + n_pages\<close>, one past the
  region's last page: when the first region of the bucket ends exactly at the requested page,
  that region is released, whatever region actually holds the page.
\<close>

theorem tlb_put_user_pages_adjacent:
  assumes pd: "pd_wf pd"
    and b: "hash_64 (user_page pd vaddr) (hash_order pd) < length (user_buff_map s cpid)"
    and hd: "user_buff_map s cpid ! hash_64 (user_page pd vaddr) (hash_order pd) = f # rest"
    and ends: "up_vaddr f + up_n_pages f = user_page pd vaddr" and r: "releasable pd f"
  shows "\<exists>s'. tlb_put_user_pages pd vaddr cpid hpid dirtied s = Inr (0, s') \<and>
    user_buff_map s' cpid = (user_buff_map s cpid)[hash_64 (user_page pd vaddr) (hash_order pd) := rest]"
proof -
  let ?T = "user_buff_map s cpid" and ?b = "hash_64 (user_page pd vaddr) (hash_order pd)"
  have "no_wrap (up_vaddr f) (up_n_pages f)" using r by (simp add: releasable_def entry_wf_def)
  then have t: "up_vaddr f \<le> user_page pd vaddr" using ends by (simp add: no_wrap_def not_less)
  have at: "entry_at ?T (?b, 0) = f" using hd by (simp add: entry_at_def)
  obtain s' where s': "release_entry pd cpid (?b, 0) hpid dirtied s = Inr s'"
    "user_buff_map s' = (user_buff_map s)(cpid := hash_del ?T (?b, 0))"
    using release_entry_eq [OF pd at r] by blast
  then show ?thesis using hd t ends by (simp add: tlb_put_user_pages_def hash_del_head)
qed


subsection \<open>Witnesses\<close>

lemma ex_adj_hash:
  "user_page ex_pd 0x65000 = 101" "user_page ex_pd 0x66000 = 102"
  "hash_64 101 1 = 1" "hash_64 102 1 = 1" "hash_64 101 (Suc 0) = 1" "hash_64 102 (Suc 0) = 1" "hash_order ex_pd = 1"
  by code_simp+

lemma ex_adj_table: "user_buff_map ex_adj_state 0 = [[], [ex_left, ex_right]]"
  by code_simp


lemma ex_adj_facts:
  "pd_wf ex_pd" "releasable ex_pd ex_left" "releasable ex_pd ex_right"
  "up_vaddr ex_left = 101" "up_vaddr ex_right = 102" "up_n_pages ex_left = 1" "up_n_pages ex_right = 1"
  "up_pages ex_left = [0]"
  by (simp_all add: ex_pd_def pd_wf_def releasable_def entry_wf_def
      ex_left_def ex_right_def ex_region_def no_wrap_def tlb_pg_inc_def ex_adj_hash hash_add_def empty_table_def)

lemma ex_adj_inv: "table_inv (hash_order ex_pd) (user_buff_map ex_adj_state 0)"
  unfolding ex_adj_table by (simp add: ex_pd_def ex_left_def ex_right_def ex_region_def) code_simp

theorem tlb_put_user_pages_release_witness:
  "\<exists>s'. tlb_put_user_pages ex_pd 0x65000 0 42 False ex_adj_state = Inr (0, s') \<and>
     mset (concat (user_buff_map s' 0)) = {#ex_right#} \<and>
     table_inv (hash_order ex_pd) (user_buff_map s' 0) \<and>
     (\<forall>c. c \<noteq> 0 \<longrightarrow> user_buff_map s' c = user_buff_map ex_adj_state c) \<and>
     page_refs s' = put_pages (page_refs ex_adj_state) [0]"
proof -
  have e: "ex_left \<in> set (concat (user_buff_map ex_adj_state 0))" by (simp add: ex_adj_table)
  have ends: "\<forall>f\<in>set (concat (user_buff_map ex_adj_state 0)). up_vaddr f + up_n_pages f \<noteq> up_vaddr ex_left"
    by (simp add: ex_adj_facts ex_adj_hash ex_adj_table)
  have "user_page ex_pd 0x65000 = up_vaddr ex_left" by (simp add: ex_adj_facts ex_adj_hash ex_adj_table)
  from tlb_put_user_pages_release [OF ex_adj_facts(1) ex_adj_inv e this ex_adj_facts(2) ends, of 42 False]
  show ?thesis by (simp add: ex_adj_table ex_adj_facts(8))
qed

theorem tlb_put_user_pages_adjacent_witness:
  "unat (user_page ex_pd 0x66000) \<in> region_range ex_right \<and>
   (\<exists>s'. tlb_put_user_pages ex_pd 0x66000 0 42 False ex_adj_state = Inr (0, s') \<and>
     user_buff_map s' 0 = [[], [ex_right]])"
proof -
  have b: "hash_64 (user_page ex_pd 0x66000) (hash_order ex_pd) < length (user_buff_map ex_adj_state 0)"
    and hd: "user_buff_map ex_adj_state 0 ! hash_64 (user_page ex_pd 0x66000) (hash_order ex_pd) = ex_left # [ex_right]"
    and ends: "up_vaddr ex_left + up_n_pages ex_left = user_page ex_pd 0x66000"
    by (simp_all add: ex_adj_facts ex_adj_hash ex_adj_table)
  have "unat (user_page ex_pd 0x66000) \<in> region_range ex_right"
    by (simp add: ex_adj_facts ex_adj_hash region_range_def page_range_def)
  moreover have "(user_buff_map ex_adj_state 0)[hash_64 (user_page ex_pd 0x66000) (hash_order ex_pd) := [ex_right]] = [[], [ex_right]]"
    by (simp add: ex_adj_facts ex_adj_hash ex_adj_table)
  ultimately show ?thesis
    using tlb_put_user_pages_adjacent [OF ex_adj_facts(1) b hd ends ex_adj_facts(2), of 42 False] by simp
qed

theorem tlb_put_user_pages_cpid_heads_witness:
  "\<exists>s'. tlb_put_user_pages_cpid ex_pd 0 42 True ex_adj_state = Inr (0, s') \<and>
     user_buff_map s' 0 = [[], [ex_right]] \<and> (\<forall>c. c \<noteq> 0 \<longrightarrow> user_buff_map s' c = user_buff_map ex_adj_state c)"
proof -
  have "\<forall>e\<in>set (concat (user_buff_map ex_adj_state 0)). releasable ex_pd e"
    using ex_adj_table ex_adj_facts(2,3) by simp
  from tlb_put_user_pages_cpid_heads [OF ex_adj_facts(1) ex_adj_inv this, of 42 True]
  show ?thesis by (simp add: ex_adj_table)
qed

end
