(* ===== verification/RDMA_Wire.thy ===== *)
theory RDMA_Wire
  imports Prelude
begin

text \<open>
  The data that \<open>src/scripts/network/RDMA_server_v2.c\<close> exchanges and computes: the
  \<open>struct ibvQ\<close> queue descriptor (lines 52-75) as the 64 bytes \<open>read\<close> and \<open>write\<close> move
  over the socket on an x86-64 host (little-endian, pointers 8-byte aligned), the remote
  GID built from the peer's IPv4 address (lines 341-346), the local GID string that
  \<open>sprintf("%08x%08x%08x%08x")\<close> writes into \<open>gid[33]\<close> (line 373), the size of the
  registered buffer in \<open>uint32_t\<close> arithmetic (lines 151-153 and 367), and the 64 message
  bytes stored into the buffer (lines 530-593).
\<close>

section \<open>Definitions\<close>

subsection \<open>Little-endian bytes\<close>

type_synonym byte = "8 word"

text \<open>The \<open>n\<close> bytes of a word in memory order on a little-endian host, and back.\<close>

definition le_bytes :: "nat \<Rightarrow> 'a::len word \<Rightarrow> byte list" where
  "le_bytes n w = map (\<lambda>i. ucast (drop_bit (8 * i) w)) [0..<n]"

fun of_le :: "byte list \<Rightarrow> 'a::len word" where
  "of_le [] = 0"
| "of_le (b # bs) = ucast b OR push_bit 8 (of_le bs)"

text \<open>
  \<open>htonl\<close> on a little-endian host is glibc's \<open>__bswap_constant_32\<close>: the four bytes in
  reverse order.
\<close>

definition htonl :: "32 word \<Rightarrow> 32 word" where
  "htonl x = drop_bit 24 (x AND 0xFF000000) OR drop_bit 8 (x AND 0x00FF0000) OR
     push_bit 8 (x AND 0x0000FF00) OR push_bit 24 (x AND 0x000000FF)"

subsection \<open>The remote GID\<close>

text \<open>
  Lines 341-346: \<open>remote_gid = 0x0000FFFF00000000 | ip_addr\<close>, then the two halves are
  passed through \<open>htonl\<close> and swapped. Line 410 stores the result as the GID's
  \<open>interface_id\<close>; line 408 sets the \<open>subnet_prefix\<close> to 0.
\<close>

definition gid_transform :: "32 word \<Rightarrow> u64" where
  "gid_transform ip =
     (let g = (0x0000FFFF00000000 :: u64) OR ucast ip;
          high_part = htonl (ucast (drop_bit 32 g));
          low_part = htonl (ucast g AND 0xFFFFFFFF)
      in push_bit 32 (ucast low_part) OR ucast high_part)"

text \<open>The 16 raw bytes of \<open>ibv_gid_variable\<close> (lines 405-410).\<close>

definition dgid_raw :: "32 word \<Rightarrow> byte list" where
  "dgid_raw ip = le_bytes 8 (0 :: u64) @ le_bytes 8 (gid_transform ip)"

subsection \<open>The queue descriptor\<close>

text \<open>\<open>struct ibvQ\<close> (lines 52-75); \<open>vaddr\<close> is a pointer, \<open>gid\<close> a \<open>char[33]\<close>.\<close>

record ibvQ =
  q_ip_addr :: "32 word"
  q_qpn :: "32 word"
  q_psn :: "32 word"
  q_rkey :: "32 word"
  q_vaddr :: u64
  q_size :: "32 word"
  q_gid :: "byte list"

text \<open>
  The object representation that \<open>write(connfd, local_ibvQ, sizeof(struct ibvQ))\<close>
  sends (line 387): the fields at offsets 0, 4, 8, 12, 16, 24 and 28, then the three
  padding bytes that round \<open>sizeof\<close> up to 64. \<open>local_ibvQ\<close> comes from \<open>malloc\<close>, so
  the padding is whatever the heap held.
\<close>

definition ibvQ_bytes :: "byte list \<Rightarrow> ibvQ \<Rightarrow> byte list" where
  "ibvQ_bytes pad q = le_bytes 4 (q_ip_addr q) @ le_bytes 4 (q_qpn q) @ le_bytes 4 (q_psn q) @
     le_bytes 4 (q_rkey q) @ le_bytes 8 (q_vaddr q) @ le_bytes 4 (q_size q) @ q_gid q @ pad"

definition sizeof_ibvQ :: nat where
  "sizeof_ibvQ = 64"

text \<open>\<open>memcpy(remote_ibvQ, recv_buf, sizeof(struct ibvQ))\<close> (line 338), read field by field.\<close>

definition ibvQ_of_bytes :: "byte list \<Rightarrow> ibvQ" where
  "ibvQ_of_bytes bs =
     \<lparr>q_ip_addr = of_le (take 4 bs), q_qpn = of_le (take 4 (drop 4 bs)),
      q_psn = of_le (take 4 (drop 8 bs)), q_rkey = of_le (take 4 (drop 12 bs)),
      q_vaddr = of_le (take 8 (drop 16 bs)), q_size = of_le (take 4 (drop 24 bs)),
      q_gid = take 33 (drop 28 bs)\<rparr>"

subsection \<open>The local GID string\<close>

text \<open>
  \<open>printf\<close>'s \<open>%08x\<close>: eight lowercase hexadecimal digits, most significant first. The
  digits of \<open>n\<close> are built the way the conversion emits them.
\<close>

fun hex_digits :: "nat \<Rightarrow> nat \<Rightarrow> nat list" where
  "hex_digits 0 n = []"
| "hex_digits (Suc k) n = hex_digits k (n div 16) @ [n mod 16]"

definition hex_char :: "nat \<Rightarrow> byte" where
  "hex_char d = (if d < 10 then of_nat (48 + d) else of_nat (87 + d))"

definition hex8 :: "32 word \<Rightarrow> byte list" where
  "hex8 w = map hex_char (hex_digits 8 (unat w))"

text \<open>
  Line 373: \<open>sprintf(local_ibvQ->gid, "%08x%08x%08x%08x", ip, ip, ip, ip)\<close> writes the four
  conversions and the terminating NUL.
\<close>

definition sprintf_gid :: "32 word \<Rightarrow> byte list" where
  "sprintf_gid ip = hex8 ip @ hex8 ip @ hex8 ip @ hex8 ip @ [0]"

text \<open>Reading a \<open>%08x\<close> field back: the value of the hexadecimal digits.\<close>

definition hex_val :: "byte \<Rightarrow> nat" where
  "hex_val c = (if c \<le> 57 then unat c - 48 else unat c - 87)"

definition parse_hex :: "byte list \<Rightarrow> nat" where
  "parse_hex cs = foldl (\<lambda>acc c. acc * 16 + hex_val c) 0 cs"

subsection \<open>Helpers and acknowledgements\<close>

text \<open>Lines 77-79: \<open>gidToUint\<close> converts an \<open>int\<close> to \<open>uint32_t\<close>, modulo \<open>2^32\<close>.\<close>

definition gidToUint :: "int \<Rightarrow> 32 word" where
  "gidToUint idx = word_of_int idx"

text \<open>Lines 89-90: the acknowledgement values, \<open>const int\<close>s.\<close>

definition msgAck :: "32 word" where
  "msgAck = 1"

definition msgNAck :: "32 word" where
  "msgNAck = 0"

text \<open>
  Lines 313-314: \<open>int ack = msgAck; write(connfd, &ack, 1)\<close> sends the first byte of the
  object representation of the \<open>int\<close>.
\<close>

definition ack_byte :: "32 word \<Rightarrow> byte list" where
  "ack_byte a = take 1 (le_bytes 4 a)"

subsection \<open>The registered buffer\<close>

text \<open>
  Lines 91 and 151-153: \<open>hugePageSize\<close> is an \<open>int\<close>, \<open>max_size\<close> and \<open>n_pages\<close> are
  \<open>uint32_t\<close>, so \<open>max_size + hugePageSize - 1\<close>, the division and the product
  \<open>n_pages * hugePageSize\<close> passed to \<open>calloc\<close> are all computed modulo \<open>2^32\<close>.
\<close>

definition hugePageSize :: "32 word" where
  "hugePageSize = 0x200000"

definition n_pages_of :: "32 word \<Rightarrow> 32 word" where
  "n_pages_of max_size = (max_size + hugePageSize - 1) div hugePageSize"

definition buf_bytes :: "32 word \<Rightarrow> 32 word" where
  "buf_bytes max_size = n_pages_of max_size * hugePageSize"

subsection \<open>The message\<close>

text \<open>The 64 bytes stored by lines 530-593, \<open>hMem[0]\<close> first.\<close>

definition hello_msg :: "byte list" where
  "hello_msg = [0x48, 0x65, 0x6c, 0x6c, 0x6f, 0x2c, 0x20, 0x41, 0x4D, 0x44, 0x20, 0x4F, 0x48, 0x43, 0x21, 0x20,
                0x49, 0x20, 0x62, 0x6c, 0x6f, 0x63, 0x6b, 0x20, 0x6e, 0x65, 0x74, 0x77, 0x6f, 0x72, 0x6b, 0x20,
                0x74, 0x68, 0x72, 0x65, 0x61, 0x74, 0x73, 0x20, 0x62, 0x75, 0x74, 0x20, 0x74, 0x68, 0x69, 0x73,
                0x20, 0x69, 0x73, 0x20, 0x6e, 0x6f, 0x74, 0x20, 0x61, 0x20, 0x74, 0x68, 0x72, 0x65, 0x61, 0x74]"

text \<open>\<open>hMem[i] = b\<close> on a buffer of \<open>length mem\<close> bytes.\<close>

definition store_byte :: "byte list \<Rightarrow> nat \<Rightarrow> byte \<Rightarrow> byte list outcome" where
  "store_byte mem i b = (if i < length mem then Inr (mem[i := b]) else Inl Oob_write)"

fun store_bytes :: "byte list \<Rightarrow> nat \<Rightarrow> byte list \<Rightarrow> byte list outcome" where
  "store_bytes mem i [] = Inr mem"
| "store_bytes mem i (b # bs) = obind (store_byte mem i b) (\<lambda>mem'. store_bytes mem' (Suc i) bs)"

definition fill_hello :: "byte list \<Rightarrow> byte list outcome" where
  "fill_hello mem = store_bytes mem 0 hello_msg"

section \<open>Lemmas\<close>

lemma ack_byte_msgAck [simp]: "ack_byte msgAck = [1]"
  by (simp add: ack_byte_def le_bytes_def msgAck_def upt_conv_Cons)

lemma gidToUint_sint:
  "- (2 ^ 31) \<le> idx \<Longrightarrow> idx < 2 ^ 31 \<Longrightarrow> sint (gidToUint idx) = idx"
  by (simp add: gidToUint_def signed_of_int signed_take_bit_int_eq_self)

lemma length_le_bytes [simp]: "length (le_bytes n w) = n"
  by (simp add: le_bytes_def)

lemma byte_split: "(ucast (ucast (x::'a::len word) :: byte) :: 'a word) OR push_bit 8 (drop_bit 8 x) = x"
proof (rule bit_word_eqI)
  fix n assume "n < LENGTH('a)"
  then show "bit (ucast (ucast x :: byte) OR push_bit 8 (drop_bit 8 x)) n = bit x n"
    by (cases "n < 8") (auto simp: bit_simps)
qed

lemma of_le_upt:
  "LENGTH('a) \<le> 8 * (k + n) \<Longrightarrow>
   of_le (map (\<lambda>i. ucast (drop_bit (8 * i) (w::'a::len word))) [k..<k+n]) = drop_bit (8 * k) w"
proof (induction n arbitrary: k)
  case 0
  then show ?case by (simp add: drop_bit_eq_zero_iff_not_bit_last bit_iff_odd_drop_bit)
next
  case (Suc n)
  have "[k..<k + Suc n] = k # [Suc k..<Suc k + n]" by (simp add: upt_rec)
  moreover have "drop_bit (8 * Suc k) w = drop_bit 8 (drop_bit (8 * k) w)"
    by (simp add: drop_bit_drop_bit add.commute)
  ultimately show ?case using Suc.IH [of "Suc k"] Suc.prems byte_split [of "drop_bit (8 * k) w"] by simp
qed

lemma of_le_le_bytes [simp]: "LENGTH('a) \<le> 8 * n \<Longrightarrow> of_le (le_bytes n (w::'a::len word)) = w"
  using of_le_upt [of 0 n w] by (simp add: le_bytes_def)

lemma htonl_masks:
  "(0xFF000000 :: 32 word) = push_bit 24 (mask 8)" "(0x00FF0000 :: 32 word) = push_bit 16 (mask 8)"
  "(0x0000FF00 :: 32 word) = push_bit 8 (mask 8)" "(0x000000FF :: 32 word) = mask 8"
  by (simp_all add: mask_eq_exp_minus_1 push_bit_eq_mult)

lemma bit_htonl0:
  "bit (htonl x) n \<longleftrightarrow> (n < 8 \<and> bit x (n + 24)) \<or> (8 \<le> n \<and> n < 16 \<and> bit x (n + 8)) \<or>
      (16 \<le> n \<and> n < 24 \<and> bit x (n - 8)) \<or> (24 \<le> n \<and> n < 32 \<and> bit x (n - 24))"
  unfolding htonl_def htonl_masks bit_or_iff bit_drop_bit_eq bit_push_bit_iff bit_and_iff bit_mask_iff
  by (cases "n < 8"; cases "n < 16"; cases "n < 24"; cases "n < 32") (auto simp: possible_bit_def add.commute)

lemma byte_of_concat:
  assumes "k + 8 \<le> 32 \<or> 32 \<le> k"
  shows "(ucast (drop_bit k (push_bit 32 (ucast a) OR ucast b :: u64)) :: byte) =
    (if 32 \<le> k then ucast (drop_bit (k - 32) (a :: 32 word)) else ucast (drop_bit k (b :: 32 word)))"
proof (rule bit_word_eqI)
  fix n :: nat assume n: "n < LENGTH(8)"
  show "bit (ucast (drop_bit k (push_bit 32 (ucast a) OR ucast b :: u64)) :: byte) n =
    bit (if 32 \<le> k then ucast (drop_bit (k - 32) a) else ucast (drop_bit k b) :: byte) n"
    using assms n by (cases "32 \<le> k") (auto simp: bit_simps possible_bit_def add.commute dest: bit_imp_le_length)
qed

lemma le_bytes_concat:
  "le_bytes 8 (push_bit 32 (ucast a) OR ucast b :: u64) = le_bytes 4 (b :: 32 word) @ le_bytes 4 (a :: 32 word)"
proof -
  have "(ucast (push_bit 32 (ucast a) OR ucast b :: u64) :: byte) = ucast b"
    using byte_of_concat [of 0 a b] by simp
  then show ?thesis unfolding le_bytes_def by (simp add: upt_rec byte_of_concat del: drop_bit_or unsigned_or_eq)
qed

lemma gid_transform_eq: "gid_transform ip = push_bit 32 (ucast (htonl ip)) OR ucast (0xFFFF0000 :: 32 word)"
proof -
  have m: "(0x0000FFFF00000000 :: u64) = push_bit 32 (mask 16)" "(0xFFFFFFFF :: 32 word) = mask 32"
    by (simp_all add: mask_eq_exp_minus_1 push_bit_eq_mult)
  have hi: "(ucast (drop_bit 32 ((0x0000FFFF00000000 :: u64) OR ucast ip)) :: 32 word) = mask 16"
    unfolding m by (rule bit_word_eqI) (auto simp: bit_simps dest: bit_imp_le_length)
  have lo: "(ucast ((0x0000FFFF00000000 :: u64) OR ucast ip) :: 32 word) AND 0xFFFFFFFF = ip"
    unfolding m by (rule bit_word_eqI) (auto simp: bit_simps)
  have h: "htonl (mask 16) = 0xFFFF0000" by (simp add: htonl_def mask_eq_exp_minus_1)
  show ?thesis unfolding gid_transform_def Let_def hi lo h by simp
qed

lemma byte_htonl:
  assumes "i < 4"
  shows "(ucast (drop_bit (8 * i) (htonl x)) :: byte) = ucast (drop_bit (8 * (3 - i)) x)"
proof (rule bit_word_eqI)
  fix n :: nat assume n: "n < LENGTH(8)"
  then show "bit (ucast (drop_bit (8 * i) (htonl x)) :: byte) n = bit (ucast (drop_bit (8 * (3 - i)) x) :: byte) n"
  proof -
    have "i = 0 \<or> i = 1 \<or> i = 2 \<or> i = 3" using assms by auto
    then show ?thesis using n by (elim disjE) (auto simp: bit_simps bit_htonl0 possible_bit_def add.commute)
  qed
qed

lemma htonl_bytes: "le_bytes 4 (htonl x) = rev (le_bytes 4 x)"
  using byte_htonl [of 0 x] byte_htonl [of 1 x] byte_htonl [of 2 x] byte_htonl [of 3 x]
  unfolding le_bytes_def by (simp add: upt_rec)

lemma htonl_htonl: "htonl (htonl x) = x"
proof (rule bit_word_eqI)
  fix n :: nat assume "n < LENGTH(32)"
  then have "n < 8 \<or> (8 \<le> n \<and> n < 16) \<or> (16 \<le> n \<and> n < 24) \<or> (24 \<le> n \<and> n < 32)" by auto
  then show "bit (htonl (htonl x)) n = bit x n"
    by (elim disjE) (simp_all add: bit_htonl0 less_diff_conv2 le_diff_conv2)
qed

lemma gid_bytes: "le_bytes 8 (gid_transform ip) = [0, 0, 0xFF, 0xFF] @ rev (le_bytes 4 ip)"
proof -
  have "le_bytes 4 (0xFFFF0000 :: 32 word) = [0, 0, 0xFF, 0xFF]" by (simp add: le_bytes_def upt_rec)
  then show ?thesis unfolding gid_transform_eq le_bytes_concat htonl_bytes by simp
qed

text \<open>
  The peer's address can be read back from the transformed GID: \<open>htonl\<close> of its upper
  32 bits is the \<open>ip_addr\<close> the peer sent.
\<close>

theorem gid_roundtrip: "htonl (ucast (drop_bit 32 (gid_transform ip))) = ip"
proof -
  have "(ucast (drop_bit 32 (push_bit 32 (ucast (htonl ip)) OR ucast (0xFFFF0000 :: 32 word) :: u64)) :: 32 word) = htonl ip"
    by (rule bit_word_eqI) (auto simp: bit_simps dest: bit_imp_le_length)
  then show ?thesis by (simp only: gid_transform_eq htonl_htonl)
qed

text \<open>
  C22. The destination GID that lines 341-346 and 405-410 build from the peer's \<open>ip_addr\<close> is
  the IPv4-mapped IPv6 address \<open>::ffff:a.b.c.d\<close>: ten zero bytes, two \<open>0xFF\<close> bytes, and the
  address in network byte order (the reverse of its little-endian bytes).
\<close>

theorem dgid_ipv4_mapped: "dgid_raw ip = [0, 0, 0, 0, 0, 0, 0, 0, 0, 0, 0xFF, 0xFF] @ rev (le_bytes 4 ip)"
proof -
  have "le_bytes 8 (0 :: u64) = [0, 0, 0, 0, 0, 0, 0, 0]" by (simp add: le_bytes_def upt_rec)
  then show ?thesis by (simp add: dgid_raw_def gid_bytes)
qed

lemma ibvQ_roundtrip:
  assumes "length (q_gid q) = 33"
  shows "ibvQ_of_bytes (ibvQ_bytes pad q) = q"
  using assms by (simp add: ibvQ_of_bytes_def ibvQ_bytes_def)

lemma ibvQ_bytes_length: "length (q_gid q) = 33 \<Longrightarrow> length pad = 3 \<Longrightarrow> length (ibvQ_bytes pad q) = sizeof_ibvQ"
  by (simp add: ibvQ_bytes_def sizeof_ibvQ_def)

lemma length_hex_digits [simp]: "length (hex_digits k n) = k"
  by (induction k arbitrary: n) simp_all

lemma hex_val_char: "d < 16 \<Longrightarrow> hex_val (hex_char d) = d"
  by (simp add: less_Suc_eq numeral_eq_Suc; elim disjE; simp add: hex_val_def hex_char_def)

lemma hex_digits_bound: "d \<in> set (hex_digits k n) \<Longrightarrow> d < 16"
  by (induction k arbitrary: n) auto

lemma parse_hex_digits: "parse_hex (map hex_char (hex_digits k n)) = n mod 16 ^ k"
proof (induction k arbitrary: n)
  case 0
  then show ?case by (simp add: parse_hex_def)
next
  case (Suc k)
  have "parse_hex (map hex_char (hex_digits (Suc k) n)) = (n div 16 mod 16 ^ k) * 16 + n mod 16"
    using Suc.IH [of "n div 16"] by (simp add: parse_hex_def hex_val_char)
  also have "\<dots> = n mod 16 ^ Suc k" by (simp add: mod_mult2_eq mult.commute)
  finally show ?case .
qed

lemma hex8_roundtrip: "parse_hex (hex8 w) = unat w"
proof -
  have "unat w < 16 ^ 8" using unsigned_less [of w] by simp
  then show ?thesis by (simp add: hex8_def parse_hex_digits)
qed

lemma length_hex8 [simp]: "length (hex8 w) = 8"
  by (simp add: hex8_def)

lemma sprintf_gid_length: "length (sprintf_gid ip) = 33"
  by (simp add: sprintf_gid_def)

lemma sprintf_gid_fields: "j < 4 \<Longrightarrow> parse_hex (take 8 (drop (8 * j) (sprintf_gid ip))) = unat ip"
  by (simp add: less_Suc_eq numeral_eq_Suc; elim disjE; simp add: sprintf_gid_def hex8_roundtrip)

text \<open>
  \<open>sprintf(local_ibvQ->gid, "%08x%08x%08x%08x", ...)\<close> (line 373) writes exactly the 33
  bytes of \<open>gid[33]\<close>, the NUL included, and each of its four 8-digit fields reads back as the
  address.
\<close>

theorem sprintf_gid_fits:
  "length (sprintf_gid ip) = 33 \<and> (\<forall>j<4. parse_hex (take 8 (drop (8 * j) (sprintf_gid ip))) = unat ip)"
  using sprintf_gid_length sprintf_gid_fields by blast

lemma unat_n_pages_sum:
  "unat (max_size + hugePageSize - 1) =
     (if unat max_size \<le> 2 ^ 32 - 2 ^ 21 then unat max_size + (2 ^ 21 - 1) else unat max_size + (2 ^ 21 - 1) - 2 ^ 32)"
proof -
  have e: "max_size + hugePageSize - 1 = max_size + 0x1FFFFF" by (simp add: hugePageSize_def)
  have u: "unat (0x1FFFFF :: 32 word) = 2 ^ 21 - 1" by simp
  have lt: "unat max_size < 2 ^ 32" using unsigned_less [of max_size] by simp
  have "unat (max_size + 0x1FFFFF) = (unat max_size + (2 ^ 21 - 1)) mod 2 ^ 32"
    by (simp add: unat_word_ariths u)
  then show ?thesis unfolding e using lt by (auto simp: mod_if)
qed

lemma ceil_div_mult: "(0::nat) < k \<Longrightarrow> m \<le> (m + (k - 1)) div k * k"
proof -
  assume k: "0 < k"
  have "(m + (k - 1)) div k * k + (m + (k - 1)) mod k = m + (k - 1)" by (rule div_mult_mod_eq)
  moreover have "(m + (k - 1)) mod k < k" using k by simp
  ultimately show ?thesis by linarith
qed

lemma buf_bytes_unat:
  "unat (buf_bytes max_size) =
     (if unat max_size \<le> 2 ^ 32 - 2 ^ 21 then (unat max_size + (2 ^ 21 - 1)) div 2 ^ 21 * 2 ^ 21 else 0)"
proof -
  have h: "unat hugePageSize = 2 ^ 21" by (simp add: hugePageSize_def)
  have lt: "unat max_size < 2 ^ 32" using unsigned_less [of max_size] by simp
  have n: "unat (n_pages_of max_size) =
     (if unat max_size \<le> 2 ^ 32 - 2 ^ 21 then (unat max_size + (2 ^ 21 - 1)) div 2 ^ 21 else 0)"
    using lt by (simp add: n_pages_of_def unat_div h unat_n_pages_sum)
  have b: "(unat max_size + (2 ^ 21 - 1)) div 2 ^ 21 * 2 ^ 21 < (2 ^ 32 :: nat)" if "unat max_size \<le> 2 ^ 32 - 2 ^ 21"
  proof -
    have "(unat max_size + (2 ^ 21 - 1)) div 2 ^ 21 * 2 ^ 21 \<le> unat max_size + (2 ^ 21 - 1)"
      by (rule div_times_less_eq_dividend)
    then show ?thesis using that by simp
  qed
  show ?thesis using b by (simp add: buf_bytes_def unat_word_ariths n h)
qed

text \<open>
  C23. The buffer \<open>calloc\<close> allocates, \<open>n_pages * hugePageSize\<close> in \<open>uint32_t\<close> (lines
  151-153), covers the \<open>max_size\<close> bytes registered at line 161 exactly when
  \<open>max_size <= 2^32 - 2^21\<close>; above that the rounding sum wraps and the buffer is 0 bytes.
\<close>

theorem buf_bytes_covers: "max_size \<le> buf_bytes max_size \<longleftrightarrow> unat max_size \<le> 2 ^ 32 - 2 ^ 21"
proof (cases "unat max_size \<le> 2 ^ 32 - 2 ^ 21")
  case True
  then show ?thesis using ceil_div_mult [of "2 ^ 21" "unat max_size"]
    by (simp add: word_le_nat_alt buf_bytes_unat)
next
  case False
  then show ?thesis by (simp add: word_le_nat_alt buf_bytes_unat)
qed

lemma store_bytes_ok:
  "i + length bs \<le> length mem \<Longrightarrow> store_bytes mem i bs = Inr (take i mem @ bs @ drop (i + length bs) mem)"
proof (induction bs arbitrary: mem i)
  case Nil
  then show ?case by simp
next
  case (Cons b bs)
  have i: "i < length mem" using Cons.prems by simp
  have "store_bytes (mem[i := b]) (Suc i) bs =
      Inr (take (Suc i) (mem[i := b]) @ bs @ drop (Suc i + length bs) (mem[i := b]))"
    using Cons.prems by (intro Cons.IH) simp
  moreover have "take (Suc i) (mem[i := b]) = take i mem @ [b]" using i by (simp add: take_Suc_conv_app_nth)
  ultimately show ?case using i by (simp add: store_byte_def obind_def)
qed

lemma store_bytes_oob:
  "bs \<noteq> [] \<Longrightarrow> length mem < i + length bs \<Longrightarrow> store_bytes mem i bs = Inl Oob_write"
proof (induction bs arbitrary: mem i)
  case Nil
  then show ?case by simp
next
  case (Cons b bs)
  then show ?case using Cons.IH [of "mem[i := b]" "Suc i"]
    by (cases "i < length mem"; cases bs) (simp_all add: store_byte_def obind_def)
qed

lemma length_hello_msg [simp]: "length hello_msg = 64"
  by (simp add: hello_msg_def)

lemma fill_hello_ok: "64 \<le> length mem \<Longrightarrow> fill_hello mem = Inr (hello_msg @ drop 64 mem)"
  by (simp add: fill_hello_def store_bytes_ok)

lemma fill_hello_oob: "length mem < 64 \<Longrightarrow> fill_hello mem = Inl Oob_write"
proof -
  have "hello_msg \<noteq> []" using length_hello_msg by (metis list.size(3) zero_neq_numeral)
  then show "length mem < 64 \<Longrightarrow> fill_hello mem = Inl Oob_write" by (simp add: fill_hello_def store_bytes_oob)
qed

lemma hello_text: "map (\<lambda>b. char_of (unat b)) hello_msg = ''Hello, AMD OHC! I block network threats but this is not a threat''"
  by code_simp

lemma hello_first_word: "(of_le (take 8 (hello_msg @ rest)) :: u64) = 0x41202c6f6c6c6548"
  by (simp add: hello_msg_def)

text \<open>
  The 64 stores of lines 530-593 write the message into the first 64 bytes of the
  buffer and leave the rest; on a buffer of fewer than 64 bytes the first store past its
  end is an out-of-bounds write.
\<close>

theorem fill_hello_spec:
  "fill_hello mem = (if 64 \<le> length mem then Inr (hello_msg @ drop 64 mem) else Inl Oob_write)"
  using fill_hello_ok fill_hello_oob by (cases "64 \<le> length mem") simp_all

subsection \<open>Witnesses\<close>

theorem sprintf_gid_fits_witness:
  "length (sprintf_gid 0x0AFD4A5E) = 33 \<and> parse_hex (take 8 (drop 16 (sprintf_gid 0x0AFD4A5E))) = 184371806"
proof -
  have "length (sprintf_gid 0x0AFD4A5E) = 33 \<and>
      (\<forall>j<4. parse_hex (take 8 (drop (8 * j) (sprintf_gid 0x0AFD4A5E))) = unat (0x0AFD4A5E :: 32 word))"
    by (rule sprintf_gid_fits)
  then have l: "length (sprintf_gid 0x0AFD4A5E) = 33"
    and f: "\<forall>j<4. parse_hex (take 8 (drop (8 * j) (sprintf_gid 0x0AFD4A5E))) = unat (0x0AFD4A5E :: 32 word)"
    by blast+
  show ?thesis using l f [rule_format, of 2] by simp
qed

end
