(* ===== verification/RDMA_Server.thy ===== *)
theory RDMA_Server
  imports RDMA_Wire
begin

text \<open>
  \<open>main\<close> of \<open>src/scripts/network/RDMA_server_v2.c\<close> (lines 93-697) as a sequence of phases
  over an explicit state of its local variables. Every library call (libibverbs, the socket
  calls, \<open>calloc\<close>, \<open>malloc\<close>) is an input of the run: its result is a field of \<open>srv_env\<close>.
  A phase either falls through to the next one or takes one of the \<open>goto end\<close> jumps; the
  clean-up code after the label \<open>end:\<close> then runs on whatever state the jump left. A local
  declared after the jump point is indeterminate there (ISO C 6.8.6.1 allows the jump, and
  reading the variable is undefined), which the state records as \<open>Uninit\<close>.
\<close>

section \<open>Definitions\<close>

subsection \<open>Values, calls and faults\<close>

text \<open>An automatic variable: indeterminate until it is assigned.\<close>

datatype 'a cvar = Uninit | Val 'a

datatype qp_state = Qps_init | Qps_rtr | Qps_rts

datatype wr_opcode = Wr_rdma_write | Wr_rdma_read

text \<open>The \<open>ibv_sge\<close> and \<open>ibv_send_wr\<close> fields the program sets (lines 598-619).\<close>

record send_wr =
  wr_addr :: u64
  wr_length :: "32 word"
  wr_lkey :: "32 word"
  wr_opcode :: wr_opcode
  wr_remote_addr :: u64
  wr_rkey :: "32 word"

text \<open>The externally visible calls a run makes, in order.\<close>

datatype call =
    Reg_mr u64 "32 word"
  | Modify_qp qp_state int
  | Modify_rtr "32 word" "32 word" "byte list" int
  | Listen int
  | Sock_write int "byte list"
  | Close int
  | Post_send send_wr
  | Free u64
  | Destroy string u64

text \<open>How a run goes wrong: undefined behaviour or a crash.\<close>

datatype rdma_fault =
    Indeterminate string
  | Null_handle string
  | Invalid_free u64
  | Mem_fault fault

type_synonym 'a srv_result = "rdma_fault + 'a"

definition rbind :: "'a srv_result \<Rightarrow> ('a \<Rightarrow> 'b srv_result) \<Rightarrow> 'b srv_result" where
  "rbind x f = (case x of Inl e \<Rightarrow> Inl e | Inr a \<Rightarrow> f a)"

subsection \<open>Inputs and state\<close>

text \<open>The results of the library calls of one run; a pointer result of 0 is NULL.\<close>

record srv_env =
  e_dev_list :: u64
  e_context :: u64
  e_pd :: u64
  e_calloc :: u64
  e_mr :: u64
  e_mr_lkey :: "32 word"
  e_mr_rkey :: "32 word"
  e_channel :: u64
  e_cq :: u64
  e_qp :: u64
  e_qp_num :: "32 word"
  e_init_rc :: int
  e_socket :: int
  e_sockopt_rc :: int
  e_bind_rc :: int
  e_accept :: int
  e_read_qpid :: "byte list"
  e_write_ack :: int
  e_read_q :: "byte list"
  e_malloc_remote :: u64
  e_malloc_local :: u64
  e_local_pad :: "byte \<times> byte \<times> byte"
  e_write_q :: int
  e_query_gid_rc :: int
  e_rtr_rc :: int
  e_rts_rc :: int
  e_poll :: int

text \<open>The locals of \<open>main\<close> that the clean-up reads or the run sends.\<close>

record srv_state =
  s_context :: "u64 cvar"
  s_pd :: "u64 cvar"
  s_buf :: "u64 cvar"
  s_mem :: "byte list"
  s_mr :: "u64 cvar"
  s_channel :: "u64 cvar"
  s_cq :: "u64 cvar"
  s_qp :: "u64 cvar"
  s_connfd :: "int cvar"
  s_remote :: "ibvQ cvar"
  s_local :: "ibvQ cvar"
  s_trace :: "call list"

definition srv_init :: srv_state where
  "srv_init = \<lparr>s_context = Uninit, s_pd = Uninit, s_buf = Uninit, s_mem = [], s_mr = Uninit,
     s_channel = Uninit, s_cq = Uninit, s_qp = Uninit, s_connfd = Uninit, s_remote = Uninit,
     s_local = Uninit, s_trace = []\<rparr>"

text \<open>Lines 96-104: the parameters fixed in the source (\<open>ip_addr\<close> is declared \<open>uint32t\<close>).\<close>

definition srv_max_size :: "32 word" where
  "srv_max_size = 64"

definition srv_write_op :: bool where
  "srv_write_op = True"

definition srv_ip_addr :: "32 word" where
  "srv_ip_addr = 0"

subsection \<open>Phases\<close>

datatype flow = Cont | Goto_end

type_synonym phase = "srv_env \<Rightarrow> srv_state \<Rightarrow> (flow \<times> srv_state) srv_result"

definition seq_phase :: "phase \<Rightarrow> phase \<Rightarrow> phase" where
  "seq_phase p q env s =
     rbind (p env s) (\<lambda>(f, s'). if f = Cont then q env s' else Inr (Goto_end, s'))"

text \<open>Lines 117-148: device list, device context, protection domain.\<close>

definition open_device :: phase where
  "open_device env s =
     (if e_dev_list env = 0 then Inr (Goto_end, s)
      else let s1 = s\<lparr>s_context := Val (e_context env)\<rparr> in
      if e_context env = 0 then Inr (Goto_end, s1)
      else let s2 = s1\<lparr>s_pd := Val (e_pd env)\<rparr> in
      if e_pd env = 0 then Inr (Goto_end, s2) else Inr (Cont, s2))"

text \<open>
  Lines 150-168: \<open>calloc(1, n_pages*hugePageSize)\<close> (zeroed memory of that many bytes) and
  \<open>ibv_reg_mr(pd, buf, max_size, ...)\<close>.
\<close>

definition alloc_buffer :: phase where
  "alloc_buffer env s =
     (let s1 = s\<lparr>s_buf := Val (e_calloc env), s_mem := replicate (unat (buf_bytes srv_max_size)) 0\<rparr> in
      if e_calloc env = 0 then Inr (Goto_end, s1)
      else let s2 = s1\<lparr>s_mr := Val (e_mr env), s_trace := s_trace s1 @ [Reg_mr (e_calloc env) srv_max_size]\<rparr> in
      if e_mr env = 0 then Inr (Goto_end, s2) else Inr (Cont, s2))"

text \<open>Lines 170-230: completion channel, completion queue, queue pair, and the move to INIT.\<close>

definition create_queues :: phase where
  "create_queues env s =
     (let s1 = s\<lparr>s_channel := Val (e_channel env)\<rparr> in
      if e_channel env = 0 then Inr (Goto_end, s1)
      else let s2 = s1\<lparr>s_cq := Val (e_cq env)\<rparr> in
      if e_cq env = 0 then Inr (Goto_end, s2)
      else let s3 = s2\<lparr>s_qp := Val (e_qp env)\<rparr> in
      if e_qp env = 0 then Inr (Goto_end, s3)
      else let s4 = s3\<lparr>s_trace := s_trace s3 @ [Modify_qp Qps_init (e_init_rc env)]\<rparr> in
      if e_init_rc env = 0 then Inr (Cont, s4) else Inr (Goto_end, s4))"

text \<open>
  Lines 239-334: socket, \<open>SO_REUSEADDR\<close>, bind, the test \<open>sockfd < 0\<close> printed as a listen
  failure, \<open>listen\<close> with its result ignored, \<open>accept\<close>, then the three transfers. A short
  transfer closes \<open>connfd\<close> before the jump.
\<close>

definition accept_peer :: phase where
  "accept_peer env s =
     (if e_socket env = -1 then Inr (Goto_end, s)
      else if e_sockopt_rc env < 0 then Inr (Goto_end, s)
      else if e_bind_rc env < 0 then Inr (Goto_end, s)
      else if e_socket env < 0 then Inr (Goto_end, s)
      else let s1 = s\<lparr>s_trace := s_trace s @ [Listen (e_socket env)], s_connfd := Val (e_accept env)\<rparr> in
      if e_accept env < 0 then Inr (Goto_end, s1)
      else let fd = e_accept env; close = s1\<lparr>s_trace := s_trace s1 @ [Close fd]\<rparr> in
      if length (e_read_qpid env) \<noteq> 4 then Inr (Goto_end, close)
      else let s2 = s1\<lparr>s_trace := s_trace s1 @ [Sock_write fd (ack_byte msgAck)]\<rparr> in
      if e_write_ack env \<noteq> 1 then Inr (Goto_end, s2\<lparr>s_trace := s_trace s2 @ [Close fd]\<rparr>)
      else if length (e_read_q env) \<noteq> sizeof_ibvQ then Inr (Goto_end, s2\<lparr>s_trace := s_trace s2 @ [Close fd]\<rparr>)
      else Inr (Cont, s2))"

text \<open>The three padding bytes of \<open>struct ibvQ\<close>, in memory order.\<close>

fun pad_bytes :: "byte \<times> byte \<times> byte \<Rightarrow> byte list" where
  "pad_bytes (p0, p1, p2) = [p0, p1, p2]"

text \<open>
  Lines 336-394: copy the received bytes into a \<open>malloc\<close>'d \<open>ibvQ\<close> (neither \<open>malloc\<close> is
  checked), fill the local descriptor and send it.
\<close>

definition exchange_queues :: phase where
  "exchange_queues env s =
     (case (s_buf s, s_connfd s) of
        (Val buf, Val fd) \<Rightarrow>
          if e_malloc_remote env = 0 then Inl (Null_handle ''remote_ibvQ'')
          else let r = ibvQ_of_bytes (e_read_q env) in
          if e_malloc_local env = 0 then Inl (Null_handle ''local_ibvQ'')
          else let l = \<lparr>q_ip_addr = srv_ip_addr, q_qpn = e_qp_num env, q_psn = q_psn r,
                        q_rkey = e_mr_rkey env, q_vaddr = buf, q_size = buf_bytes srv_max_size,
                        q_gid = sprintf_gid srv_ip_addr\<rparr>;
                   s1 = s\<lparr>s_remote := Val r, s_local := Val l,
                          s_trace := s_trace s @ [Sock_write fd (ibvQ_bytes (pad_bytes (e_local_pad env)) l)]\<rparr> in
          if e_write_q env \<noteq> int sizeof_ibvQ then Inr (Goto_end, s1\<lparr>s_trace := s_trace s1 @ [Close fd]\<rparr>)
          else Inr (Cont, s1)
      | _ \<Rightarrow> Inl (Indeterminate ''buf''))"

text \<open>
  Lines 403-503: query the local GID (a failure jumps to the end), then move the queue pair
  to RTR with the peer's QPN, PSN and GID, and to RTS. The results of both moves are only
  printed: the \<open>goto end\<close> of both branches is commented out.
\<close>

definition connect_qp :: phase where
  "connect_qp env s =
     (case s_remote s of
        Val r \<Rightarrow>
          if e_query_gid_rc env \<noteq> 0 then Inr (Goto_end, s)
          else Inr (Cont, s\<lparr>s_trace := s_trace s @
                 [Modify_rtr (q_qpn r) (q_psn r) (dgid_raw (q_ip_addr r)) (e_rtr_rc env),
                  Modify_qp Qps_rts (e_rts_rc env)]\<rparr>)
      | Uninit \<Rightarrow> Inl (Indeterminate ''remote_ibvQ''))"

text \<open>
  Lines 517-659: store the message, build the work request for the peer's buffer, post it,
  and poll the completion queue once. \<open>ibv_poll_cq\<close> does not wait: when it returns no
  completion, \<open>wc\<close> is never written and line 655 reads \<open>wc.status\<close> uninitialised.
\<close>

definition post_write :: phase where
  "post_write env s =
     (case (s_buf s, s_remote s) of
        (Val buf, Val r) \<Rightarrow>
          (case fill_hello (s_mem s) of
             Inl f \<Rightarrow> Inl (Mem_fault f)
           | Inr mem \<Rightarrow>
               let wr = \<lparr>wr_addr = buf, wr_length = 64, wr_lkey = e_mr_lkey env,
                         wr_opcode = (if srv_write_op then Wr_rdma_write else Wr_rdma_read),
                         wr_remote_addr = q_vaddr r, wr_rkey = q_rkey r\<rparr>;
                   s1 = s\<lparr>s_mem := mem, s_trace := s_trace s @ [Post_send wr]\<rparr> in
               if e_poll env \<le> 0 then Inl (Indeterminate ''wc'') else Inr (Cont, s1))
      | _ \<Rightarrow> Inl (Indeterminate ''buf''))"

definition run_phases :: phase where
  "run_phases = seq_phase open_device (seq_phase alloc_buffer (seq_phase create_queues
     (seq_phase accept_peer (seq_phase exchange_queues (seq_phase connect_qp post_write)))))"

subsection \<open>Clean-up\<close>

text \<open>A handle passed to an \<open>ibv_destroy_*\<close> or \<open>ibv_dealloc_*\<close> call, which dereferences it.\<close>

definition destroy :: "string \<Rightarrow> u64 cvar \<Rightarrow> srv_state \<Rightarrow> srv_state srv_result" where
  "destroy name h s =
     (case h of Uninit \<Rightarrow> Inl (Indeterminate name)
      | Val p \<Rightarrow> if p = 0 then Inl (Null_handle name) else Inr (s\<lparr>s_trace := s_trace s @ [Destroy name p]\<rparr>))"

text \<open>
  Lines 675-680: \<open>if(buf != NULL) free((void*)*buf)\<close>. The argument is \<open>buf[0]\<close>, the first
  eight bytes of the buffer, not \<open>buf\<close>: \<open>free(NULL)\<close> does nothing, freeing the buffer's
  own address releases it, and any other value is not a pointer \<open>malloc\<close> returned.
\<close>

definition free_buf :: "srv_state \<Rightarrow> srv_state srv_result" where
  "free_buf s =
     (case s_buf s of
        Uninit \<Rightarrow> Inl (Indeterminate ''buf'')
      | Val b \<Rightarrow>
          if b = 0 then Inr s
          else if length (s_mem s) < 8 then Inl (Mem_fault Oob_read)
          else let v = (of_le (take 8 (s_mem s)) :: u64) in
          if v = 0 then Inr s
          else if v = b then Inr (s\<lparr>s_trace := s_trace s @ [Free b]\<rparr>)
          else Inl (Invalid_free v))"

text \<open>Lines 669-697: the clean-up after \<open>end:\<close>; \<open>sockfd\<close> is never closed.\<close>

definition cleanup :: "srv_state \<Rightarrow> (int \<times> srv_state) srv_result" where
  "cleanup s =
     rbind (free_buf s) (\<lambda>s.
     rbind (destroy ''qp'' (s_qp s) s) (\<lambda>s.
     rbind (destroy ''cq'' (s_cq s) s) (\<lambda>s.
     rbind (destroy ''comp_channel'' (s_channel s) s) (\<lambda>s.
     rbind (destroy ''mr'' (s_mr s) s) (\<lambda>s.
     rbind (destroy ''pd'' (s_pd s) s) (\<lambda>s.
     rbind (destroy ''context'' (s_context s) s) (\<lambda>s.
       case s_connfd s of Uninit \<Rightarrow> Inl (Indeterminate ''connfd'')
       | Val fd \<Rightarrow> Inr (0, s\<lparr>s_trace := s_trace s @ [Close fd]\<rparr>))))))))"

definition server_main :: "srv_env \<Rightarrow> (int \<times> srv_state) srv_result" where
  "server_main env = rbind (run_phases env srv_init) (\<lambda>(_, s). cleanup s)"

subsection \<open>Run conditions\<close>

text \<open>The library results under which each stage of \<open>main\<close> succeeds.\<close>

definition env_ok :: "srv_env \<Rightarrow> bool" where
  "env_ok env \<longleftrightarrow> e_dev_list env \<noteq> 0 \<and> e_context env \<noteq> 0 \<and> e_pd env \<noteq> 0 \<and> e_calloc env \<noteq> 0 \<and>
     e_mr env \<noteq> 0 \<and> e_channel env \<noteq> 0 \<and> e_cq env \<noteq> 0 \<and> e_qp env \<noteq> 0 \<and> e_init_rc env = 0 \<and>
     0 \<le> e_socket env \<and> 0 \<le> e_sockopt_rc env \<and> 0 \<le> e_bind_rc env \<and> 0 \<le> e_accept env \<and>
     length (e_read_qpid env) = 4 \<and> e_write_ack env = 1 \<and> length (e_read_q env) = sizeof_ibvQ \<and>
     e_malloc_remote env \<noteq> 0 \<and> e_malloc_local env \<noteq> 0 \<and> e_write_q env = int sizeof_ibvQ \<and>
     e_query_gid_rc env = 0"

definition devices_ok :: "srv_env \<Rightarrow> bool" where
  "devices_ok env \<longleftrightarrow> e_dev_list env \<noteq> 0 \<and> e_context env \<noteq> 0 \<and> e_pd env \<noteq> 0"

definition queues_ok :: "srv_env \<Rightarrow> bool" where
  "queues_ok env \<longleftrightarrow> e_calloc env \<noteq> 0 \<and> e_mr env \<noteq> 0 \<and> e_channel env \<noteq> 0 \<and> e_cq env \<noteq> 0 \<and>
     e_qp env \<noteq> 0 \<and> e_init_rc env = 0"

definition socket_ok :: "srv_env \<Rightarrow> bool" where
  "socket_ok env \<longleftrightarrow> 0 \<le> e_socket env \<and> 0 \<le> e_sockopt_rc env \<and> 0 \<le> e_bind_rc env"

text \<open>The calls of a run in which every stage succeeds.\<close>

definition ok_trace :: "srv_env \<Rightarrow> call list" where
  "ok_trace env =
     (let r = ibvQ_of_bytes (e_read_q env);
          l = \<lparr>q_ip_addr = srv_ip_addr, q_qpn = e_qp_num env, q_psn = q_psn r, q_rkey = e_mr_rkey env,
               q_vaddr = e_calloc env, q_size = buf_bytes srv_max_size, q_gid = sprintf_gid srv_ip_addr\<rparr>
      in [Reg_mr (e_calloc env) srv_max_size, Modify_qp Qps_init 0, Listen (e_socket env),
          Sock_write (e_accept env) [1], Sock_write (e_accept env) (ibvQ_bytes (pad_bytes (e_local_pad env)) l),
          Modify_rtr (q_qpn r) (q_psn r) (dgid_raw (q_ip_addr r)) (e_rtr_rc env), Modify_qp Qps_rts (e_rts_rc env),
          Post_send \<lparr>wr_addr = e_calloc env, wr_length = 64, wr_lkey = e_mr_lkey env, wr_opcode = Wr_rdma_write,
            wr_remote_addr = q_vaddr r, wr_rkey = q_rkey r\<rparr>])"

text \<open>No call of a trace is a \<open>free\<close>, and the buffer holds nothing, zeros, or the message.\<close>

definition no_free :: "call list \<Rightarrow> bool" where
  "no_free cs \<longleftrightarrow> (\<forall>c\<in>set cs. case c of Free _ \<Rightarrow> False | _ \<Rightarrow> True)"

definition free_inv :: "srv_state \<Rightarrow> bool" where
  "free_inv s \<longleftrightarrow> no_free (s_trace s) \<and>
     (s_mem s = [] \<or> s_mem s = replicate 2097152 0 \<or> s_mem s = hello_msg @ replicate 2097088 0)"

definition write_inv :: "srv_state \<Rightarrow> bool" where
  "write_inv s \<longleftrightarrow> (\<forall>c\<in>set (s_trace s). case c of Sock_write fd bs \<Rightarrow> length bs = 1 \<or> length bs = sizeof_ibvQ | _ \<Rightarrow> True)"

text \<open>A predicate on the state that a phase keeps.\<close>

definition phase_inv :: "(srv_state \<Rightarrow> bool) \<Rightarrow> phase \<Rightarrow> bool" where
  "phase_inv P p \<longleftrightarrow> (\<forall>env s f s'. P s \<longrightarrow> p env s = Inr (f, s') \<longrightarrow> P s')"

subsection \<open>Fixture\<close>

text \<open>A run against the peer 10.253.74.94 in which every call succeeds but the move to RTR.\<close>

definition ex_remote_q :: ibvQ where
  "ex_remote_q = \<lparr>q_ip_addr = 0x0AFD4A5E, q_qpn = 0x22, q_psn = 0x1234, q_rkey = 0x99,
     q_vaddr = 0x7F1000000000, q_size = 0x200000, q_gid = sprintf_gid 0x0AFD4A5E\<rparr>"

definition ex_env :: srv_env where
  "ex_env = \<lparr>e_dev_list = 0x1000, e_context = 0x2000, e_pd = 0x3000, e_calloc = 0x7F0000200000,
     e_mr = 0x4000, e_mr_lkey = 11, e_mr_rkey = 12, e_channel = 0x5000, e_cq = 0x6000, e_qp = 0x7000,
     e_qp_num = 0x11, e_init_rc = 0, e_socket = 3, e_sockopt_rc = 0, e_bind_rc = 0, e_accept = 4,
     e_read_qpid = [0x22, 0, 0, 0], e_write_ack = 1, e_read_q = ibvQ_bytes [0, 0, 0] ex_remote_q,
     e_malloc_remote = 0x8000, e_malloc_local = 0x9000, e_local_pad = (0, 0, 0), e_write_q = 64,
     e_query_gid_rc = 0, e_rtr_rc = -22, e_rts_rc = 0, e_poll = 1\<rparr>"

section \<open>Lemmas\<close>

lemma buf_bytes_src: "unat (buf_bytes srv_max_size) = 2097152"
  by (simp add: buf_bytes_unat srv_max_size_def)

lemma seq_phase_Cont: "p env s = Inr (Cont, s') \<Longrightarrow> seq_phase p q env s = q env s'"
  by (simp add: seq_phase_def rbind_def)

lemma seq_phase_Goto: "p env s = Inr (Goto_end, s') \<Longrightarrow> seq_phase p q env s = Inr (Goto_end, s')"
  by (simp add: seq_phase_def rbind_def)

lemma seq_phase_Inl: "p env s = Inl e \<Longrightarrow> seq_phase p q env s = Inl e"
  by (simp add: seq_phase_def rbind_def)

lemma run_phases_ok:
  assumes "env_ok env" "0 < e_poll env"
  shows "\<exists>s. run_phases env srv_init = Inr (Cont, s) \<and>
    s_buf s = Val (e_calloc env) \<and> s_mem s = hello_msg @ replicate 2097088 0 \<and> s_connfd s = Val (e_accept env) \<and>
    s_context s = Val (e_context env) \<and> s_pd s = Val (e_pd env) \<and> s_mr s = Val (e_mr env) \<and>
    s_channel s = Val (e_channel env) \<and> s_cq s = Val (e_cq env) \<and> s_qp s = Val (e_qp env) \<and>
    s_trace s = ok_trace env"
  using assms
  by (simp add: env_ok_def run_phases_def seq_phase_def rbind_def open_device_def alloc_buffer_def create_queues_def
      accept_peer_def exchange_queues_def connect_qp_def post_write_def fill_hello_ok srv_write_op_def
      srv_init_def buf_bytes_src ok_trace_def Let_def)

lemma of_le_zeros: "of_le (replicate n 0) = 0"
  by (induction n) simp_all

lemma server_main_Cont: "run_phases env srv_init = Inr (f, s) \<Longrightarrow> server_main env = cleanup s"
  by (simp add: server_main_def rbind_def)

lemma free_buf_msg:
  assumes "s_buf s = Val b" "b \<noteq> 0" "s_mem s = hello_msg @ rest" "b \<noteq> 0x41202c6f6c6c6548"
  shows "free_buf s = Inl (Invalid_free 0x41202c6f6c6c6548)"
  using assms hello_first_word [of rest] by (simp add: free_buf_def Let_def)

text \<open>
  C18. When every call succeeds and the poll sees a completion, the phases of \<open>main\<close> make
  exactly the calls of \<open>ok_trace\<close> and leave the message in the first 64 bytes of the
  buffer. The trace holds the RTR and RTS results as returned: a failed move to RTR or RTS
  (lines 482 and 501, their \<open>goto end\<close> commented out) still leads to the posted write.
\<close>

theorem server_transfer:
  assumes "env_ok env" "0 < e_poll env"
  shows "\<exists>s. run_phases env srv_init = Inr (Cont, s) \<and> s_trace s = ok_trace env \<and> take 64 (s_mem s) = hello_msg"
  using run_phases_ok [OF assms] by auto

text \<open>
  C16. On that path the clean-up calls \<open>free((void*)*buf)\<close> (line 677): it passes the first
  eight message bytes, \<open>"Hello, A"\<close> read as a little-endian pointer, to \<open>free\<close>. Unless
  \<open>calloc\<close> happened to return that very address, this is an invalid free.
\<close>

theorem server_main_invalid_free:
  assumes "env_ok env" "0 < e_poll env" "e_calloc env \<noteq> 0x41202c6f6c6c6548"
  shows "server_main env = Inl (Invalid_free 0x41202c6f6c6c6548)"
proof -
  obtain s where r: "run_phases env srv_init = Inr (Cont, s)" and b: "s_buf s = Val (e_calloc env)"
    and m: "s_mem s = hello_msg @ replicate 2097088 0"
    using run_phases_ok [OF assms(1,2)] by blast
  have "e_calloc env \<noteq> 0" using assms(1) by (simp add: env_ok_def)
  then have "free_buf s = Inl (Invalid_free 0x41202c6f6c6c6548)" using free_buf_msg [OF b _ m assms(3)] by blast
  then show ?thesis using server_main_Cont [OF r] by (simp add: cleanup_def rbind_def)
qed

text \<open>
  \<open>ibv_poll_cq\<close> (line 652) returns at once; when it reports no completion, line 655
  reads \<open>wc.status\<close> of an uninitialised \<open>wc\<close>.
\<close>

theorem server_main_no_completion:
  assumes "env_ok env" "e_poll env \<le> 0"
  shows "server_main env = Inl (Indeterminate ''wc'')"
  using assms
  by (simp add: server_main_def env_ok_def run_phases_def seq_phase_def rbind_def open_device_def alloc_buffer_def
      create_queues_def accept_peer_def exchange_queues_def connect_qp_def post_write_def fill_hello_ok
      srv_write_op_def srv_init_def buf_bytes_src Let_def)

text \<open>
  A failure of \<open>ibv_get_device_list\<close>, \<open>ibv_open_device\<close> or \<open>ibv_alloc_pd\<close> jumps over
  the initialisation of \<open>buf\<close> (line 153), and the clean-up's \<open>if(buf != NULL)\<close> reads it
  indeterminate.
\<close>

theorem server_main_early_exit:
  assumes "e_dev_list env = 0 \<or> e_context env = 0 \<or> e_pd env = 0"
  shows "server_main env = Inl (Indeterminate ''buf'')"
  using assms
  by (auto simp: server_main_def run_phases_def seq_phase_def rbind_def open_device_def srv_init_def
      cleanup_def free_buf_def Let_def)

text \<open>
  A failure of \<open>calloc\<close>, \<open>ibv_reg_mr\<close>, \<open>ibv_create_comp_channel\<close> or
  \<open>ibv_create_cq\<close> reaches the clean-up with \<open>qp\<close> never assigned, and \<open>ibv_destroy_qp(qp)\<close>
  (line 682) reads it indeterminate.
\<close>

theorem server_main_no_qp:
  assumes "devices_ok env" "e_calloc env = 0 \<or> e_mr env = 0 \<or> e_channel env = 0 \<or> e_cq env = 0"
  shows "server_main env = Inl (Indeterminate ''qp'')"
  using assms
  by (auto simp: devices_ok_def server_main_def run_phases_def seq_phase_def rbind_def open_device_def
      alloc_buffer_def create_queues_def srv_init_def cleanup_def free_buf_def destroy_def Let_def
      buf_bytes_src of_le_zeros min_def)

text \<open>
  Once the queue pair exists, a failed move to INIT or a failed \<open>socket\<close>,
  \<open>setsockopt\<close> or \<open>bind\<close> reaches \<open>close(connfd)\<close> (line 695) with \<open>connfd\<close> never assigned.
\<close>

theorem server_main_no_connfd:
  assumes "devices_ok env" "e_calloc env \<noteq> 0 \<and> e_mr env \<noteq> 0 \<and> e_channel env \<noteq> 0 \<and> e_cq env \<noteq> 0 \<and> e_qp env \<noteq> 0"
    "e_init_rc env \<noteq> 0 \<or> e_socket env < 0 \<or> e_sockopt_rc env < 0 \<or> e_bind_rc env < 0"
  shows "server_main env = Inl (Indeterminate ''connfd'')"
  using assms
  by (auto simp: devices_ok_def server_main_def run_phases_def seq_phase_def rbind_def open_device_def
      alloc_buffer_def create_queues_def accept_peer_def srv_init_def cleanup_def free_buf_def destroy_def Let_def
      buf_bytes_src of_le_zeros min_def)

text \<open>
  A short read of the peer's QPN closes \<open>connfd\<close> at line 303 and again at line 695,
  and \<open>main\<close> returns 0.
\<close>

theorem server_main_double_close:
  assumes "devices_ok env" "queues_ok env" "socket_ok env" "0 \<le> e_accept env" "length (e_read_qpid env) \<noteq> 4"
  shows "\<exists>s. server_main env = Inr (0, s) \<and>
    filter (\<lambda>c. c = Close (e_accept env)) (s_trace s) = [Close (e_accept env), Close (e_accept env)]"
  using assms
  by (simp add: devices_ok_def queues_ok_def socket_ok_def server_main_def run_phases_def seq_phase_def rbind_def
      open_device_def alloc_buffer_def create_queues_def accept_peer_def srv_init_def cleanup_def free_buf_def
      destroy_def Let_def buf_bytes_src of_le_zeros min_def)

lemma no_free_append [simp]: "no_free (xs @ ys) \<longleftrightarrow> no_free xs \<and> no_free ys"
  by (auto simp: no_free_def)

lemma no_free_Cons [simp]: "no_free (c # cs) \<longleftrightarrow> (case c of Free _ \<Rightarrow> False | _ \<Rightarrow> True) \<and> no_free cs"
  by (simp add: no_free_def)

lemma no_free_Nil [simp]: "no_free []"
  by (simp add: no_free_def)

lemma seq_phase_inv:
  assumes p: "phase_inv P p" and q: "phase_inv P q"
  shows "phase_inv P (seq_phase p q)"
  unfolding phase_inv_def
proof (intro allI impI)
  fix env s f s'
  assume inv: "P s" and r: "seq_phase p q env s = Inr (f, s')"
  show "P s'"
  proof (cases "p env s")
    case (Inl e)
    then show ?thesis using r by (simp add: seq_phase_def rbind_def)
  next
    case (Inr a)
    obtain f1 s1 where a: "a = (f1, s1)" by (cases a)
    have i1: "P s1" using p inv Inr a unfolding phase_inv_def by blast
    show ?thesis
    proof (cases "f1 = Cont")
      case True
      then have "q env s1 = Inr (f, s')" using r Inr a by (simp add: seq_phase_def rbind_def)
      then show ?thesis using q i1 unfolding phase_inv_def by blast
    next
      case False
      then show ?thesis using r Inr a i1 by (simp add: seq_phase_def rbind_def)
    qed
  qed
qed

lemma run_phases_keeps:
  assumes "phase_inv P open_device" "phase_inv P alloc_buffer" "phase_inv P create_queues"
    "phase_inv P accept_peer" "phase_inv P exchange_queues" "phase_inv P connect_qp" "phase_inv P post_write"
    and "P srv_init" and "run_phases env srv_init = Inr (f, s)"
  shows "P s"
proof -
  have "phase_inv P run_phases"
    unfolding run_phases_def using assms(1-7) by (intro seq_phase_inv)
  then show ?thesis using assms(8,9) by (auto simp: phase_inv_def)
qed

lemma free_inv_phases:
  "phase_inv free_inv open_device" "phase_inv free_inv alloc_buffer" "phase_inv free_inv create_queues"
  "phase_inv free_inv accept_peer" "phase_inv free_inv exchange_queues" "phase_inv free_inv connect_qp"
  by (auto simp: phase_inv_def free_inv_def open_device_def alloc_buffer_def create_queues_def accept_peer_def
      exchange_queues_def connect_qp_def buf_bytes_src Let_def split: cvar.splits if_splits)

lemma fill_hello_inv:
  "fill_hello mem = Inr m \<Longrightarrow> mem = [] \<or> mem = replicate 2097152 0 \<or> mem = hello_msg @ replicate 2097088 0 \<Longrightarrow>
   m = hello_msg @ replicate 2097088 0"
  by (auto simp: fill_hello_ok fill_hello_oob)

lemma free_inv_post_write: "phase_inv free_inv post_write"
  unfolding phase_inv_def free_inv_def post_write_def
  by (auto simp: Let_def dest!: fill_hello_inv split: cvar.splits if_splits sum.splits)

lemma run_phases_inv: "run_phases env srv_init = Inr (f, s) \<Longrightarrow> free_inv s"
  by (rule run_phases_keeps [OF free_inv_phases free_inv_post_write]) (simp add: free_inv_def srv_init_def)

lemma write_inv_append [simp]:
  "write_inv (s\<lparr>s_trace := s_trace s @ cs\<rparr>) \<longleftrightarrow> write_inv s \<and> write_inv (s\<lparr>s_trace := cs\<rparr>)"
  by (auto simp: write_inv_def)

lemma write_inv_fields [simp]:
  "write_inv (s\<lparr>s_context := x\<rparr>) = write_inv s" "write_inv (s\<lparr>s_pd := x\<rparr>) = write_inv s"
  "write_inv (s\<lparr>s_buf := y, s_mem := m\<rparr>) = write_inv s" "write_inv (s\<lparr>s_mr := x, s_trace := t\<rparr>) = write_inv (s\<lparr>s_trace := t\<rparr>)"
  "write_inv (s\<lparr>s_channel := x\<rparr>) = write_inv s" "write_inv (s\<lparr>s_cq := x\<rparr>) = write_inv s" "write_inv (s\<lparr>s_qp := x\<rparr>) = write_inv s"
  "write_inv (s\<lparr>s_trace := t, s_connfd := z\<rparr>) = write_inv (s\<lparr>s_trace := t\<rparr>)"
  "write_inv (s\<lparr>s_remote := q1, s_local := q2, s_trace := t\<rparr>) = write_inv (s\<lparr>s_trace := t\<rparr>)"
  "write_inv (s\<lparr>s_mem := m, s_trace := t\<rparr>) = write_inv (s\<lparr>s_trace := t\<rparr>)"
  by (simp_all add: write_inv_def)

lemma write_inv_phases:
  "phase_inv write_inv open_device" "phase_inv write_inv alloc_buffer" "phase_inv write_inv create_queues"
  "phase_inv write_inv accept_peer" "phase_inv write_inv connect_qp" "phase_inv write_inv post_write"
  by (auto simp: phase_inv_def open_device_def alloc_buffer_def create_queues_def accept_peer_def
      connect_qp_def post_write_def Let_def split: cvar.splits if_splits sum.splits)
    (auto simp: write_inv_def)

lemma length_pad_bytes [simp]: "length (pad_bytes p) = 3"
  by (cases p) simp

lemma write_inv_exchange: "phase_inv write_inv exchange_queues"
  by (auto simp: phase_inv_def exchange_queues_def Let_def split: cvar.splits if_splits)
    (auto simp: write_inv_def ibvQ_bytes_def sizeof_ibvQ_def sprintf_gid_length)

text \<open>
  C27. Every \<open>write\<close> on the connection in every run of the phases sends the byte count the
  code passes to it: one byte for the ACK (line 314), \<open>sizeof(struct ibvQ)\<close> for the
  descriptor (line 387), whatever the library calls return.
\<close>

theorem server_writes_sized:
  assumes "run_phases env srv_init = Inr (f, s)" "Sock_write fd bs \<in> set (s_trace s)"
  shows "length bs = 1 \<or> length bs = sizeof_ibvQ"
proof -
  have "write_inv s"
    by (rule run_phases_keeps [OF write_inv_phases(1-4) write_inv_exchange write_inv_phases(5,6) _ assms(1)])
      (simp add: write_inv_def srv_init_def)
  then show ?thesis using assms(2) unfolding write_inv_def by fastforce
qed

lemma destroy_Free: "destroy nm h s = Inr s' \<Longrightarrow> Free a \<in> set (s_trace s') \<Longrightarrow> Free a \<in> set (s_trace s)"
  by (auto simp: destroy_def split: cvar.splits if_splits)

lemma free_buf_Free:
  assumes "free_inv s" "free_buf s = Inr s'" "Free a \<in> set (s_trace s')"
  shows "a = 0x41202c6f6c6c6548"
proof -
  have nf: "Free a \<notin> set (s_trace s)" using assms(1) by (auto simp: free_inv_def no_free_def)
  obtain b where b: "s_buf s = Val b" "b \<noteq> 0" "8 \<le> length (s_mem s)" "of_le (take 8 (s_mem s)) = b"
    "s_trace s' = s_trace s @ [Free b]"
    using assms(2,3) nf by (auto simp: free_buf_def Let_def split: cvar.splits if_splits)
  then have "a = b" using assms(3) nf by auto
  moreover have "s_mem s = hello_msg @ replicate 2097088 0"
    using assms(1) b(2,3,4) by (auto simp: free_inv_def of_le_zeros min_def)
  ultimately show ?thesis using b(4) hello_first_word by metis
qed

lemma cleanup_Free:
  assumes "free_inv s" "cleanup s = Inr (r, s')" "Free a \<in> set (s_trace s')"
  shows "a = 0x41202c6f6c6c6548"
proof -
  obtain s1 where s1: "free_buf s = Inr s1" and c: "cleanup s = rbind (destroy ''qp'' (s_qp s1) s1) (\<lambda>s.
     rbind (destroy ''cq'' (s_cq s) s) (\<lambda>s.
     rbind (destroy ''comp_channel'' (s_channel s) s) (\<lambda>s.
     rbind (destroy ''mr'' (s_mr s) s) (\<lambda>s.
     rbind (destroy ''pd'' (s_pd s) s) (\<lambda>s.
     rbind (destroy ''context'' (s_context s) s) (\<lambda>s.
       case s_connfd s of Uninit \<Rightarrow> Inl (Indeterminate ''connfd'')
       | Val fd \<Rightarrow> Inr (0, s\<lparr>s_trace := s_trace s @ [Close fd]\<rparr>)))))))"
    using assms(2) by (auto simp: cleanup_def rbind_def split: sum.splits)
  have "Free a \<in> set (s_trace s1)"
    using assms(2,3) c by (auto simp: rbind_def dest!: destroy_Free split: sum.splits cvar.splits)
  then show ?thesis using free_buf_Free [OF assms(1) s1] by blast
qed

text \<open>
  C17. In every run of \<open>main\<close> that returns, the only address ever passed to \<open>free\<close> is
  \<open>0x41202c6f6c6c6548\<close>, the message bytes: the registered buffer is released only if
  \<open>calloc\<close> returned exactly that address, so in practice it always leaks. The proof is
  an invariant of every phase (\<open>free_inv\<close>: no \<open>free\<close> yet, and the buffer holds nothing,
  zeros or the message) and a case analysis of the clean-up.
\<close>

theorem server_main_frees_only_message:
  assumes "server_main env = Inr (r, s)" "Free a \<in> set (s_trace s)"
  shows "a = 0x41202c6f6c6c6548"
proof -
  obtain f s0 where "run_phases env srv_init = Inr (f, s0)" "cleanup s0 = Inr (r, s)"
    using assms(1) by (auto simp: server_main_def rbind_def split: sum.splits)
  then show ?thesis using cleanup_Free [OF run_phases_inv] assms(2) by blast
qed

subsection \<open>Witnesses\<close>

lemma ex_read_q: "ibvQ_of_bytes (e_read_q ex_env) = ex_remote_q" "length (e_read_q ex_env) = sizeof_ibvQ"
  using ibvQ_roundtrip [of ex_remote_q "[0, 0, 0]"] ibvQ_bytes_length [of ex_remote_q "[0, 0, 0]"]
  by (simp_all add: ex_env_def ex_remote_q_def sprintf_gid_length)

lemma ex_env_ok: "env_ok ex_env"
  using ex_read_q(2) unfolding env_ok_def sizeof_ibvQ_def by (simp add: ex_env_def)

lemma env_ok_upd:
  "env_ok env \<Longrightarrow> env_ok (env\<lparr>e_poll := n\<rparr>)"
  "env_ok env \<Longrightarrow> c \<noteq> 0 \<Longrightarrow> env_ok (env\<lparr>e_calloc := c\<rparr>)"
  by (simp_all add: env_ok_def)

theorem server_main_invalid_free_witness:
  "env_ok ex_env \<and> 0 < e_poll ex_env \<and> e_calloc ex_env \<noteq> 0x41202c6f6c6c6548 \<and>
   server_main ex_env = Inl (Invalid_free 0x41202c6f6c6c6548)"
proof -
  have "0 < e_poll ex_env" "e_calloc ex_env \<noteq> 0x41202c6f6c6c6548" by (simp_all add: ex_env_def)
  then show ?thesis using server_main_invalid_free [OF ex_env_ok] ex_env_ok by blast
qed

theorem server_main_no_completion_witness:
  "env_ok (ex_env\<lparr>e_poll := 0\<rparr>) \<and> server_main (ex_env\<lparr>e_poll := 0\<rparr>) = Inl (Indeterminate ''wc'')"
proof -
  have ok: "env_ok (ex_env\<lparr>e_poll := 0\<rparr>)" using env_ok_upd(1) [OF ex_env_ok] .
  show ?thesis using server_main_no_completion [OF ok] ok by simp
qed

theorem server_main_early_exit_witness:
  "server_main (ex_env\<lparr>e_pd := 0\<rparr>) = Inl (Indeterminate ''buf'')"
  using server_main_early_exit [of "ex_env\<lparr>e_pd := 0\<rparr>"] by simp

theorem server_main_no_qp_witness:
  "devices_ok (ex_env\<lparr>e_cq := 0\<rparr>) \<and> server_main (ex_env\<lparr>e_cq := 0\<rparr>) = Inl (Indeterminate ''qp'')"
proof -
  have ok: "devices_ok (ex_env\<lparr>e_cq := 0\<rparr>)" by (simp add: devices_ok_def ex_env_def)
  show ?thesis using server_main_no_qp [OF ok] ok by simp
qed

theorem server_main_no_connfd_witness:
  "devices_ok (ex_env\<lparr>e_bind_rc := -1\<rparr>) \<and> server_main (ex_env\<lparr>e_bind_rc := -1\<rparr>) = Inl (Indeterminate ''connfd'')"
proof -
  have ok: "devices_ok (ex_env\<lparr>e_bind_rc := -1\<rparr>)" by (simp add: devices_ok_def ex_env_def)
  have h: "e_calloc (ex_env\<lparr>e_bind_rc := -1\<rparr>) \<noteq> 0 \<and> e_mr (ex_env\<lparr>e_bind_rc := -1\<rparr>) \<noteq> 0 \<and>
      e_channel (ex_env\<lparr>e_bind_rc := -1\<rparr>) \<noteq> 0 \<and> e_cq (ex_env\<lparr>e_bind_rc := -1\<rparr>) \<noteq> 0 \<and> e_qp (ex_env\<lparr>e_bind_rc := -1\<rparr>) \<noteq> 0"
    by (simp add: ex_env_def)
  show ?thesis using server_main_no_connfd [OF ok h] ok by simp
qed

theorem server_main_double_close_witness:
  "\<exists>s. server_main (ex_env\<lparr>e_read_qpid := [0x22, 0]\<rparr>) = Inr (0, s) \<and>
     filter (\<lambda>c. c = Close 4) (s_trace s) = [Close 4, Close 4]"
proof -
  let ?e = "ex_env\<lparr>e_read_qpid := [0x22, 0]\<rparr>"
  have h: "devices_ok ?e" "queues_ok ?e" "socket_ok ?e" "0 \<le> e_accept ?e" "length (e_read_qpid ?e) \<noteq> 4"
    by (simp_all add: devices_ok_def queues_ok_def socket_ok_def ex_env_def)
  have "e_accept ?e = 4" by (simp add: ex_env_def)
  then show ?thesis using server_main_double_close [OF h] by simp
qed

theorem server_main_frees_only_message_witness:
  "\<exists>s. server_main (ex_env\<lparr>e_calloc := 0x41202c6f6c6c6548\<rparr>) = Inr (0, s) \<and>
     Free 0x41202c6f6c6c6548 \<in> set (s_trace s) \<and> (0x41202c6f6c6c6548 :: u64) = 0x41202c6f6c6c6548"
proof -
  let ?e = "ex_env\<lparr>e_calloc := 0x41202c6f6c6c6548\<rparr>"
  have ok: "env_ok ?e" "0 < e_poll ?e" using env_ok_upd(2) [OF ex_env_ok] by (simp_all add: ex_env_def)
  obtain s where r: "run_phases ?e srv_init = Inr (Cont, s)" and s: "s_buf s = Val 0x41202c6f6c6c6548"
    "s_mem s = hello_msg @ replicate 2097088 0" "s_connfd s = Val (e_accept ?e)"
    "s_context s = Val (e_context ?e)" "s_pd s = Val (e_pd ?e)" "s_mr s = Val (e_mr ?e)"
    "s_channel s = Val (e_channel ?e)" "s_cq s = Val (e_cq ?e)" "s_qp s = Val (e_qp ?e)"
    using run_phases_ok [OF ok] by auto
  have "free_buf s = Inr (s\<lparr>s_trace := s_trace s @ [Free 0x41202c6f6c6c6548]\<rparr>)"
    using s(1,2) hello_first_word [of "replicate 2097088 0"] by (simp add: free_buf_def Let_def)
  then obtain s' where "server_main ?e = Inr (0, s')" "Free 0x41202c6f6c6c6548 \<in> set (s_trace s')"
    using server_main_Cont [OF r] s by (auto simp: cleanup_def rbind_def destroy_def ex_env_def)
  then show ?thesis using server_main_frees_only_message by blast
qed

theorem server_transfer_witness:
  "env_ok ex_env \<and> 0 < e_poll ex_env \<and> e_rtr_rc ex_env = -22 \<and>
   (\<exists>s. run_phases ex_env srv_init = Inr (Cont, s) \<and> take 64 (s_mem s) = hello_msg \<and>
     last (s_trace s) = Post_send \<lparr>wr_addr = 0x7F0000200000, wr_length = 64, wr_lkey = 11,
       wr_opcode = Wr_rdma_write, wr_remote_addr = 0x7F1000000000, wr_rkey = 0x99\<rparr>)"
proof -
  have p: "0 < e_poll ex_env" "e_rtr_rc ex_env = -22" by (simp_all add: ex_env_def)
  obtain s where "run_phases ex_env srv_init = Inr (Cont, s)" "s_trace s = ok_trace ex_env" "take 64 (s_mem s) = hello_msg"
    using server_transfer [OF ex_env_ok p(1)] by blast
  moreover have "last (ok_trace ex_env) = Post_send \<lparr>wr_addr = 0x7F0000200000, wr_length = 64, wr_lkey = 11,
       wr_opcode = Wr_rdma_write, wr_remote_addr = 0x7F1000000000, wr_rkey = 0x99\<rparr>"
    by (simp add: ok_trace_def Let_def ex_read_q) (simp add: ex_env_def ex_remote_q_def)
  ultimately show ?thesis using ex_env_ok p by auto
qed

theorem server_writes_sized_witness:
  "\<exists>s. run_phases ex_env srv_init = Inr (Cont, s) \<and> Sock_write 4 [1] \<in> set (s_trace s) \<and>
     (length [1 :: byte] = 1 \<or> length [1 :: byte] = sizeof_ibvQ)"
proof -
  obtain s where r: "run_phases ex_env srv_init = Inr (Cont, s)" and t: "s_trace s = ok_trace ex_env"
    using run_phases_ok [OF ex_env_ok] by (auto simp: ex_env_def)
  have w: "Sock_write 4 [1] \<in> set (s_trace s)" unfolding t by (simp add: ok_trace_def Let_def ex_env_def)
  have "length [1 :: byte] = 1 \<or> length [1 :: byte] = sizeof_ibvQ" by (rule server_writes_sized [OF r w])
  then show ?thesis using r w by blast
qed

end
