(* ===== verification/Bench_Setup.thy ===== *)
theory Bench_Setup
  imports RDMA_Wire
begin

text \<open>
  The set-up code that the two RDMA examples of Coyote share,
  \<open>src/artifacts/coyote-experiments/sw/examples/perf_rdma/main.cpp\<close> and
  \<open>src/artifacts/coyote-experiments/sw/examples/rdma_receiver/main.cpp\<close> (lines 30-124 of
  both files are the same): the signal flag, the parameters read from the command line and
  the environment, the creation and exchange of the queue pair, the polling loops on the
  queue pair's completion counters, the C
  \<open>for\<close> loops on 32-bit counters, and the stores that fill the registered buffer.

  A run returns \<open>(bench_fault + 'a) option\<close>: \<open>None\<close> when it does not return (a loop that
  runs forever, or a wait whose counter never reaches its threshold on the observed
  events), \<open>Some (Inl e)\<close> when it throws or has undefined behaviour, \<open>Some (Inr a)\<close>
  otherwise. The library of the queue pair (\<open>ibvQpMap\<close>, \<open>ibvQpConn\<close>) is not in the
  repository: each call is recorded in a trace, and the values its counters return are
  inputs of the run.
\<close>

section \<open>Definitions\<close>

subsection \<open>Runs\<close>

text \<open>
  How a run ends abnormally: the \<open>runtime_error\<close>s it throws (lines 89-90, 154, 246,
  269, 285, 331), a signed \<open>int\<close> overflow, or an access outside the buffer.
\<close>

datatype bench_fault = No_ibv_ip | Stalled | Int_overflow | Mem fault

type_synonym 'a brun = "(bench_fault, 'a) prun"

definition bret :: "'a \<Rightarrow> 'a brun" where
  "bret a = Some (Inr a)"

text \<open>A store or load of the buffer, with its out-of-bounds outcome.\<close>

definition bmem :: "'a outcome \<Rightarrow> 'a brun" where
  "bmem x = (case x of Inl f \<Rightarrow> Some (Inl (Mem f)) | Inr a \<Rightarrow> Some (Inr a))"

subsection \<open>C \<open>for\<close> loops on 32-bit counters\<close>

text \<open>
  \<open>for (i = i0; cond i; i++) body\<close> where the counter is 32 bits wide: an \<open>int\<close> counter
  compared with a \<open>uint32_t\<close> bound is converted to unsigned, so \<open>cond\<close> reads its bit
  pattern; \<open>ovf i\<close> says that \<open>i++\<close> overflows a signed counter (\<open>i = INT_MAX\<close>), which is
  undefined; an unsigned counter wraps and \<open>ovf\<close> is never true. The loop may run forever.
\<close>

partial_function (option) c_loop ::
  "(32 word \<Rightarrow> bool) \<Rightarrow> (32 word \<Rightarrow> bool) \<Rightarrow> (32 word \<Rightarrow> 's \<Rightarrow> 's brun) \<Rightarrow> 32 word \<Rightarrow> 's \<Rightarrow> 's brun"
where
  "c_loop cond ovf body i s =
     (if cond i then pbind (body i s) (\<lambda>s'. if ovf i then Some (Inl Int_overflow) else c_loop cond ovf body (i + 1) s')
      else bret s)"

declare c_loop.simps [code]

definition int_max :: "32 word" where
  "int_max = 0x7FFFFFFF"

text \<open>\<open>for (int i = 0; i < n; i++)\<close> with \<open>n\<close> a \<open>uint32_t\<close>.\<close>

definition for_int_lt :: "32 word \<Rightarrow> (32 word \<Rightarrow> 's \<Rightarrow> 's brun) \<Rightarrow> 's \<Rightarrow> 's brun" where
  "for_int_lt n body s = c_loop (\<lambda>i. i < n) (\<lambda>i. i = int_max) body 0 s"

text \<open>\<open>for (uint32_t n = 1; n <= bound; n++)\<close>: the counter wraps, so \<open>bound = UINT32_MAX\<close> never ends.\<close>

definition for_uint_le :: "32 word \<Rightarrow> (32 word \<Rightarrow> 's \<Rightarrow> 's brun) \<Rightarrow> 's \<Rightarrow> 's brun" where
  "for_uint_le bound body s = c_loop (\<lambda>n. n \<le> bound) (\<lambda>_. False) body 1 s"

text \<open>\<open>for (int n = 1; n <= bound; n++)\<close> with \<open>bound\<close> a \<open>uint32_t\<close>.\<close>

definition for_int_le :: "32 word \<Rightarrow> (32 word \<Rightarrow> 's \<Rightarrow> 's brun) \<Rightarrow> 's \<Rightarrow> 's brun" where
  "for_int_le bound body s = c_loop (\<lambda>n. n \<le> bound) (\<lambda>n. n = int_max) body 1 s"

subsection \<open>Parameters\<close>

text \<open>Lines 42-47: the defaults of the benchmark parameters.\<close>

text \<open>Lines 37-39: the queue pair's identifiers and the TCP port of the exchange.\<close>

definition targetRegion :: int where "targetRegion = 0"
definition qpId :: int where "qpId = 0"
definition port :: int where "port = 18488"

definition defNBenchRuns :: "32 word" where "defNBenchRuns = 1"
definition defNRepsThr :: "32 word" where "defNRepsThr = 1000"
definition defNRepsLat :: "32 word" where "defNRepsLat = 100"
definition defMinSize :: "32 word" where "defMinSize = 128"
definition defMaxSize :: "32 word" where "defMaxSize = 32 * 1024"
definition defOper :: bool where "defOper = False"

text \<open>
  Lines 63-75: the options given on the command line, as \<open>boost::program_options\<close>
  stores them (\<open>count(name) > 0\<close> is \<open>\<noteq> None\<close>).
\<close>

record bench_args =
  a_tcpaddr :: "string option"
  a_benchruns :: "32 word option"
  a_repst :: "32 word option"
  a_repsl :: "32 word option"
  a_mins :: "32 word option"
  a_maxs :: "32 word option"
  a_oper :: "bool option"

text \<open>Lines 78-91: the locals holding the parameters of the run.\<close>

record bench_params =
  p_tcp_mstr_ip :: string
  p_n_bench_runs :: "32 word"
  p_n_reps_thr :: "32 word"
  p_n_reps_lat :: "32 word"
  p_min_size :: "32 word"
  p_max_size :: "32 word"
  p_oper :: bool
  p_mstr :: bool
  p_ibv_ip :: string

definition opt_or :: "'a \<Rightarrow> 'a option \<Rightarrow> 'a" where
  "opt_or d x = (case x of None \<Rightarrow> d | Some v \<Rightarrow> v)"

text \<open>
  Lines 77-103: the defaults, the IP address from \<open>DEVICE_1_IP_ADDRESS_0\<close> (a missing
  variable throws), then each option given overrides its default; \<open>--tcpaddr\<close> makes the
  run the slave.
\<close>

definition read_params :: "string option \<Rightarrow> bench_args \<Rightarrow> bench_params brun" where
  "read_params env_ip args =
     (case env_ip of None \<Rightarrow> Some (Inl No_ibv_ip)
      | Some ip \<Rightarrow> bret
          \<lparr>p_tcp_mstr_ip = opt_or [] (a_tcpaddr args),
           p_n_bench_runs = opt_or defNBenchRuns (a_benchruns args),
           p_n_reps_thr = opt_or defNRepsThr (a_repst args),
           p_n_reps_lat = opt_or defNRepsLat (a_repsl args),
           p_min_size = opt_or defMinSize (a_mins args),
           p_max_size = opt_or defMaxSize (a_maxs args),
           p_oper = opt_or defOper (a_oper args),
           p_mstr = (a_tcpaddr args = None),
           p_ibv_ip = ip\<rparr>)"

text \<open>
  Line 105: \<open>n_pages\<close> in \<open>uint32_t\<close> arithmetic. \<open>hugePageSize\<close> comes from Coyote's
  \<open>cDefs.hpp\<close>, outside the repository; it is \<open>1 << 21\<close> there as in the RDMA server,
  whose definition \<open>RDMA_Wire.hugePageSize\<close> is used.
\<close>

definition bench_n_pages :: "bench_params \<Rightarrow> 32 word" where
  "bench_n_pages p = n_pages_of (p_max_size p)"

subsection \<open>Queue-pair calls and completion counters\<close>

datatype bench_op = Ibv_write | Ibv_read

datatype counter = Done | Sent

text \<open>The calls a run makes on \<open>ibvQpMap\<close> and \<open>ibvQpConn\<close>, in order.\<close>

datatype qp_call =
    Add_qpair int int string "32 word"
  | Exchange_master int
  | Exchange_slave string int
  | Ibv_sync bool
  | Ibv_clear
  | Post_send bench_op "32 word"
  | Wait counter "32 word"
  | Send_ack "32 word"
  | Close_ack
  | Read_ack
  | Close_connection

text \<open>
  What the environment does while a run polls: \<open>Poll d\<close> is the value the next call of
  \<open>ibvDone()\<close> or \<open>ibvSent()\<close> returns, \<open>Sigint\<close> a delivery of SIGINT, whose handler
  \<open>gotInt\<close> (lines 30-34) sets \<open>stalled\<close>.
\<close>

datatype bench_event = Poll "32 word" | Sigint

record bench_state =
  b_stalled :: bool
  b_events :: "bench_event list"
  b_trace :: "qp_call list"
  b_mem :: "byte list"

text \<open>
  \<open>while (iqp->ibvDone() < n) { if (stalled.load()) throw ...; }\<close> (lines 154, 246, 269,
  285 and 325-332) and, with \<open>chk = False\<close>, the loop of line 310 that never reads the
  flag. It does not return when the events end before the counter reaches \<open>n\<close>.
\<close>

fun poll_until :: "bool \<Rightarrow> 32 word \<Rightarrow> bool \<Rightarrow> bench_event list \<Rightarrow> (bool \<times> bench_event list) brun" where
  "poll_until chk n st [] = None"
| "poll_until chk n st (Sigint # evs) = poll_until chk n True evs"
| "poll_until chk n st (Poll d # evs) =
     (if d < n then (if chk \<and> st then Some (Inl Stalled) else poll_until chk n st evs)
      else bret (st, evs))"

definition wait_for :: "bool \<Rightarrow> counter \<Rightarrow> 32 word \<Rightarrow> 'a bench_state_scheme \<Rightarrow> 'a bench_state_scheme brun" where
  "wait_for chk c n s =
     pbind (poll_until chk n (b_stalled s) (b_events s))
       (\<lambda>(st, evs). bret (s\<lparr>b_stalled := st, b_events := evs, b_trace := b_trace s @ [Wait c n]\<rparr>))"

text \<open>
  Lines 119-121: \<open>addQpair(qpId, targetRegion, ibv_ip, n_pages)\<close>, then the exchange of
  the queue pair over TCP, as the master on \<open>port\<close> or as the slave connecting to
  \<open>tcp_mstr_ip:port\<close>.
\<close>

definition qp_setup :: "bench_params \<Rightarrow> qp_call list" where
  "qp_setup p =
     [Add_qpair qpId targetRegion (p_ibv_ip p) (bench_n_pages p),
      (if p_mstr p then Exchange_master port else Exchange_slave (p_tcp_mstr_ip p) port)]"

definition qp_do :: "qp_call \<Rightarrow> 'a bench_state_scheme \<Rightarrow> 'a bench_state_scheme" where
  "qp_do c s = s\<lparr>b_trace := b_trace s @ [c]\<rparr>"

subsection \<open>Filling the buffer\<close>

text \<open>The 64 bytes \<open>perf_rdma\<close> stores in each block (lines 144-207).\<close>

definition perf_pattern :: "byte list" where
  "perf_pattern =
     [0x3b, 0x29, 0x6e, 0x17, 0xc2, 0x9e, 0x0c, 0xd2, 0x65, 0x2b, 0x7b, 0xaf, 0xeb, 0xba, 0xc9, 0xb5,
      0x41, 0x63, 0x04, 0xd0, 0xd8, 0x24, 0xf7, 0x52, 0x20, 0x4f, 0xc3, 0xaf, 0x86, 0x3e, 0x10, 0xd7,
      0xbc, 0x39, 0xa6, 0xeb, 0x9a, 0xef, 0x8e, 0x75, 0xa6, 0xf1, 0x4f, 0xc5, 0x3f, 0x89, 0x1e, 0x25,
      0xd5, 0x3e, 0x21, 0x7c, 0x54, 0xf1, 0x54, 0x87, 0x71, 0xd6, 0x7c, 0x6b, 0xe2, 0x19, 0x7e, 0xd1]"

text \<open>
  \<open>perf_rdma\<close>, lines 144-207: the 64 stores of block \<open>i\<close>. The index \<open>64*i\<close> is computed
  in \<open>int\<close>: it overflows once \<open>i \<ge> 2^25\<close>.
\<close>

definition perf_block :: "32 word \<Rightarrow> byte list \<Rightarrow> byte list brun" where
  "perf_block i mem =
     (if 0x2000000 \<le> i then Some (Inl Int_overflow) else bmem (store_bytes mem (64 * unat i) perf_pattern))"

text \<open>\<open>perf_rdma\<close>, lines 143-213: the blocks \<open>i < max_size/64\<close>.\<close>

definition fill_perf :: "32 word \<Rightarrow> byte list \<Rightarrow> byte list brun" where
  "fill_perf max_sz mem = for_int_lt (max_sz div 64) perf_block mem"

text \<open>
  \<open>rdma_receiver\<close>, lines 146-149: \<open>hMem[i*8+j] = 1\<close> for \<open>j < 8\<close> (\<open>i*8+j < 2^29\<close>, no
  overflow).
\<close>

definition recv_block :: "32 word \<Rightarrow> byte list \<Rightarrow> byte list brun" where
  "recv_block i mem = for_int_lt 8 (\<lambda>j m. bmem (store_byte m (unat (i * 8 + j)) 1)) mem"

text \<open>\<open>rdma_receiver\<close>, lines 145-150: the rows \<open>i < max_size/64\<close>.\<close>

definition fill_recv :: "32 word \<Rightarrow> byte list \<Rightarrow> byte list brun" where
  "fill_recv max_sz mem = for_int_lt (max_sz div 64) recv_block mem"

text \<open>
  \<open>rdma_receiver\<close>, line 156: \<open>string mem_content(hMem)\<close> copies the bytes up to the first
  NUL; a buffer without one is read past its end.
\<close>

definition c_string :: "byte list \<Rightarrow> byte list brun" where
  "c_string mem = (if 0 \<in> set mem then bret (takeWhile (\<lambda>b. b \<noteq> 0) mem) else Some (Inl (Mem Oob_read)))"

section \<open>Lemmas\<close>

subsection \<open>Parameters\<close>

lemma read_params_sizes:
  "read_params ip args = Some (Inr p) \<Longrightarrow>
     p_min_size p = opt_or defMinSize (a_mins args) \<and> p_max_size p = opt_or defMaxSize (a_maxs args)"
  by (auto simp: read_params_def bret_def split: option.splits)

subsection \<open>Loops as folds\<close>

lemma unat_lt_2p32: "unat (w :: 32 word) < 2 ^ 32"
  using unsigned_less [where 'a = nat and w = w] by simp

lemma c_loop_pfold:
  assumes cond: "\<And>j. j < 2 ^ 32 \<Longrightarrow> cond (word_of_nat j :: 32 word) \<longleftrightarrow> j < m"
    and ovf: "\<And>j. j < m \<Longrightarrow> \<not> ovf (word_of_nat j :: 32 word)"
    and m: "m < 2 ^ 32"
  shows "c_loop cond ovf body i s = pfold body (map word_of_nat [unat i..<m]) s"
proof (induction "m - unat i" arbitrary: i s rule: less_induct)
  case less
  have ci: "cond i \<longleftrightarrow> unat i < m"
    using cond [of "unat i"] unat_lt_2p32 [of i] by simp
  show ?case
  proof (cases "unat i < m")
    case True
    have no: "\<not> ovf i" using ovf [OF True] by simp
    have "unat (i + 1) = Suc (unat i)"
      using True m by (simp add: unat_add_lem [THEN iffD1])
    then have next_eq: "c_loop cond ovf body (i + 1) s' = pfold body (map word_of_nat [Suc (unat i)..<m]) s'" for s'
      using less.hyps [of "i + 1"] True by simp
    have "[unat i..<m] = unat i # [Suc (unat i)..<m]" using True by (simp add: upt_conv_Cons)
    then show ?thesis
      using True ci no next_eq by (subst c_loop.simps) simp
  next
    case False
    then show ?thesis using ci by (subst c_loop.simps) (simp add: bret_def)
  qed
qed


lemma unat_of_nat_32: "j < 2 ^ 32 \<Longrightarrow> unat (word_of_nat j :: 32 word) = j"
  by (simp add: unat_of_nat)

lemma for_int_lt_pfold:
  assumes "unat n < 2 ^ 31"
  shows "for_int_lt n body s = pfold body (map word_of_nat [0..<unat n]) s"
proof -
  have "c_loop (\<lambda>i. i < n) (\<lambda>i. i = int_max) body 0 s = pfold body (map word_of_nat [unat (0::32 word)..<unat n]) s"
  proof (rule c_loop_pfold)
    show "(word_of_nat j < n) \<longleftrightarrow> j < unat n" if "j < 2 ^ 32" for j
      using that by (simp add: word_less_nat_alt unat_of_nat_32)
    show "\<not> word_of_nat j = int_max" if "j < unat n" for j
    proof
      assume "word_of_nat j = int_max"
      then have "unat (word_of_nat j :: 32 word) = 2 ^ 31 - 1" by (simp add: int_max_def)
      then show False using that assms by (simp add: unat_of_nat_32)
    qed
    show "unat n < 2 ^ 32" using assms by simp
  qed
  then show ?thesis by (simp add: for_int_lt_def)
qed

lemma pfold_adds:
  assumes "pfold body xs s = Some (Inr s')"
    and "\<And>i t t'. i \<in> set xs \<Longrightarrow> body i t = Some (Inr t') \<Longrightarrow> g t' = g t + c"
  shows "g s' = g s + c * length xs"
  using assms
proof (induction xs arbitrary: s)
  case Nil
  then show ?case by simp
next
  case (Cons x xs)
  then obtain t where t: "body x s = Some (Inr t)" and r: "pfold body xs t = Some (Inr s')"
    by (auto simp: pbind_eq_Some_Inr)
  have "g t = g s + c" using Cons.prems(2) [OF _ t] by simp
  moreover have "g s' = g t + c * length xs" using Cons.IH [OF r] Cons.prems(2) by (meson list.set_intros(2))
  ultimately show ?case by simp
qed

lemma for_int_le_pfold:
  assumes "unat b < 2 ^ 31 - 1"
  shows "for_int_le b body s = pfold body (map word_of_nat [1..<Suc (unat b)]) s"
proof -
  have "c_loop (\<lambda>n. n \<le> b) (\<lambda>n. n = int_max) body 1 s = pfold body (map word_of_nat [unat (1::32 word)..<Suc (unat b)]) s"
  proof (rule c_loop_pfold)
    show "(word_of_nat j \<le> b) \<longleftrightarrow> j < Suc (unat b)" if "j < 2 ^ 32" for j
      using that by (simp add: word_le_nat_alt unat_of_nat_32 less_Suc_eq_le)
    show "\<not> word_of_nat j = int_max" if "j < Suc (unat b)" for j
    proof
      assume "word_of_nat j = int_max"
      then have "unat (word_of_nat j :: 32 word) = 2 ^ 31 - 1" by (simp add: int_max_def)
      then show False using that assms by (simp add: unat_of_nat_32)
    qed
    show "Suc (unat b) < 2 ^ 32" using assms by simp
  qed
  then show ?thesis by (simp add: for_int_le_def)
qed

lemma for_uint_le_pfold:
  assumes "unat b < 2 ^ 32 - 1"
  shows "for_uint_le b body s = pfold body (map word_of_nat [1..<Suc (unat b)]) s"
proof -
  have "c_loop (\<lambda>n. n \<le> b) (\<lambda>_. False) body 1 s = pfold body (map word_of_nat [unat (1::32 word)..<Suc (unat b)]) s"
  proof (rule c_loop_pfold)
    show "(word_of_nat j \<le> b) \<longleftrightarrow> j < Suc (unat b)" if "j < 2 ^ 32" for j
      using that by (simp add: word_le_nat_alt unat_of_nat_32 less_Suc_eq_le)
    show "\<not> False" by simp
    show "Suc (unat b) < 2 ^ 32" using assms by simp
  qed
  then show ?thesis by (simp add: for_uint_le_def)
qed


lemma div64_small: "unat (w div 64 :: 32 word) < 2 ^ 26"
proof -
  have "unat (w div 64) = unat w div 64" by (simp add: unat_div)
  moreover have "unat w div 64 < 2 ^ 26" using unat_lt_2p32 [of w] by simp
  ultimately show ?thesis by simp
qed

lemma perf_block_store:
  assumes "j < 2 ^ 25" and "64 * j + 64 \<le> length m"
  shows "perf_block (word_of_nat j) m = bret (take (64 * j) m @ perf_pattern @ drop (64 * j + 64) m)"
proof -
  have "\<not> (0x2000000 :: 32 word) \<le> word_of_nat j"
    using assms(1) by (simp add: word_le_nat_alt unat_of_nat_32)
  moreover have "length perf_pattern = 64" by (simp add: perf_pattern_def)
  ultimately show ?thesis
    using assms by (simp add: perf_block_def unat_of_nat_32 store_bytes_ok bmem_def bret_def)
qed

lemma perf_blocks:
  assumes "k + d \<le> 2 ^ 25" and "64 * (k + d) \<le> length mem"
  shows "pfold perf_block (map word_of_nat [k..<k + d]) (concat (replicate k perf_pattern) @ drop (64 * k) mem) =
         bret (concat (replicate (k + d) perf_pattern) @ drop (64 * (k + d)) mem)"
  using assms
proof (induction d arbitrary: k)
  case 0
  then show ?case by (simp add: bret_def)
next
  case (Suc d)
  have lp: "length perf_pattern = 64" by (simp add: perf_pattern_def)
  have lc: "length (concat (replicate k perf_pattern)) = 64 * k" by (simp add: lp length_concat sum_list_replicate)
  let ?m = "concat (replicate k perf_pattern) @ drop (64 * k) mem"
  have lm: "length ?m = length mem" using lc Suc.prems by simp
  have "perf_block (word_of_nat k) ?m = bret (take (64 * k) ?m @ perf_pattern @ drop (64 * k + 64) ?m)"
    by (rule perf_block_store) (use Suc.prems lm in simp_all)
  also have "take (64 * k) ?m @ perf_pattern @ drop (64 * k + 64) ?m =
             concat (replicate (Suc k) perf_pattern) @ drop (64 * Suc k) mem"
    using lc by (simp add: replicate_append_same [symmetric] add.commute)
  finally have step: "perf_block (word_of_nat k) ?m = bret (concat (replicate (Suc k) perf_pattern) @ drop (64 * Suc k) mem)" .
  have "[k..<k + Suc d] = k # [Suc k..<Suc k + d]" by (simp add: upt_conv_Cons)
  then show ?case using step Suc.IH [of "Suc k"] Suc.prems by (simp add: bret_def)
qed



text \<open>
  C24. \<open>perf_rdma\<close> fills its buffer block by block: when \<open>max_size < 2^31 + 64\<close> and the
  buffer holds the \<open>max_size/64\<close> blocks, lines 143-213 store the 64-byte pattern into each
  block and leave the rest of the buffer as it was.
\<close>

theorem fill_perf_ok:
  assumes "unat max_sz < 2 ^ 31 + 64" and "64 * (unat max_sz div 64) \<le> length mem"
  shows "fill_perf max_sz mem =
           bret (concat (replicate (unat max_sz div 64) perf_pattern) @ drop (64 * (unat max_sz div 64)) mem)"
proof -
  have u: "unat (max_sz div 64) = unat max_sz div 64" by (simp add: unat_div)
  have "unat max_sz div 64 \<le> 2 ^ 25" using assms(1) by simp
  then show ?thesis
    using for_int_lt_pfold [of "max_sz div 64" perf_block mem] div64_small [of max_sz]
          perf_blocks [of 0 "unat max_sz div 64" mem] assms(2)
    by (simp add: fill_perf_def u)
qed

text \<open>
  C25. For \<open>max_size \<ge> 2^31 + 64\<close> the fill loop reaches block \<open>i = 2^25\<close>, where the
  \<open>int\<close> product \<open>64*i\<close> overflows: undefined behaviour, after the first \<open>2^31\<close> bytes
  have been written.
\<close>

theorem fill_perf_overflow:
  assumes "2 ^ 31 + 64 \<le> unat max_sz" and "2 ^ 31 \<le> length mem"
  shows "fill_perf max_sz mem = Some (Inl Int_overflow)"
proof -
  define m where "m = unat max_sz div 64"
  define k :: nat where "k = 2 ^ 25"
  have u: "unat (max_sz div 64) = m" by (simp add: unat_div m_def)
  have big: "k < m" using assms(1) by (simp add: m_def k_def)
  have "[0..<m] = [0..<k] @ [k..<m]" using upt_add_eq_append [of 0 k "m - k"] big by simp
  then have split: "[0..<m] = [0..<k] @ k # [Suc k..<m]" using big by (simp add: upt_conv_Cons)
  have first: "pfold perf_block (map word_of_nat [0..<k]) mem =
                 bret (concat (replicate k perf_pattern) @ drop (64 * k) mem)"
    using perf_blocks [of 0 k mem] assms(2) by (simp add: k_def)
  have ovf: "perf_block (word_of_nat k) x = Some (Inl Int_overflow)" for x
    by (simp add: perf_block_def k_def)
  have "unat (max_sz div 64) < 2 ^ 31" using div64_small [of max_sz] by simp
  then show ?thesis
    using for_int_lt_pfold [of "max_sz div 64" perf_block mem]
    by (simp only: fill_perf_def u split map_append list.map pfold_append first) (simp add: ovf bret_def)
qed

lemma poll_until_reaches:
  "n \<le> d \<Longrightarrow> poll_until chk n st (evs @ Poll d # rest) \<noteq> None"
proof (induction evs arbitrary: st)
  case Nil
  then have "\<not> d < n" by simp
  then show ?case by (simp add: bret_def)
next
  case (Cons e evs)
  then show ?case by (cases e) (auto simp: bret_def)
qed

lemma poll_until_unchecked:
  "(\<forall>d. Poll d \<in> set evs \<longrightarrow> d < n) \<Longrightarrow> poll_until False n st evs = None"
proof (induction evs arbitrary: st)
  case Nil
  then show ?case by simp
next
  case (Cons e evs)
  then show ?case by (cases e) auto
qed

lemma poll_until_stalled:
  "\<forall>x. Poll x \<in> set evs \<longrightarrow> x < n \<Longrightarrow> d < n \<Longrightarrow> poll_until True n True (evs @ [Poll d]) = Some (Inl Stalled)"
proof (induction evs)
  case Nil
  then show ?case by simp
next
  case (Cons e evs)
  then show ?case by (cases e) auto
qed

lemma poll_until_checked:
  "Sigint \<in> set evs \<Longrightarrow> \<forall>x. Poll x \<in> set evs \<longrightarrow> x < n \<Longrightarrow> d < n \<Longrightarrow>
     poll_until True n st (evs @ [Poll d]) = Some (Inl Stalled)"
proof (induction evs arbitrary: st)
  case Nil
  then show ?case by simp
next
  case (Cons e evs)
  show ?case
  proof (cases e)
    case (Poll x)
    then show ?thesis using Cons by auto
  next
    case Sigint
    then show ?thesis using poll_until_stalled [of evs n d] Cons.prems by simp
  qed
qed


lemma update_ones:
  assumes "i \<le> k" and "k < length m"
  shows "(take i m @ replicate (k - i) 1 @ drop k m)[k := 1] = take i m @ replicate (Suc k - i) 1 @ drop (Suc k) m"
proof -
  have lt: "length (take i m @ replicate (k - i) 1) = k" using assms by simp
  have d: "drop k m = m ! k # drop (Suc k) m" using assms(2) by (rule Cons_nth_drop_Suc [symmetric])
  have "(take i m @ replicate (k - i) 1 @ drop k m)[k := 1] = (take i m @ replicate (k - i) 1) @ 1 # drop (Suc k) m"
    using lt d by (metis append.assoc list_update_length)
  also have "\<dots> = take i m @ replicate (Suc k - i) 1 @ drop (Suc k) m"
    using assms(1) by (simp add: Suc_diff_le replicate_append_same [symmetric])
  finally show ?thesis .
qed

lemma recv_bytes:
  assumes "r < 2 ^ 26" and "8 * r + 8 \<le> length m" and "a + d \<le> 8"
  shows "pfold (\<lambda>j m. bmem (store_byte m (unat (word_of_nat r * 8 + j :: 32 word)) 1)) (map word_of_nat [a..<a + d])
           (take (8 * r) m @ replicate a 1 @ drop (8 * r + a) m) =
         bret (take (8 * r) m @ replicate (a + d) 1 @ drop (8 * r + a + d) m)"
  using assms(3)
proof (induction d arbitrary: a)
  case 0
  then show ?case by (simp add: bret_def)
next
  case (Suc d)
  have idx: "unat (word_of_nat r * 8 + word_of_nat a :: 32 word) = 8 * r + a"
  proof -
    have lt: "8 * r + a < 2 ^ 32" using assms(1) Suc.prems by simp
    have e: "(word_of_nat r * 8 + word_of_nat a :: 32 word) = word_of_nat (8 * r + a)" by (simp add: mult.commute)
    show ?thesis unfolding e using lt by (rule unat_of_nat_32)
  qed
  let ?f = "\<lambda>j m. bmem (store_byte m (unat (word_of_nat r * 8 + j :: 32 word)) 1)"
  have len: "8 * r + a < length (take (8 * r) m @ replicate a 1 @ drop (8 * r + a) m)"
    using assms(2) Suc.prems by simp
  have upd: "(take (8 * r) m @ replicate a 1 @ drop (8 * r + a) m)[8 * r + a := 1] =
             take (8 * r) m @ replicate (Suc a) 1 @ drop (8 * r + Suc a) m"
    using update_ones [of "8 * r" "8 * r + a" m] assms(2) Suc.prems by simp
  have s1: "?f (word_of_nat a) (take (8 * r) m @ replicate a 1 @ drop (8 * r + a) m) =
            bret (take (8 * r) m @ replicate (Suc a) 1 @ drop (8 * r + Suc a) m)"
    using len upd idx by (simp add: store_byte_def bmem_def bret_def)
  have ih: "pfold ?f (map word_of_nat [Suc a..<Suc a + d]) (take (8 * r) m @ replicate (Suc a) 1 @ drop (8 * r + Suc a) m) =
            bret (take (8 * r) m @ replicate (Suc a + d) 1 @ drop (8 * r + Suc a + d) m)"
    using Suc.IH [of "Suc a"] Suc.prems by simp
  have "[a..<a + Suc d] = a # [Suc a..<Suc a + d]" by (simp add: upt_conv_Cons)
  then show ?case using s1 ih by (simp add: bret_def del: upt_Suc replicate_Suc)
qed

lemma recv_block_row:
  assumes "r < 2 ^ 26" and "8 * r + 8 \<le> length m"
  shows "recv_block (word_of_nat r) m = bret (take (8 * r) m @ replicate 8 1 @ drop (8 * r + 8) m)"
proof -
  have "recv_block (word_of_nat r) m =
          pfold (\<lambda>j m. bmem (store_byte m (unat (word_of_nat r * 8 + j :: 32 word)) 1)) (map word_of_nat [0..<8]) m"
    by (simp add: recv_block_def for_int_lt_pfold)
  also have "\<dots> = bret (take (8 * r) m @ replicate 8 1 @ drop (8 * r + 8) m)"
    using recv_bytes [of r m 0 8] assms by simp
  finally show ?thesis .
qed

lemma recv_rows:
  assumes "k + d < 2 ^ 26" and "8 * (k + d) \<le> length mem"
  shows "pfold recv_block (map word_of_nat [k..<k + d]) (replicate (8 * k) 1 @ drop (8 * k) mem) =
         bret (replicate (8 * (k + d)) 1 @ drop (8 * (k + d)) mem)"
  using assms
proof (induction d arbitrary: k)
  case 0
  then show ?case by (simp add: bret_def)
next
  case (Suc d)
  let ?m = "replicate (8 * k) 1 @ drop (8 * k) mem"
  have "recv_block (word_of_nat k) ?m = bret (take (8 * k) ?m @ replicate 8 1 @ drop (8 * k + 8) ?m)"
    by (rule recv_block_row) (use Suc.prems in simp_all)
  also have "take (8 * k) ?m @ replicate 8 1 @ drop (8 * k + 8) ?m = replicate (8 * Suc k) 1 @ drop (8 * Suc k) mem"
    by (simp add: replicate_add [symmetric])
  finally have step: "recv_block (word_of_nat k) ?m = bret (replicate (8 * Suc k) 1 @ drop (8 * Suc k) mem)" .
  have "[k..<k + Suc d] = k # [Suc k..<Suc k + d]" by (simp add: upt_conv_Cons)
  then show ?case using step Suc.IH [of "Suc k"] Suc.prems by (simp add: bret_def)
qed

lemma fill_recv_ok:
  assumes "8 * (unat max_sz div 64) \<le> length mem"
  shows "fill_recv max_sz mem = bret (replicate (8 * (unat max_sz div 64)) 1 @ drop (8 * (unat max_sz div 64)) mem)"
proof -
  have u: "unat (max_sz div 64) = unat max_sz div 64" by (simp add: unat_div)
  have "unat max_sz div 64 < 2 ^ 26" using div64_small [of max_sz] by (simp add: u)
  then show ?thesis
    using for_int_lt_pfold [of "max_sz div 64" recv_block mem] div64_small [of max_sz]
          recv_rows [of 0 "unat max_sz div 64" mem] assms
    by (simp add: fill_recv_def u)
qed

lemma c_string_prefix:
  assumes "0 \<notin> set xs"
  shows "c_string (xs @ 0 # ys) = bret xs"
proof -
  have "\<forall>x\<in>set xs. x \<noteq> 0" using assms by auto
  then show ?thesis by (simp add: c_string_def)
qed

subsection \<open>Runs that keep a measure\<close>

lemma c_loop_keeps:
  assumes run: "c_loop cond ovf body i s = Some (Inr s')"
    and keep: "\<And>i t t'. body i t = Some (Inr t') \<Longrightarrow> g t' = g t"
  shows "g s' = g s"
proof -
  have "\<forall>s'. r = Inr s' \<longrightarrow> (\<forall>i t t'. body i t = Some (Inr t') \<longrightarrow> g t' = g t) \<longrightarrow> g s' = g s"
    if "c_loop cond ovf body i s = Some r" for r
  proof (rule c_loop.raw_induct [where P = "\<lambda>cond ovf body i s r. \<forall>s'. r = Inr s' \<longrightarrow>
            (\<forall>i t t'. body i t = Some (Inr t') \<longrightarrow> g t' = g t) \<longrightarrow> g s' = g s", OF _ that])
    fix f cond' ovf' body' i' t r'
    assume IH: "\<And>cond ovf body i s r. f cond ovf body i s = Some r \<Longrightarrow> \<forall>s'. r = Inr s' \<longrightarrow>
                  (\<forall>i t t'. body i t = Some (Inr t') \<longrightarrow> g t' = g t) \<longrightarrow> g s' = g s"
      and eq: "(if cond' i' then pbind (body' i' t) (\<lambda>s'. if ovf' i' then Some (Inl Int_overflow)
                 else f cond' ovf' body' (i' + 1) s') else bret t) = Some r'"
    show "\<forall>s'. r' = Inr s' \<longrightarrow> (\<forall>i t t'. body' i t = Some (Inr t') \<longrightarrow> g t' = g t) \<longrightarrow> g s' = g t"
    proof (intro allI impI)
      fix s'
      assume r: "r' = Inr s'" and b: "\<forall>i t t'. body' i t = Some (Inr t') \<longrightarrow> g t' = g t"
      show "g s' = g t"
      proof (cases "cond' i'")
        case True
        with eq r obtain u where u: "body' i' t = Some (Inr u)"
          and rec: "f cond' ovf' body' (i' + 1) u = Some (Inr s')"
          by (auto simp: pbind_eq_Some_Inr split: if_splits)
        have "g s' = g u" using IH [OF rec] b by blast
        also have "\<dots> = g t" using b u by blast
        finally show ?thesis .
      qed (use eq r in \<open>simp add: bret_def\<close>)
    qed
  qed
  then show ?thesis using run keep by blast
qed

lemma pfold_keeps:
  assumes "pfold body xs s = Some (Inr s')"
    and "\<And>i t t'. body i t = Some (Inr t') \<Longrightarrow> g t' = g t"
  shows "g s' = g s"
  using assms(1)
proof (induction xs arbitrary: s)
  case Nil
  then show ?case by simp
next
  case (Cons x xs)
  then obtain t where "body x s = Some (Inr t)" and "pfold body xs t = Some (Inr s')"
    by (auto simp: pbind_eq_Some_Inr)
  then show ?case using Cons.IH assms(2) by metis
qed


lemma wait_for_Inr:
  assumes "wait_for chk c n s = Some (Inr s')"
  shows "\<exists>st evs. s' = s\<lparr>b_stalled := st, b_events := evs, b_trace := b_trace s @ [Wait c n]\<rparr>"
  using assms by (auto simp: wait_for_def pbind_eq_Some_Inr bret_def)

subsection \<open>SIGINT and the polling loops\<close>

theorem fill_perf_ok_witness:
  "unat (128 :: 32 word) < 2 ^ 31 + 64 \<and> 64 * (unat (128 :: 32 word) div 64) \<le> length (replicate 200 (0 :: byte)) \<and>
   fill_perf 128 (replicate 200 0) = bret (concat (replicate 2 perf_pattern) @ replicate 72 0)"
  using fill_perf_ok [of 128 "replicate 200 0"] by simp

theorem fill_perf_overflow_witness:
  "2 ^ 31 + 64 \<le> unat (0xFFFFFFFF :: 32 word) \<and> (2 :: nat) ^ 31 \<le> length (replicate (2 ^ 31) (0 :: byte)) \<and>
   fill_perf 0xFFFFFFFF (replicate (2 ^ 31) 0) = Some (Inl Int_overflow)"
  using fill_perf_overflow [of "0xFFFFFFFF" "replicate (2 ^ 31) 0"] by simp


end
