(* ===== verification/Perf_RDMA.thy ===== *)
theory Perf_RDMA
  imports Bench_Setup
begin

text \<open>
  The RDMA benchmark \<open>main\<close> of
  \<open>src/artifacts/coyote-experiments/sw/examples/perf_rdma/main.cpp\<close> (lines 49-372). Both
  ends run the same program: the master (no \<open>--tcpaddr\<close>) measures, the slave answers.
  After the set-up of \<open>Bench_Setup\<close> and one synchronisation, the buffer is filled and the
  loop of lines 216-358 runs one iteration per transfer size, doubling \<open>sg.len\<close> from
  \<open>min_size\<close> while it is at most \<open>max_size\<close>. An iteration clears the counters and
  synchronises, then the master runs the throughput and the latency measurements through
  \<open>cBench::runtime\<close>, and the slave in write mode answers them; a slave in read mode only
  synchronises once more.

  \<open>cBench\<close> is not in the repository: \<open>cbench_runtime k f\<close> calls the measured function
  \<open>k\<close> times, and \<open>k\<close> is an input of the run. The completion counters and SIGINT are the
  events of \<open>Bench_Setup\<close>.
\<close>

section \<open>Definitions\<close>

text \<open>The locals of \<open>main\<close> that the loop updates besides \<open>sg.len\<close> (lines 84, 232).\<close>

record perf_state = bench_state +
  n_runs :: "32 word"
  old_mem_content :: "32 word"

text \<open>Line 137: the opcode of the work request.\<close>

definition wr_op :: "bench_params \<Rightarrow> bench_op" where
  "wr_op p = (if p_oper p then Ibv_write else Ibv_read)"

text \<open>\<open>iqp->ibvPostSend(&wr)\<close>: the request carries the current \<open>sg.len\<close>.\<close>

definition post :: "bench_params \<Rightarrow> 32 word \<Rightarrow> 'a bench_state_scheme \<Rightarrow> 'a bench_state_scheme" where
  "post p len s = qp_do (Post_send (wr_op p) len) s"

definition cbench_runtime :: "nat \<Rightarrow> ('s \<Rightarrow> 's brun) \<Rightarrow> 's \<Rightarrow> 's brun" where
  "cbench_runtime k f s = pfold (\<lambda>_ t. f t) [0..<k] s"

subsection \<open>The master\<close>

text \<open>
  Lines 235-247, the throughput lambda: \<open>n_reps_thr\<close> posts, then wait until \<open>ibvDone()\<close>
  reaches \<open>n_reps_thr * n_runs\<close>, a \<open>uint32_t\<close> product.
\<close>

definition thr_lambda :: "bench_params \<Rightarrow> 32 word \<Rightarrow> perf_state \<Rightarrow> perf_state brun" where
  "thr_lambda p len s =
     (let s1 = s\<lparr>n_runs := n_runs s + 1\<rparr> in
      pbind (for_int_lt (p_n_reps_thr p) (\<lambda>_ t. bret (post p len t)) s1)
        (\<lambda>s2. wait_for True Done (p_n_reps_thr p * n_runs s1) s2))"

text \<open>
  Lines 261-271, the latency lambda: post, then wait for completion \<open>(i+1) +
  (n_runs-1) * n_reps_lat\<close>; \<open>i+1\<close> is an \<open>int\<close> sum, the rest \<open>uint32_t\<close>.
\<close>

definition lat_lambda :: "bench_params \<Rightarrow> 32 word \<Rightarrow> perf_state \<Rightarrow> perf_state brun" where
  "lat_lambda p len s =
     (let s1 = s\<lparr>n_runs := n_runs s + 1\<rparr> in
      for_int_lt (p_n_reps_lat p)
        (\<lambda>i t. let t1 = post p len t in
               if i = int_max then Some (Inl Int_overflow)
               else wait_for True Done ((i + 1) + (n_runs s1 - 1) * p_n_reps_lat p) t1)
        s1)"

text \<open>Lines 222-274: the two measurements, with the reset and synchronisation between them.\<close>

definition master_iter :: "bench_params \<Rightarrow> nat \<Rightarrow> 32 word \<Rightarrow> perf_state \<Rightarrow> perf_state brun" where
  "master_iter p cb len s =
     pbind (cbench_runtime cb (thr_lambda p len) (s\<lparr>n_runs := 0\<rparr>))
       (\<lambda>s1. cbench_runtime cb (lat_lambda p len)
               (qp_do (Ibv_sync (p_mstr p)) ((qp_do Ibv_clear s1)\<lparr>n_runs := 0\<rparr>)))"

subsection \<open>The slave\<close>

text \<open>
  Lines 281-294: for each run \<open>n_runs = 1 .. n_bench_runs\<close> (a \<open>uint32_t\<close> counter), wait
  for \<open>n_reps_thr * n_runs\<close> incoming completions, then post \<open>n_reps_thr\<close> requests.
\<close>

definition slave_thr :: "bench_params \<Rightarrow> 32 word \<Rightarrow> perf_state \<Rightarrow> perf_state brun" where
  "slave_thr p len s =
     for_uint_le (p_n_bench_runs p)
       (\<lambda>n t. pbind (wait_for True Done (p_n_reps_thr p * n) t)
                (\<lambda>t'. for_int_lt (p_n_reps_thr p) (\<lambda>_ u. bret (post p len u)) t'))
       s"

text \<open>
  Lines 306-337, one latency round: wait (without reading \<open>stalled\<close>) for the incoming
  request, read \<open>hMem[sg.len/8-1]\<close> (a \<open>uint32_t\<close> index; \<open>char\<close> is signed), post the
  answer, and wait until \<open>ibvSent()\<close> counts it.
\<close>

definition slave_lat_step :: "bench_params \<Rightarrow> 32 word \<Rightarrow> 32 word \<Rightarrow> 32 word \<Rightarrow> perf_state \<Rightarrow> perf_state brun" where
  "slave_lat_step p len n i t =
     (if i = int_max then Some (Inl Int_overflow)
      else let target = (i + 1) + (n - 1) * p_n_reps_lat p in
      pbind (wait_for False Done target t)
        (\<lambda>t1. pbind (bmem (read_at (b_mem t1) (unat (len div 8 - 1))))
          (\<lambda>b. wait_for True Sent target (post p len (t1\<lparr>old_mem_content := scast b\<rparr>)))))"

text \<open>Lines 303-338: \<open>for (int n_runs = 1; n_runs <= n_bench_runs; n_runs++)\<close>.\<close>

definition slave_lat :: "bench_params \<Rightarrow> 32 word \<Rightarrow> perf_state \<Rightarrow> perf_state brun" where
  "slave_lat p len s =
     for_int_le (p_n_bench_runs p) (\<lambda>n t. for_int_lt (p_n_reps_lat p) (slave_lat_step p len n) t) s"

text \<open>Lines 276-345: write mode answers both measurements; read mode only synchronises.\<close>

definition slave_iter :: "bench_params \<Rightarrow> 32 word \<Rightarrow> perf_state \<Rightarrow> perf_state brun" where
  "slave_iter p len s =
     (if p_oper p
      then pbind (slave_thr p len s) (\<lambda>s1. slave_lat p len (qp_do (Ibv_sync (p_mstr p)) (qp_do Ibv_clear s1)))
      else bret (qp_do (Ibv_sync (p_mstr p)) s))"

subsection \<open>The size loop and \<open>main\<close>\<close>

text \<open>Lines 218-356: one iteration for the transfer size \<open>len\<close>.\<close>

definition bench_iter :: "bench_params \<Rightarrow> nat \<Rightarrow> 32 word \<Rightarrow> perf_state \<Rightarrow> perf_state brun" where
  "bench_iter p cb len s =
     (let s1 = qp_do (Ibv_sync (p_mstr p)) (qp_do Ibv_clear s) in
      if p_mstr p then master_iter p cb len s1 else slave_iter p len s1)"

text \<open>Lines 216 and 357: \<open>while (sg.len <= max_size) { ...; sg.len *= 2; }\<close> on \<open>uint32_t\<close>.\<close>

partial_function (option) bench_loop :: "bench_params \<Rightarrow> nat \<Rightarrow> 32 word \<Rightarrow> perf_state \<Rightarrow> perf_state brun" where
  "bench_loop p cb len s =
     (if len \<le> p_max_size p then pbind (bench_iter p cb len s) (bench_loop p cb (len * 2)) else bret s)"

declare bench_loop.simps [code]

text \<open>The sizes the loop goes through, as a reference for its termination.\<close>

partial_function (option) bench_sizes :: "32 word \<Rightarrow> 32 word \<Rightarrow> 32 word list option" where
  "bench_sizes len mx = (if len \<le> mx then Option.bind (bench_sizes (len * 2) mx) (\<lambda>ls. Some (len # ls)) else Some [])"

declare bench_sizes.simps [code]

text \<open>The number of \<open>ibvSync\<close> calls in a trace: each one waits for the peer's.\<close>

definition sync_count :: "qp_call list \<Rightarrow> nat" where
  "sync_count cs = length (filter (\<lambda>c. case c of Ibv_sync _ \<Rightarrow> True | _ \<Rightarrow> False) cs)"

text \<open>
  Lines 49-372: read the parameters, create and exchange the queue pair (lines 119-123),
  synchronise (line 140), fill the buffer, run the size loop, and close (lines 363-369).
  \<open>mem\<close> is the buffer \<open>addQpair\<close> allocated, \<open>evs\<close> what the counters and SIGINT do.
\<close>

text \<open>
  Lines 362-369: the closing handshake, \<open>sendAck(1); closeAck()\<close> on the master and
  \<open>readAck(); closeConnection()\<close> on the slave.
\<close>

definition perf_close :: "bench_params \<Rightarrow> 'a bench_state_scheme \<Rightarrow> 'a bench_state_scheme" where
  "perf_close p s =
     (if p_mstr p then qp_do Close_ack (qp_do (Send_ack 1) s)
      else qp_do Close_connection (qp_do Read_ack s))"

definition perf_main :: "string option \<Rightarrow> bench_args \<Rightarrow> nat \<Rightarrow> byte list \<Rightarrow> bench_event list \<Rightarrow> perf_state brun" where
  "perf_main env_ip args cb mem evs =
     pbind (read_params env_ip args) (\<lambda>p.
       let s0 = \<lparr>b_stalled = False, b_events = evs,
                 b_trace = qp_setup p @ [Ibv_sync (p_mstr p)],
                 b_mem = mem, n_runs = 0, old_mem_content = 1\<rparr> in
       pbind (fill_perf (p_max_size p) mem) (\<lambda>m.
       pbind (bench_loop p cb (p_min_size p) (s0\<lparr>b_mem := m\<rparr>)) (\<lambda>s.
       bret (perf_close p s))))"

text \<open>The number of work requests posted in a trace.\<close>

definition post_count :: "qp_call list \<Rightarrow> nat" where
  "post_count cs = length (filter (\<lambda>c. case c of Post_send _ _ \<Rightarrow> True | _ \<Rightarrow> False) cs)"

text \<open>
  Waits against a peer that completes every request at once: each poll reads a counter at
  its maximum, so every wait returns at its first poll. \<open>consumes k f\<close>: from \<open>k + j\<close>
  such polls, \<open>f\<close> returns with \<open>j\<close> left, or throws; it never runs out of events.
\<close>

definition consumes :: "nat \<Rightarrow> (perf_state \<Rightarrow> perf_state brun) \<Rightarrow> bool" where
  "consumes k f =
     (\<forall>t j. b_events t = replicate (k + j) (Poll (- 1)) \<longrightarrow>
        (case f t of None \<Rightarrow> False | Some (Inl _) \<Rightarrow> True | Some (Inr t') \<Rightarrow> b_events t' = replicate j (Poll (- 1))))"

text \<open>The waits of one iteration of the size loop, and of the whole loop.\<close>

definition iter_waits :: "bench_params \<Rightarrow> nat \<Rightarrow> nat" where
  "iter_waits p cb =
     (if p_mstr p then cb * (1 + unat (p_n_reps_lat p))
      else if p_oper p then unat (p_n_bench_runs p) * (1 + unat (p_n_reps_lat p) * 2) else 0)"

definition bench_waits :: "bench_params \<Rightarrow> nat \<Rightarrow> 32 word \<Rightarrow> nat" where
  "bench_waits p cb len =
     (case bench_sizes len (p_max_size p) of Some ls \<Rightarrow> length ls * iter_waits p cb | None \<Rightarrow> 0)"

subsection \<open>Fixtures\<close>

text \<open>A slave in read mode with sizes 64 and 128, and a state with two polls to come.\<close>

definition ex_slave_read :: bench_params where
  "ex_slave_read = \<lparr>p_tcp_mstr_ip = ''10.0.0.1'', p_n_bench_runs = 1, p_n_reps_thr = 1, p_n_reps_lat = 1,
     p_min_size = 64, p_max_size = 128, p_oper = False, p_mstr = False, p_ibv_ip = ''10.0.0.2''\<rparr>"

definition ex_master :: bench_params where
  "ex_master = ex_slave_read\<lparr>p_n_reps_thr := 2, p_n_reps_lat := 2, p_oper := True, p_mstr := True\<rparr>"

definition ex_perf_state :: perf_state where
  "ex_perf_state = \<lparr>b_stalled = False, b_events = [Poll 1, Poll 1], b_trace = [], b_mem = replicate 16 0,
     n_runs = 0, old_mem_content = 1\<rparr>"

text \<open>Both ends of a write benchmark with two repetitions per measurement and sizes 64 and 128.\<close>

definition ex_master_args :: bench_args where
  "ex_master_args = \<lparr>a_tcpaddr = None, a_benchruns = None, a_repst = Some 2, a_repsl = Some 2,
     a_mins = Some 64, a_maxs = Some 128, a_oper = Some True\<rparr>"

definition ex_slave_args :: bench_args where
  "ex_slave_args = ex_master_args\<lparr>a_tcpaddr := Some ''10.0.0.1''\<rparr>"

section \<open>Lemmas\<close>

subsection \<open>Synchronisation count\<close>

lemma sync_count_append [simp]: "sync_count (xs @ ys) = sync_count xs + sync_count ys"
  by (simp add: sync_count_def)

lemma sync_count_simps [simp]:
  "sync_count [] = 0"
  "sync_count (Ibv_sync b # cs) = Suc (sync_count cs)"
  "sync_count (Ibv_clear # cs) = sync_count cs"
  "sync_count (Wait c n # cs) = sync_count cs"
  "sync_count (Post_send op l # cs) = sync_count cs"
  by (simp_all add: sync_count_def)

lemma wait_for_syncs:
  "wait_for chk c n s = Some (Inr s') \<Longrightarrow> sync_count (b_trace s') = sync_count (b_trace s)"
  by (auto dest: wait_for_Inr)

lemma post_syncs [simp]: "sync_count (b_trace (post p len s)) = sync_count (b_trace s)"
  by (simp add: post_def qp_do_def)

lemma posts_syncs:
  "for_int_lt n (\<lambda>_ t. bret (post p len t)) s = Some (Inr s') \<Longrightarrow> sync_count (b_trace s') = sync_count (b_trace s)"
  unfolding for_int_lt_def by (erule c_loop_keeps) (simp add: bret_def)

lemma thr_lambda_syncs:
  assumes "thr_lambda p len s = Some (Inr s')"
  shows "sync_count (b_trace s') = sync_count (b_trace s)"
proof -
  obtain s2 where p: "for_int_lt (p_n_reps_thr p) (\<lambda>_ t. bret (post p len t)) (s\<lparr>n_runs := n_runs s + 1\<rparr>) = Some (Inr s2)"
    and w: "wait_for True Done (p_n_reps_thr p * (n_runs s + 1)) s2 = Some (Inr s')"
    using assms by (auto simp: thr_lambda_def Let_def pbind_eq_Some_Inr)
  show ?thesis using posts_syncs [OF p] wait_for_syncs [OF w] by simp
qed

lemma lat_lambda_syncs:
  assumes "lat_lambda p len s = Some (Inr s')"
  shows "sync_count (b_trace s') = sync_count (b_trace s)"
proof -
  have step: "sync_count (b_trace t') = sync_count (b_trace t)"
    if "(if i = int_max then Some (Inl Int_overflow) else wait_for True Done x (post p len t)) = Some (Inr t')"
    for i x t t'
    using that wait_for_syncs [of True Done x "post p len t" t'] by (simp split: if_splits)
  have "sync_count (b_trace s') = sync_count (b_trace (s\<lparr>n_runs := n_runs s + 1\<rparr>))"
    using assms unfolding lat_lambda_def Let_def for_int_lt_def
    by (rule c_loop_keeps) (rule step)
  then show ?thesis by simp
qed

lemma cbench_syncs:
  assumes "cbench_runtime k f s = Some (Inr s')"
    and "\<And>t t'. f t = Some (Inr t') \<Longrightarrow> sync_count (b_trace t') = sync_count (b_trace t)"
  shows "sync_count (b_trace s') = sync_count (b_trace s)"
  using assms unfolding cbench_runtime_def by (rule pfold_keeps)

lemma master_iter_syncs:
  assumes "master_iter p cb len s = Some (Inr s')"
  shows "sync_count (b_trace s') = Suc (sync_count (b_trace s))"
proof -
  obtain s1 where s1: "cbench_runtime cb (thr_lambda p len) (s\<lparr>n_runs := 0\<rparr>) = Some (Inr s1)"
    and s2: "cbench_runtime cb (lat_lambda p len) (qp_do (Ibv_sync (p_mstr p)) ((qp_do Ibv_clear s1)\<lparr>n_runs := 0\<rparr>)) = Some (Inr s')"
    using assms by (auto simp: master_iter_def pbind_eq_Some_Inr)
  have "sync_count (b_trace s1) = sync_count (b_trace (s\<lparr>n_runs := 0\<rparr>))"
    using s1 by (rule cbench_syncs) (erule thr_lambda_syncs)
  moreover have "sync_count (b_trace s') =
      sync_count (b_trace (qp_do (Ibv_sync (p_mstr p)) ((qp_do Ibv_clear s1)\<lparr>n_runs := 0\<rparr>)))"
    using s2 by (rule cbench_syncs) (erule lat_lambda_syncs)
  ultimately show ?thesis by (simp add: qp_do_def)
qed

lemma slave_thr_syncs:
  "slave_thr p len s = Some (Inr s') \<Longrightarrow> sync_count (b_trace s') = sync_count (b_trace s)"
  unfolding slave_thr_def for_uint_le_def
  by (erule c_loop_keeps) (auto simp: pbind_eq_Some_Inr dest!: wait_for_syncs posts_syncs)

lemma slave_lat_step_syncs:
  assumes "slave_lat_step p len n i t = Some (Inr t')"
  shows "sync_count (b_trace t') = sync_count (b_trace t)"
proof -
  let ?target = "(i + 1) + (n - 1) * p_n_reps_lat p"
  obtain t1 where w1: "wait_for False Done ?target t = Some (Inr t1)"
    and rest: "pbind (bmem (read_at (b_mem t1) (unat (len div 8 - 1))))
                 (\<lambda>b. wait_for True Sent ?target (post p len (t1\<lparr>old_mem_content := scast b\<rparr>))) = Some (Inr t')"
    using assms by (auto simp: slave_lat_step_def Let_def pbind_eq_Some_Inr split: if_splits)
  then obtain b :: byte where w2: "wait_for True Sent ?target (post p len (t1\<lparr>old_mem_content := scast b\<rparr>)) = Some (Inr t')"
    by (auto simp: pbind_eq_Some_Inr bmem_def split: sum.splits)
  show ?thesis using wait_for_syncs [OF w1] wait_for_syncs [OF w2] by simp
qed

lemma slave_lat_syncs:
  assumes "slave_lat p len s = Some (Inr s')"
  shows "sync_count (b_trace s') = sync_count (b_trace s)"
proof -
  have inner: "sync_count (b_trace u') = sync_count (b_trace u)"
    if "for_int_lt (p_n_reps_lat p) (slave_lat_step p len n) u = Some (Inr u')" for n u u'
    using that unfolding for_int_lt_def by (rule c_loop_keeps) (rule slave_lat_step_syncs)
  show ?thesis
    using assms unfolding slave_lat_def for_int_le_def by (rule c_loop_keeps) (rule inner)
qed

lemma slave_iter_syncs:
  assumes "slave_iter p len s = Some (Inr s')"
  shows "sync_count (b_trace s') = Suc (sync_count (b_trace s))"
proof (cases "p_oper p")
  case True
  then obtain s1 where s1: "slave_thr p len s = Some (Inr s1)"
    and s2: "slave_lat p len (qp_do (Ibv_sync (p_mstr p)) (qp_do Ibv_clear s1)) = Some (Inr s')"
    using assms by (auto simp: slave_iter_def pbind_eq_Some_Inr)
  show ?thesis using slave_thr_syncs [OF s1] slave_lat_syncs [OF s2] by (simp add: qp_do_def)
next
  case False
  then show ?thesis using assms by (auto simp: slave_iter_def qp_do_def bret_def)
qed

lemma bench_iter_syncs:
  assumes "bench_iter p cb len s = Some (Inr s')"
  shows "sync_count (b_trace s') = sync_count (b_trace s) + 2"
proof -
  let ?s1 = "qp_do (Ibv_sync (p_mstr p)) (qp_do Ibv_clear s)"
  have "sync_count (b_trace s') = Suc (sync_count (b_trace ?s1))"
    using assms master_iter_syncs slave_iter_syncs by (auto simp: bench_iter_def Let_def split: if_splits)
  then show ?thesis by (simp add: qp_do_def)
qed

lemma bench_iters_syncs:
  "pfold (bench_iter p cb) ls s = Some (Inr s') \<Longrightarrow> sync_count (b_trace s') = sync_count (b_trace s) + 2 * length ls"
proof (induction ls arbitrary: s)
  case Nil
  then show ?case by simp
next
  case (Cons l ls)
  then obtain t where "bench_iter p cb l s = Some (Inr t)" and "pfold (bench_iter p cb) ls t = Some (Inr s')"
    by (auto simp: pbind_eq_Some_Inr)
  then show ?case using Cons.IH bench_iter_syncs by fastforce
qed

subsection \<open>The size loop\<close>

lemma bench_sizes_Some:
  "mx < len * 2 ^ k \<Longrightarrow> \<exists>ls. bench_sizes len mx = Some ls"
proof (induction k arbitrary: len)
  case 0
  then have "\<not> len \<le> mx" by (simp add: not_le)
  then show ?case by (subst bench_sizes.simps) simp
next
  case (Suc k)
  have "mx < (len * 2) * 2 ^ k" using Suc.prems by (simp add: mult.assoc mult.commute)
  then obtain ls where "bench_sizes (len * 2) mx = Some ls" using Suc.IH by blast
  then show ?case by (subst bench_sizes.simps) auto
qed

lemma bench_sizes_None:
  assumes "\<forall>k. len * 2 ^ k \<le> mx"
  shows "bench_sizes len mx = None"
proof (rule ccontr)
  assume "bench_sizes len mx \<noteq> None"
  then obtain ls where r: "bench_sizes len mx = Some ls" by blast
  have "(\<forall>k. len * 2 ^ k \<le> mx) \<longrightarrow> False"
  proof (rule bench_sizes.raw_induct [where P = "\<lambda>len mx _. (\<forall>k. len * 2 ^ k \<le> mx) \<longrightarrow> False", OF _ r])
    fix f and l m :: "32 word" and ls'
    assume IH: "\<And>l m ls. f l m = Some ls \<Longrightarrow> (\<forall>k. l * 2 ^ k \<le> m) \<longrightarrow> False"
      and eq: "(if l \<le> m then Option.bind (f (l * 2) m) (\<lambda>ls. Some (l # ls)) else Some []) = Some ls'"
    show "(\<forall>k. l * 2 ^ k \<le> m) \<longrightarrow> False"
    proof
      assume all: "\<forall>k. l * 2 ^ k \<le> m"
      then have le: "l \<le> m" using spec [OF all, of 0] by simp
      with eq obtain ls'' where "f (l * 2) m = Some ls''" by (auto simp: bind_eq_Some_conv)
      moreover have "\<forall>k. (l * 2) * 2 ^ k \<le> m"
        using all by (metis mult.assoc mult.commute power_Suc)
      ultimately show False using IH by blast
    qed
  qed
  then show False using assms by blast
qed

lemma bench_sizes_iff: "bench_sizes len mx \<noteq> None \<longleftrightarrow> (\<exists>k. mx < len * 2 ^ k)"
  using bench_sizes_Some bench_sizes_None by (metis not_le option.distinct(1))

text \<open>
  C21. A slave in read mode whose sizes never exceed \<open>max_size\<close> loops forever: with
  \<open>--mins 0\<close> (\<open>0 * 2 = 0\<close>) or \<open>--maxs 4294967295\<close> (no \<open>uint32_t\<close> is larger) the
  condition of line 216 stays true and every iteration returns.
\<close>

theorem bench_loop_slave_read_forever:
  assumes "\<not> p_mstr p" and "\<not> p_oper p" and "\<forall>k. len * 2 ^ k \<le> p_max_size p"
  shows "bench_loop p cb len s = None"
proof (rule ccontr)
  assume "bench_loop p cb len s \<noteq> None"
  then obtain r where r: "bench_loop p cb len s = Some r" by blast
  have "\<not> p_mstr p \<longrightarrow> \<not> p_oper p \<longrightarrow> (\<forall>k. len * 2 ^ k \<le> p_max_size p) \<longrightarrow> False"
  proof (rule bench_loop.raw_induct [where P = "\<lambda>p cb len s _. \<not> p_mstr p \<longrightarrow> \<not> p_oper p \<longrightarrow>
            (\<forall>k. len * 2 ^ k \<le> p_max_size p) \<longrightarrow> False", OF _ r])
    fix f p' cb' l t r'
    assume IH: "\<And>p cb len s r. f p cb len s = Some r \<Longrightarrow> \<not> p_mstr p \<longrightarrow> \<not> p_oper p \<longrightarrow>
                  (\<forall>k. len * 2 ^ k \<le> p_max_size p) \<longrightarrow> False"
      and eq: "(if l \<le> p_max_size p' then pbind (bench_iter p' cb' l t) (f p' cb' (l * 2)) else bret t) = Some r'"
    show "\<not> p_mstr p' \<longrightarrow> \<not> p_oper p' \<longrightarrow> (\<forall>k. l * 2 ^ k \<le> p_max_size p') \<longrightarrow> False"
    proof (intro impI)
      assume m: "\<not> p_mstr p'" and o: "\<not> p_oper p'" and all: "\<forall>k. l * 2 ^ k \<le> p_max_size p'"
      have le: "l \<le> p_max_size p'" using spec [OF all, of 0] by simp
      have it: "bench_iter p' cb' l t = bret (qp_do (Ibv_sync (p_mstr p')) (qp_do (Ibv_sync (p_mstr p')) (qp_do Ibv_clear t)))"
        using m o by (simp add: bench_iter_def slave_iter_def)
      have "f p' cb' (l * 2) (qp_do (Ibv_sync (p_mstr p')) (qp_do (Ibv_sync (p_mstr p')) (qp_do Ibv_clear t))) = Some r'"
        using eq le it by (simp add: bret_def)
      moreover have "\<forall>k. (l * 2) * 2 ^ k \<le> p_max_size p'"
        using all by (metis mult.assoc mult.commute power_Suc)
      ultimately show False using IH m o by blast
    qed
  qed
  then show False using assms by blast
qed

lemma bench_loop_sizes:
  assumes "bench_sizes len (p_max_size p) = Some ls"
  shows "bench_loop p cb len s = pfold (bench_iter p cb) ls s"
proof -
  have "\<forall>s. m = p_max_size p \<longrightarrow> bench_loop p cb l s = pfold (bench_iter p cb) ls' s"
    if "bench_sizes l m = Some ls'" for l m ls'
  proof (rule bench_sizes.raw_induct [where P = "\<lambda>l m ls'. \<forall>s. m = p_max_size p \<longrightarrow>
            bench_loop p cb l s = pfold (bench_iter p cb) ls' s", OF _ that])
    fix f l m ls'
    assume IH: "\<And>l m ls. f l m = Some ls \<Longrightarrow> \<forall>s. m = p_max_size p \<longrightarrow> bench_loop p cb l s = pfold (bench_iter p cb) ls s"
      and eq: "(if l \<le> m then Option.bind (f (l * 2) m) (\<lambda>ls. Some (l # ls)) else Some []) = Some ls'"
    show "\<forall>s. m = p_max_size p \<longrightarrow> bench_loop p cb l s = pfold (bench_iter p cb) ls' s"
    proof (intro allI impI)
      fix s
      assume mx: "m = p_max_size p"
      show "bench_loop p cb l s = pfold (bench_iter p cb) ls' s"
      proof (cases "l \<le> m")
        case True
        with eq obtain ls'' where f: "f (l * 2) m = Some ls''" and ls': "ls' = l # ls''"
          by (auto simp: bind_eq_Some_conv)
        have "bench_loop p cb (l * 2) = pfold (bench_iter p cb) ls''" using IH [OF f] mx by blast
        then show ?thesis using True mx ls' by (subst bench_loop.simps) simp
      next
        case False
        then show ?thesis using eq mx by (subst bench_loop.simps) (simp add: bret_def)
      qed
    qed
  qed
  then show ?thesis using assms by blast
qed


lemma bench_loop_returns:
  assumes "bench_loop p cb len s = Some (Inr s')"
  shows "\<exists>ls. bench_sizes len (p_max_size p) = Some ls \<and> pfold (bench_iter p cb) ls s = Some (Inr s')"
proof -
  have "\<forall>s'. r = Inr s' \<longrightarrow> (\<exists>ls. bench_sizes l (p_max_size q) = Some ls \<and> pfold (bench_iter q c) ls t = Some (Inr s'))"
    if "bench_loop q c l t = Some r" for q c l t r
  proof (rule bench_loop.raw_induct [where P = "\<lambda>q c l t r. \<forall>s'. r = Inr s' \<longrightarrow>
            (\<exists>ls. bench_sizes l (p_max_size q) = Some ls \<and> pfold (bench_iter q c) ls t = Some (Inr s'))", OF _ that])
    fix f q c l t r
    assume IH: "\<And>q c l t r. f q c l t = Some r \<Longrightarrow> \<forall>s'. r = Inr s' \<longrightarrow>
                  (\<exists>ls. bench_sizes l (p_max_size q) = Some ls \<and> pfold (bench_iter q c) ls t = Some (Inr s'))"
      and eq: "(if l \<le> p_max_size q then pbind (bench_iter q c l t) (f q c (l * 2)) else bret t) = Some r"
    show "\<forall>s'. r = Inr s' \<longrightarrow> (\<exists>ls. bench_sizes l (p_max_size q) = Some ls \<and> pfold (bench_iter q c) ls t = Some (Inr s'))"
    proof (intro allI impI)
      fix s'
      assume r: "r = Inr s'"
      show "\<exists>ls. bench_sizes l (p_max_size q) = Some ls \<and> pfold (bench_iter q c) ls t = Some (Inr s')"
      proof (cases "l \<le> p_max_size q")
        case True
        with eq r obtain t1 where it: "bench_iter q c l t = Some (Inr t1)" and rec: "f q c (l * 2) t1 = Some (Inr s')"
          by (auto simp: pbind_eq_Some_Inr)
        obtain ls where "bench_sizes (l * 2) (p_max_size q) = Some ls" and "pfold (bench_iter q c) ls t1 = Some (Inr s')"
          using IH [OF rec] by blast
        then show ?thesis using True it by (intro exI [of _ "l # ls"]) (simp add: bench_sizes.simps [of l])
      next
        case False
        then show ?thesis using eq r by (simp add: bench_sizes.simps [of l] bret_def)
      qed
    qed
  qed
  then show ?thesis using assms by blast
qed

lemma perf_main_syncs:
  assumes "perf_main ip args cb mem evs = Some (Inr s)"
  shows "\<exists>p ls. read_params ip args = Some (Inr p) \<and> bench_sizes (p_min_size p) (p_max_size p) = Some ls \<and>
           sync_count (b_trace s) = 1 + 2 * length ls"
proof -
  obtain p m s1 where p: "read_params ip args = Some (Inr p)"
    and l: "bench_loop p cb (p_min_size p)
              \<lparr>b_stalled = False, b_events = evs,
               b_trace = qp_setup p @ [Ibv_sync (p_mstr p)],
               b_mem = m, n_runs = 0, old_mem_content = 1\<rparr> = Some (Inr s1)"
    and s: "s = perf_close p s1"
    using assms by (auto simp: perf_main_def Let_def pbind_eq_Some_Inr bret_def)
  obtain ls where ls: "bench_sizes (p_min_size p) (p_max_size p) = Some ls"
    and f: "pfold (bench_iter p cb) ls
              \<lparr>b_stalled = False, b_events = evs,
               b_trace = qp_setup p @ [Ibv_sync (p_mstr p)],
               b_mem = m, n_runs = 0, old_mem_content = 1\<rparr> = Some (Inr s1)"
    using bench_loop_returns [OF l] by blast
  have "sync_count (b_trace s1) = 1 + 2 * length ls"
    using bench_iters_syncs [OF f] by (simp add: sync_count_def qp_setup_def)
  then have "sync_count (b_trace s) = 1 + 2 * length ls"
    using s by (simp add: perf_close_def qp_do_def sync_count_def)
  then show ?thesis using p ls by blast
qed

subsection \<open>The slave's read of \<open>hMem[sg.len/8-1]\<close>\<close>

lemma small_len_index:
  assumes "len < (8 :: 32 word)"
  shows "unat (len div 8 - 1) = 2 ^ 32 - 1"
proof -
  have "unat (len div 8) = 0" using assms by (simp add: unat_div word_less_nat_alt)
  then have "len div 8 = 0" by (simp add: unat_eq_zero)
  then show ?thesis by (simp add: unsigned_minus_1_eq_mask mask_eq_exp_minus_1)
qed


text \<open>
  C28. For a transfer size below 8, \<open>sg.len/8 - 1\<close> wraps to \<open>2^32 - 1\<close>, and the slave's
  latency round reads \<open>hMem[4294967295]\<close>, past the end of its buffer, as soon as the
  incoming request has completed.
\<close>

theorem slave_lat_read_oob:
  assumes "len < 8" and "length (b_mem t) < 2 ^ 32" and "i \<noteq> int_max"
    and w: "wait_for False Done ((i + 1) + (n - 1) * p_n_reps_lat p) t = Some (Inr t1)"
  shows "slave_lat_step p len n i t = Some (Inl (Mem Oob_read))"
proof -
  have "b_mem t1 = b_mem t" using wait_for_Inr [OF w] by auto
  then have "read_at (b_mem t1) (unat (len div 8 - 1)) = Inl Oob_read"
    using small_len_index [OF assms(1)] assms(2) by simp
  then show ?thesis using assms(3) w by (simp add: slave_lat_step_def Let_def bmem_def)
qed

subsection \<open>The loop refines the list of sizes\<close>

subsection \<open>Termination of the size loop\<close>

lemma poll_max [simp]: "poll_until chk n st (Poll (- 1) # evs) = bret (st, evs)"
  by (simp add: not_less)

lemma consumes_wait: "consumes 1 (wait_for chk c n)"
  by (simp add: consumes_def wait_for_def bret_def)

lemma consumes_bind:
  assumes "consumes a f" and "\<And>u. consumes b (g u)"
  shows "consumes (a + b) (\<lambda>t. pbind (f t) (g t))"
  unfolding consumes_def
proof (intro allI impI)
  fix t :: perf_state and j
  assume ev: "b_events t = replicate (a + b + j) (Poll (- 1))"
  have h: "case f t of None \<Rightarrow> False | Some (Inl _) \<Rightarrow> True | Some (Inr t') \<Rightarrow> b_events t' = replicate (b + j) (Poll (- 1))"
    using assms(1) ev by (simp add: consumes_def add.assoc)
  then show "case pbind (f t) (g t) of None \<Rightarrow> False | Some (Inl _) \<Rightarrow> True
               | Some (Inr t') \<Rightarrow> b_events t' = replicate j (Poll (- 1))"
  proof (cases "f t")
    case (Some r)
    show ?thesis
    proof (cases r)
      case (Inr u)
      then have "b_events u = replicate (b + j) (Poll (- 1))" using Some h by simp
      then show ?thesis using assms(2) [of t] Some Inr unfolding consumes_def by simp
    qed (use Some in simp)
  qed (use h in simp)
qed

lemma consumes_pre:
  assumes "consumes k f" and "\<And>t. b_events (g t) = b_events t"
  shows "consumes k (\<lambda>t. f (g t))"
  using assms by (simp add: consumes_def)

lemma consumes_diag:
  assumes "\<And>u. consumes k (F u)"
  shows "consumes k (\<lambda>t. F t t)"
  using assms by (simp add: consumes_def)

lemma consumes_bret:
  assumes "\<And>t. b_events (g t) = b_events t"
  shows "consumes 0 (\<lambda>t. bret (g t))"
  using assms by (simp add: consumes_def bret_def)

lemma consumes_err: "consumes k f \<Longrightarrow> consumes k (\<lambda>t. if c then Some (Inl e) else f t)"
  by (simp add: consumes_def)

lemma consumes_pfold:
  assumes "\<And>x. x \<in> set xs \<Longrightarrow> consumes k (body x)"
  shows "consumes (length xs * k) (pfold body xs)"
  using assms
proof (induction xs)
  case Nil
  then show ?case by (simp add: consumes_def)
next
  case (Cons x xs)
  have "consumes (k + length xs * k) (\<lambda>t. pbind (body x t) (pfold body xs))"
    using consumes_bind [of k "body x" "length xs * k" "\<lambda>_. pfold body xs"] Cons by simp
  then show ?case by (simp add: add.commute)
qed

lemma consumes_for_int_lt:
  assumes "unat n < 2 ^ 31" and "\<And>i. consumes k (body i)"
  shows "consumes (unat n * k) (for_int_lt n body)"
proof -
  have "for_int_lt n body = pfold body (map word_of_nat [0..<unat n])"
    using assms(1) by (intro ext) (rule for_int_lt_pfold)
  then show ?thesis using consumes_pfold [of "map word_of_nat [0..<unat n]" k body] assms(2) by simp
qed

lemma consumes_for_int_le:
  assumes "unat b < 2 ^ 31 - 1" and "\<And>i. consumes k (body i)"
  shows "consumes (unat b * k) (for_int_le b body)"
proof -
  have "for_int_le b body = pfold body (map word_of_nat [1..<Suc (unat b)])"
    using assms(1) by (intro ext) (rule for_int_le_pfold)
  then show ?thesis using consumes_pfold [of "map word_of_nat [1..<Suc (unat b)]" k body] assms(2) by (simp del: upt_Suc)
qed

lemma consumes_for_uint_le:
  assumes "unat b < 2 ^ 32 - 1" and "\<And>i. consumes k (body i)"
  shows "consumes (unat b * k) (for_uint_le b body)"
proof -
  have "for_uint_le b body = pfold body (map word_of_nat [1..<Suc (unat b)])"
    using assms(1) by (intro ext) (rule for_uint_le_pfold)
  then show ?thesis using consumes_pfold [of "map word_of_nat [1..<Suc (unat b)]" k body] assms(2) by (simp del: upt_Suc)
qed

lemma consumes_cbench: "consumes k f \<Longrightarrow> consumes (cb * k) (cbench_runtime cb f)"
proof -
  assume f: "consumes k f"
  have "cbench_runtime cb f = pfold (\<lambda>_. f) [0..<cb]" by (intro ext) (simp add: cbench_runtime_def)
  then show ?thesis using consumes_pfold [of "[0..<cb]" k "\<lambda>_. f"] f by simp
qed

lemma events_qp_do [simp]: "b_events (qp_do c s) = b_events s"
  by (simp add: qp_do_def)

lemma events_post [simp]: "b_events (post p len s) = b_events s"
  by (simp add: post_def)

lemma consumes_posts: "unat n < 2 ^ 31 \<Longrightarrow> consumes 0 (for_int_lt n (\<lambda>_ t. bret (post p len t)))"
  using consumes_for_int_lt [of n 0 "\<lambda>_ t. bret (post p len t)"] consumes_bret [of "post p len"] by simp

lemma consumes_thr_lambda: "unat (p_n_reps_thr p) < 2 ^ 31 \<Longrightarrow> consumes 1 (thr_lambda p len)"
proof -
  assume n: "unat (p_n_reps_thr p) < 2 ^ 31"
  have "consumes (0 + 1) (\<lambda>t. pbind (for_int_lt (p_n_reps_thr p) (\<lambda>_ t. bret (post p len t)) (t\<lparr>n_runs := n_runs t + 1\<rparr>))
          (wait_for True Done (p_n_reps_thr p * (n_runs u + 1))))" for u :: perf_state
    by (rule consumes_bind [OF consumes_pre [OF consumes_posts [OF n]] consumes_wait]) simp
  then have "consumes 1 (\<lambda>t. pbind (for_int_lt (p_n_reps_thr p) (\<lambda>_ t. bret (post p len t)) (t\<lparr>n_runs := n_runs t + 1\<rparr>))
          (wait_for True Done (p_n_reps_thr p * (n_runs t + 1))))"
    by (intro consumes_diag [where F = "\<lambda>u t. pbind (for_int_lt (p_n_reps_thr p) (\<lambda>_ t. bret (post p len t)) (t\<lparr>n_runs := n_runs t + 1\<rparr>))
          (wait_for True Done (p_n_reps_thr p * (n_runs u + 1)))"]) simp
  then show ?thesis by (simp add: thr_lambda_def [abs_def] Let_def)
qed

lemma consumes_lat_lambda:
  assumes n: "unat (p_n_reps_lat p) < 2 ^ 31"
  shows "consumes (unat (p_n_reps_lat p)) (lat_lambda p len)"
proof -
  let ?body = "\<lambda>(u :: perf_state) i (t :: perf_state). if i = int_max then Some (Inl Int_overflow)
                 else wait_for True Done ((i + 1) + (n_runs (u\<lparr>n_runs := n_runs u + 1\<rparr>) - 1) * p_n_reps_lat p) (post p len t)"
  have b: "consumes 1 (?body u i)" for u i
    by (rule consumes_err, rule consumes_pre [OF consumes_wait]) simp
  have "consumes (unat (p_n_reps_lat p) * 1) (\<lambda>t. for_int_lt (p_n_reps_lat p) (?body u) (t\<lparr>n_runs := n_runs t + 1\<rparr>))"
    for u :: perf_state
    by (rule consumes_pre [OF consumes_for_int_lt [OF n b]]) simp
  then have "consumes (unat (p_n_reps_lat p))
               (\<lambda>t. for_int_lt (p_n_reps_lat p) (?body t) (t\<lparr>n_runs := n_runs t + 1\<rparr>))"
    by (intro consumes_diag [where F = "\<lambda>u t. for_int_lt (p_n_reps_lat p) (?body u) (t\<lparr>n_runs := n_runs t + 1\<rparr>)"]) simp
  then show ?thesis unfolding lat_lambda_def [abs_def] Let_def .
qed

lemma consumes_master_iter:
  assumes "unat (p_n_reps_thr p) < 2 ^ 31" and "unat (p_n_reps_lat p) < 2 ^ 31"
  shows "consumes (cb * (1 + unat (p_n_reps_lat p))) (master_iter p cb len)"
proof -
  have "consumes (cb * 1 + cb * unat (p_n_reps_lat p))
          (\<lambda>t. pbind (cbench_runtime cb (thr_lambda p len) (t\<lparr>n_runs := 0\<rparr>))
                 (\<lambda>s1. cbench_runtime cb (lat_lambda p len)
                        (qp_do (Ibv_sync (p_mstr p)) ((qp_do Ibv_clear s1)\<lparr>n_runs := 0\<rparr>))))"
    by (rule consumes_bind [OF consumes_pre [OF consumes_cbench [OF consumes_thr_lambda [OF assms(1)]]]
             consumes_pre [OF consumes_cbench [OF consumes_lat_lambda [OF assms(2)]]]]) simp_all
  then show ?thesis by (simp add: master_iter_def [abs_def] distrib_left)
qed

lemma consumes_slave_thr:
  assumes "unat (p_n_reps_thr p) < 2 ^ 31" and "unat (p_n_bench_runs p) < 2 ^ 31 - 1"
  shows "consumes (unat (p_n_bench_runs p)) (slave_thr p len)"
proof -
  have b: "consumes (1 + 0) (\<lambda>t. pbind (wait_for True Done (p_n_reps_thr p * n) t)
              (for_int_lt (p_n_reps_thr p) (\<lambda>_ u. bret (post p len u))))" for n
    by (rule consumes_bind [OF consumes_wait consumes_posts [OF assms(1)]])
  have "unat (p_n_bench_runs p) < 2 ^ 32 - 1" using assms(2) by simp
  from consumes_for_uint_le [OF this b] show ?thesis by (simp add: slave_thr_def [abs_def])
qed

lemma consumes_slave_lat_step: "consumes 2 (slave_lat_step p len n i)"
  unfolding consumes_def
proof (intro allI impI)
  fix t :: perf_state and j
  assume "b_events t = replicate (2 + j) (Poll (- 1))"
  then have ev: "b_events t = Poll (- 1) # Poll (- 1) # replicate j (Poll (- 1))" by (simp add: numeral_2_eq_2)
  show "case slave_lat_step p len n i t of None \<Rightarrow> False | Some (Inl _) \<Rightarrow> True
          | Some (Inr t') \<Rightarrow> b_events t' = replicate j (Poll (- 1))"
    using ev by (simp add: slave_lat_step_def wait_for_def bret_def bmem_def Let_def split: sum.splits)
qed

lemma consumes_slave_lat:
  assumes "unat (p_n_reps_lat p) < 2 ^ 31" and "unat (p_n_bench_runs p) < 2 ^ 31 - 1"
  shows "consumes (unat (p_n_bench_runs p) * (unat (p_n_reps_lat p) * 2)) (slave_lat p len)"
proof -
  have b: "consumes (unat (p_n_reps_lat p) * 2) (\<lambda>t. for_int_lt (p_n_reps_lat p) (slave_lat_step p len n) t)" for n
    using consumes_for_int_lt [OF assms(1) consumes_slave_lat_step] by simp
  from consumes_for_int_le [OF assms(2) b] show ?thesis by (simp add: slave_lat_def [abs_def])
qed

lemma consumes_bench_iter:
  assumes "unat (p_n_reps_thr p) < 2 ^ 31" and "unat (p_n_reps_lat p) < 2 ^ 31"
    and "unat (p_n_bench_runs p) < 2 ^ 31 - 1"
  shows "consumes (iter_waits p cb) (bench_iter p cb len)"
proof -
  let ?pre = "\<lambda>t :: perf_state. qp_do (Ibv_sync (p_mstr p)) (qp_do Ibv_clear t)"
  have slave: "consumes (if p_oper p then unat (p_n_bench_runs p) * (1 + unat (p_n_reps_lat p) * 2) else 0)
                 (slave_iter p len)"
  proof (cases "p_oper p")
    case True
    have "consumes (unat (p_n_bench_runs p) + unat (p_n_bench_runs p) * (unat (p_n_reps_lat p) * 2))
            (\<lambda>t. pbind (slave_thr p len t) (\<lambda>s1. slave_lat p len (?pre s1)))"
      by (rule consumes_bind [OF consumes_slave_thr [OF assms(1,3)]
               consumes_pre [OF consumes_slave_lat [OF assms(2,3)]]]) simp
    then show ?thesis using True by (simp add: slave_iter_def [abs_def] distrib_left)
  next
    case False
    have "consumes 0 (\<lambda>t. bret (qp_do (Ibv_sync (p_mstr p)) t))" by (rule consumes_bret) simp
    then show ?thesis using False by (simp add: slave_iter_def [abs_def])
  qed
  show ?thesis
  proof (cases "p_mstr p")
    case True
    have "consumes (cb * (1 + unat (p_n_reps_lat p))) (\<lambda>t. master_iter p cb len (?pre t))"
      by (rule consumes_pre [OF consumes_master_iter [OF assms(1,2)]]) simp
    then show ?thesis using True by (simp add: bench_iter_def [abs_def] iter_waits_def)
  next
    case False
    have "consumes (if p_oper p then unat (p_n_bench_runs p) * (1 + unat (p_n_reps_lat p) * 2) else 0)
            (\<lambda>t. slave_iter p len (?pre t))"
      by (rule consumes_pre [OF slave]) simp
    then show ?thesis using False by (simp add: bench_iter_def [abs_def] iter_waits_def)
  qed
qed

text \<open>
  C20. Against a peer that completes every request, the whole size loop of lines 216-358
  returns (normally or by throwing) for master and slave in both modes, once some doubling
  of \<open>sg.len\<close> exceeds \<open>max_size\<close> (with \<open>uint32_t\<close> wrap-around), the repetition
  counts stay below \<open>2^31\<close>, and it sees as many polls as it has waits (\<open>bench_waits\<close>).
\<close>

theorem bench_loop_terminates:
  assumes "p_max_size p < len * 2 ^ k"
    and "unat (p_n_reps_thr p) < 2 ^ 31" and "unat (p_n_reps_lat p) < 2 ^ 31"
    and "unat (p_n_bench_runs p) < 2 ^ 31 - 1"
    and "b_events s = replicate m (Poll (- 1))" and "bench_waits p cb len \<le> m"
  shows "\<exists>r. bench_loop p cb len s = Some r"
proof -
  obtain ls where ls: "bench_sizes len (p_max_size p) = Some ls" using bench_sizes_Some [OF assms(1)] by blast
  have c: "consumes (length ls * iter_waits p cb) (pfold (bench_iter p cb) ls)"
    by (rule consumes_pfold, rule consumes_bench_iter [OF assms(2-4)])
  have "b_events s = replicate (length ls * iter_waits p cb + (m - length ls * iter_waits p cb)) (Poll (- 1))"
    using assms(5,6) ls by (simp add: bench_waits_def)
  then have "pfold (bench_iter p cb) ls s \<noteq> None"
    using c unfolding consumes_def by (metis option.simps(4))
  then show ?thesis using bench_loop_sizes [OF ls] by simp
qed

theorem bench_loop_terminates_witness:
  "p_max_size ex_master < 64 * 2 ^ 2 \<and> unat (p_n_reps_thr ex_master) < 2 ^ 31 \<and>
   unat (p_n_reps_lat ex_master) < 2 ^ 31 \<and> unat (p_n_bench_runs ex_master) < 2 ^ 31 - 1 \<and>
   b_events (ex_perf_state\<lparr>b_events := replicate 6 (Poll (- 1))\<rparr>) = replicate 6 (Poll (- 1)) \<and>
   bench_waits ex_master 1 64 \<le> 6 \<and>
   (\<exists>r. bench_loop ex_master 1 64 (ex_perf_state\<lparr>b_events := replicate 6 (Poll (- 1))\<rparr>) = Some r)"
proof -
  have h: "p_max_size ex_master < 64 * 2 ^ 2" "unat (p_n_reps_thr ex_master) < 2 ^ 31"
    "unat (p_n_reps_lat ex_master) < 2 ^ 31" "unat (p_n_bench_runs ex_master) < 2 ^ 31 - 1"
    by (simp_all add: ex_master_def ex_slave_read_def)
  have w: "bench_waits ex_master 1 64 \<le> 6"
    by (simp add: bench_waits_def iter_waits_def ex_master_def ex_slave_read_def bench_sizes.simps)
  show ?thesis using h w bench_loop_terminates [OF h, of "ex_perf_state\<lparr>b_events := replicate 6 (Poll (- 1))\<rparr>" 6 1] by simp
qed
theorem bench_loop_slave_read_forever_witness:
  "\<not> p_mstr ex_slave_read \<and> \<not> p_oper ex_slave_read \<and> (\<forall>k. (0 :: 32 word) * 2 ^ k \<le> p_max_size ex_slave_read) \<and>
   bench_loop ex_slave_read 1 0 ex_perf_state = None"
proof -
  have h: "\<not> p_mstr ex_slave_read" "\<not> p_oper ex_slave_read" "\<forall>k. (0 :: 32 word) * 2 ^ k \<le> p_max_size ex_slave_read"
    by (simp_all add: ex_slave_read_def)
  show ?thesis using h bench_loop_slave_read_forever [OF h, of 1 ex_perf_state] by simp
qed

theorem slave_lat_read_oob_witness:
  "(4 :: 32 word) < 8 \<and> length (b_mem ex_perf_state) < 2 ^ 32 \<and> (0 :: 32 word) \<noteq> int_max \<and>
   wait_for False Done ((0 + 1) + (1 - 1) * p_n_reps_lat ex_slave_read) ex_perf_state =
     Some (Inr (ex_perf_state\<lparr>b_events := [Poll 1], b_trace := [Wait Done 1]\<rparr>)) \<and>
   slave_lat_step ex_slave_read 4 1 0 ex_perf_state = Some (Inl (Mem Oob_read))"
proof -
  have w: "wait_for False Done ((0 + 1) + (1 - 1) * p_n_reps_lat ex_slave_read) ex_perf_state =
             Some (Inr (ex_perf_state\<lparr>b_events := [Poll 1], b_trace := [Wait Done 1]\<rparr>))"
    by (simp add: wait_for_def ex_perf_state_def ex_slave_read_def bret_def)
  have h: "(4 :: 32 word) < 8" "length (b_mem ex_perf_state) < 2 ^ 32" "(0 :: 32 word) \<noteq> int_max"
    by (simp_all add: ex_perf_state_def int_max_def)
  show ?thesis using h w slave_lat_read_oob [OF h w] by simp
qed

text \<open>
  C31. The slave's wait of line 310 never reads \<open>stalled\<close>: once SIGINT has arrived and
  while its counter stays below the threshold, the latency round keeps polling on every
  observation and never throws, where the checked wait with the same threshold (the
  master's, line 269) throws at its next poll. Since \<open>gotInt\<close> replaced the default
  action of SIGINT, Ctrl-C cannot stop the slave there.
\<close>

theorem slave_lat_ignores_sigint:
  assumes "i \<noteq> int_max" and "Sigint \<in> set evs"
    and "\<forall>x. Poll x \<in> set evs \<longrightarrow> x < (i + 1) + (n - 1) * p_n_reps_lat p"
    and "d < (i + 1) + (n - 1) * p_n_reps_lat p"
  shows "slave_lat_step p len n i (t\<lparr>b_events := evs @ [Poll d]\<rparr>) = None \<and>
         wait_for True Done ((i + 1) + (n - 1) * p_n_reps_lat p) (t\<lparr>b_events := evs @ [Poll d]\<rparr>) =
           Some (Inl Stalled)"
proof
  let ?n = "(i + 1) + (n - 1) * p_n_reps_lat p"
  have "poll_until False ?n (b_stalled t) (evs @ [Poll d]) = None"
    using assms(3,4) by (intro poll_until_unchecked) auto
  then show "slave_lat_step p len n i (t\<lparr>b_events := evs @ [Poll d]\<rparr>) = None"
    using assms(1) by (simp add: slave_lat_step_def wait_for_def)
  have "poll_until True ?n (b_stalled t) (evs @ [Poll d]) = Some (Inl Stalled)"
    using assms(2-4) by (rule poll_until_checked)
  then show "wait_for True Done ?n (t\<lparr>b_events := evs @ [Poll d]\<rparr>) = Some (Inl Stalled)"
    by (simp add: wait_for_def)
qed

theorem slave_lat_ignores_sigint_witness:
  "(0 :: 32 word) \<noteq> int_max \<and> Sigint \<in> set [Poll 0, Sigint, Poll 0] \<and>
   (0 :: 32 word) < (0 + 1) + (1 - 1) * p_n_reps_lat ex_slave_read \<and>
   slave_lat_step ex_slave_read 64 1 0 (ex_perf_state\<lparr>b_events := [Poll 0, Sigint, Poll 0] @ [Poll 0]\<rparr>) = None \<and>
   wait_for True Done ((0 + 1) + (1 - 1) * p_n_reps_lat ex_slave_read)
     (ex_perf_state\<lparr>b_events := [Poll 0, Sigint, Poll 0] @ [Poll 0]\<rparr>) = Some (Inl Stalled)"
proof -
  have h: "(0 :: 32 word) \<noteq> int_max" "Sigint \<in> set [Poll 0, Sigint, Poll 0]"
    "\<forall>x. Poll x \<in> set [Poll 0, Sigint, Poll 0] \<longrightarrow> x < (0 + 1) + (1 - 1) * p_n_reps_lat ex_slave_read"
    "(0 :: 32 word) < (0 + 1) + (1 - 1) * p_n_reps_lat ex_slave_read"
    by (simp_all add: int_max_def)
  show ?thesis using h slave_lat_ignores_sigint [OF h, of 64 ex_perf_state] by simp
qed

subsection \<open>Posted work requests\<close>

lemma post_count_append [simp]: "post_count (xs @ ys) = post_count xs + post_count ys"
  by (simp add: post_count_def)

lemma post_count_simps [simp]:
  "post_count [] = 0"
  "post_count (Post_send op l # cs) = Suc (post_count cs)"
  "post_count (Ibv_sync b # cs) = post_count cs"
  "post_count (Ibv_clear # cs) = post_count cs"
  "post_count (Wait c n # cs) = post_count cs"
  by (simp_all add: post_count_def)

lemma wait_for_posts:
  "wait_for chk c n s = Some (Inr s') \<Longrightarrow> post_count (b_trace s') = post_count (b_trace s)"
  by (auto dest: wait_for_Inr)

lemma post_posts [simp]: "post_count (b_trace (post p len s)) = Suc (post_count (b_trace s))"
  by (simp add: post_def qp_do_def)

lemma posts_count:
  assumes "for_int_lt n (\<lambda>_ t. bret (post p len t)) s = Some (Inr s')" and "unat n < 2 ^ 31"
  shows "post_count (b_trace s') = post_count (b_trace s) + unat n"
proof -
  have "pfold (\<lambda>_ t. bret (post p len t)) (map word_of_nat [0..<unat n] :: 32 word list) s = Some (Inr s')"
    using assms(1) unfolding for_int_lt_pfold [OF assms(2)] .
  then have "post_count (b_trace s') = post_count (b_trace s) + 1 * length (map word_of_nat [0..<unat n] :: 32 word list)"
    by (rule pfold_adds) (auto simp: bret_def)
  then show ?thesis by simp
qed

lemma cbench_posts:
  assumes "cbench_runtime k f s = Some (Inr s')"
    and "\<And>t t'. f t = Some (Inr t') \<Longrightarrow> post_count (b_trace t') = post_count (b_trace t) + c"
  shows "post_count (b_trace s') = post_count (b_trace s) + c * k"
  using pfold_adds [OF assms(1) [unfolded cbench_runtime_def], of "\<lambda>t. post_count (b_trace t)" c] assms(2) by simp

lemma thr_lambda_posts:
  assumes "thr_lambda p len s = Some (Inr s')" and "unat (p_n_reps_thr p) < 2 ^ 31"
  shows "post_count (b_trace s') = post_count (b_trace s) + unat (p_n_reps_thr p)"
proof -
  obtain s2 where l: "for_int_lt (p_n_reps_thr p) (\<lambda>_ t. bret (post p len t)) (s\<lparr>n_runs := n_runs s + 1\<rparr>) = Some (Inr s2)"
    and w: "wait_for True Done (p_n_reps_thr p * (n_runs s + 1)) s2 = Some (Inr s')"
    using assms(1) by (auto simp: thr_lambda_def Let_def pbind_eq_Some_Inr)
  show ?thesis using posts_count [OF l assms(2)] wait_for_posts [OF w] by simp
qed

lemma lat_lambda_posts:
  assumes "lat_lambda p len s = Some (Inr s')" and "unat (p_n_reps_lat p) < 2 ^ 31"
  shows "post_count (b_trace s') = post_count (b_trace s) + unat (p_n_reps_lat p)"
proof -
  have step: "post_count (b_trace t') = post_count (b_trace t) + 1"
    if "(if i = int_max then Some (Inl Int_overflow) else wait_for True Done x (post p len t)) = Some (Inr t')"
    for i x and t t' :: perf_state
    using that wait_for_posts [of True Done x "post p len t" t'] by (simp split: if_splits)
  have "pfold (\<lambda>i t. let t1 = post p len t in if i = int_max then Some (Inl Int_overflow)
            else wait_for True Done ((i + 1) + (n_runs (s\<lparr>n_runs := n_runs s + 1\<rparr>) - 1) * p_n_reps_lat p) t1)
          (map word_of_nat [0..<unat (p_n_reps_lat p)]) (s\<lparr>n_runs := n_runs s + 1\<rparr>) = Some (Inr s')"
    using assms(1) unfolding lat_lambda_def Let_def for_int_lt_pfold [OF assms(2)] .
  then have "post_count (b_trace s') = post_count (b_trace (s\<lparr>n_runs := n_runs s + 1\<rparr>)) + 1 * length (map word_of_nat [0..<unat (p_n_reps_lat p)] :: 32 word list)"
    by (rule pfold_adds) (use step in \<open>simp add: Let_def\<close>)
  then show ?thesis by simp
qed


lemma master_iter_posts:
  assumes "master_iter p cb len s = Some (Inr s')"
    and "unat (p_n_reps_thr p) < 2 ^ 31" and "unat (p_n_reps_lat p) < 2 ^ 31"
  shows "post_count (b_trace s') = post_count (b_trace s) + cb * (unat (p_n_reps_thr p) + unat (p_n_reps_lat p))"
proof -
  obtain s1 where s1: "cbench_runtime cb (thr_lambda p len) (s\<lparr>n_runs := 0\<rparr>) = Some (Inr s1)"
    and s2: "cbench_runtime cb (lat_lambda p len) (qp_do (Ibv_sync (p_mstr p)) ((qp_do Ibv_clear s1)\<lparr>n_runs := 0\<rparr>)) = Some (Inr s')"
    using assms(1) by (auto simp: master_iter_def pbind_eq_Some_Inr)
  have "post_count (b_trace s1) = post_count (b_trace (s\<lparr>n_runs := 0\<rparr>)) + unat (p_n_reps_thr p) * cb"
    using s1 by (rule cbench_posts) (rule thr_lambda_posts [OF _ assms(2)])
  moreover have "post_count (b_trace s') =
      post_count (b_trace (qp_do (Ibv_sync (p_mstr p)) ((qp_do Ibv_clear s1)\<lparr>n_runs := 0\<rparr>))) + unat (p_n_reps_lat p) * cb"
    using s2 by (rule cbench_posts) (rule lat_lambda_posts [OF _ assms(3)])
  ultimately show ?thesis by (simp add: qp_do_def algebra_simps)
qed

lemma slave_thr_posts:
  assumes "slave_thr p len s = Some (Inr s')"
    and "unat (p_n_reps_thr p) < 2 ^ 31" and "unat (p_n_bench_runs p) < 2 ^ 32 - 1"
  shows "post_count (b_trace s') = post_count (b_trace s) + unat (p_n_bench_runs p) * unat (p_n_reps_thr p)"
proof -
  let ?body = "\<lambda>n (t :: perf_state). pbind (wait_for True Done (p_n_reps_thr p * n) t)
                  (\<lambda>t'. for_int_lt (p_n_reps_thr p) (\<lambda>_ u. bret (post p len u)) t')"
  have f: "pfold ?body (map word_of_nat [1..<Suc (unat (p_n_bench_runs p))]) s = Some (Inr s')"
    using assms(1) unfolding slave_thr_def for_uint_le_pfold [OF assms(3)] .
  have step: "post_count (b_trace t') = post_count (b_trace t) + unat (p_n_reps_thr p)"
    if "?body n t = Some (Inr t')" for n and t t' :: perf_state
  proof -
    from that obtain u where w: "wait_for True Done (p_n_reps_thr p * n) t = Some (Inr u)"
      and l: "for_int_lt (p_n_reps_thr p) (\<lambda>_ u. bret (post p len u)) u = Some (Inr t')"
      unfolding pbind_eq_Some_Inr by blast
    show ?thesis using wait_for_posts [OF w] posts_count [OF l assms(2)] by simp
  qed
  have "post_count (b_trace s') = post_count (b_trace s) + unat (p_n_reps_thr p) * length (map word_of_nat [1..<Suc (unat (p_n_bench_runs p))] :: 32 word list)"
    using f by (rule pfold_adds) (rule step)
  then show ?thesis by simp
qed

lemma slave_lat_step_posts:
  "slave_lat_step p len n i t = Some (Inr t') \<Longrightarrow> post_count (b_trace t') = Suc (post_count (b_trace t))"
proof -
  assume a: "slave_lat_step p len n i t = Some (Inr t')"
  let ?target = "(i + 1) + (n - 1) * p_n_reps_lat p"
  obtain t1 where w1: "wait_for False Done ?target t = Some (Inr t1)"
    and rest: "pbind (bmem (read_at (b_mem t1) (unat (len div 8 - 1))))
                 (\<lambda>b. wait_for True Sent ?target (post p len (t1\<lparr>old_mem_content := scast b\<rparr>))) = Some (Inr t')"
    using a by (auto simp: slave_lat_step_def Let_def pbind_eq_Some_Inr split: if_splits)
  then obtain b :: byte where w2: "wait_for True Sent ?target (post p len (t1\<lparr>old_mem_content := scast b\<rparr>)) = Some (Inr t')"
    by (auto simp: pbind_eq_Some_Inr bmem_def split: sum.splits)
  show ?thesis using wait_for_posts [OF w1] wait_for_posts [OF w2] by simp
qed

lemma slave_lat_posts:
  assumes "slave_lat p len s = Some (Inr s')"
    and "unat (p_n_reps_lat p) < 2 ^ 31" and "unat (p_n_bench_runs p) < 2 ^ 31 - 1"
  shows "post_count (b_trace s') = post_count (b_trace s) + unat (p_n_bench_runs p) * unat (p_n_reps_lat p)"
proof -
  have inner: "post_count (b_trace u') = post_count (b_trace u) + unat (p_n_reps_lat p)"
    if "for_int_lt (p_n_reps_lat p) (slave_lat_step p len n) u = Some (Inr u')" for n u u'
  proof -
    have "pfold (slave_lat_step p len n) (map word_of_nat [0..<unat (p_n_reps_lat p)]) u = Some (Inr u')"
      using that unfolding for_int_lt_pfold [OF assms(2)] .
    then have "post_count (b_trace u') = post_count (b_trace u) + 1 * length (map word_of_nat [0..<unat (p_n_reps_lat p)] :: 32 word list)"
      by (rule pfold_adds) (simp add: slave_lat_step_posts)
    then show ?thesis by simp
  qed
  have f: "pfold (\<lambda>n t. for_int_lt (p_n_reps_lat p) (slave_lat_step p len n) t)
             (map word_of_nat [1..<Suc (unat (p_n_bench_runs p))]) s = Some (Inr s')"
    using assms(1) unfolding slave_lat_def for_int_le_pfold [OF assms(3)] .
  have "post_count (b_trace s') = post_count (b_trace s) + unat (p_n_reps_lat p) * length (map word_of_nat [1..<Suc (unat (p_n_bench_runs p))] :: 32 word list)"
    using f by (rule pfold_adds) (rule inner)
  then show ?thesis by simp
qed

text \<open>
  C36. The work requests of one transfer size: the master posts \<open>n_reps_thr + n_reps_lat\<close>
  requests per call of the measured functions, a slave in write mode the same number per
  benchmark run, and a slave in read mode none. So the two ends post equally often only
  when \<open>cBench::runtime\<close> calls its function \<open>n_bench_runs\<close> times, which the program
  does not check.
\<close>

theorem bench_iter_posts:
  assumes "bench_iter p cb len s = Some (Inr s')"
    and "unat (p_n_reps_thr p) < 2 ^ 31" and "unat (p_n_reps_lat p) < 2 ^ 31" and "unat (p_n_bench_runs p) < 2 ^ 31 - 1"
  shows "post_count (b_trace s') = post_count (b_trace s) +
           (if p_mstr p then cb else if p_oper p then unat (p_n_bench_runs p) else 0) *
           (unat (p_n_reps_thr p) + unat (p_n_reps_lat p))"
proof -
  let ?s1 = "qp_do (Ibv_sync (p_mstr p)) (qp_do Ibv_clear s)"
  have c1: "post_count (b_trace ?s1) = post_count (b_trace s)" by (simp add: qp_do_def)
  show ?thesis
  proof (cases "p_mstr p")
    case True
    then have "master_iter p cb len ?s1 = Some (Inr s')" using assms(1) by (simp add: bench_iter_def)
    then show ?thesis using master_iter_posts assms(2,3) c1 True by fastforce
  next
    case m: False
    show ?thesis
    proof (cases "p_oper p")
      case True
      then obtain s1 where t: "slave_thr p len ?s1 = Some (Inr s1)"
        and l: "slave_lat p len (qp_do (Ibv_sync (p_mstr p)) (qp_do Ibv_clear s1)) = Some (Inr s')"
        using assms(1) m by (auto simp: bench_iter_def slave_iter_def pbind_eq_Some_Inr)
      have "unat (p_n_bench_runs p) < 2 ^ 32 - 1" using assms(4) by simp
      then show ?thesis
        using slave_thr_posts [OF t assms(2)] slave_lat_posts [OF l assms(3,4)] c1 m True
        by (simp add: qp_do_def algebra_simps)
    next
      case False
      then show ?thesis using assms(1) m c1 by (auto simp: bench_iter_def slave_iter_def bret_def qp_do_def)
    qed
  qed
qed

theorem bench_iter_posts_witness:
  "\<exists>s'. bench_iter ex_master 1 64 (ex_perf_state\<lparr>b_events := [Poll 2, Poll 1, Poll 2]\<rparr>) = Some (Inr s') \<and>
     unat (p_n_reps_thr ex_master) < 2 ^ 31 \<and> unat (p_n_reps_lat ex_master) < 2 ^ 31 \<and>
     unat (p_n_bench_runs ex_master) < 2 ^ 31 - 1 \<and> post_count (b_trace s') = 4"
proof -
  have "case bench_iter ex_master 1 64 (ex_perf_state\<lparr>b_events := [Poll 2, Poll 1, Poll 2]\<rparr>) of
          Some (Inr _) \<Rightarrow> True | _ \<Rightarrow> False"
    by code_simp
  then obtain s' where r: "bench_iter ex_master 1 64 (ex_perf_state\<lparr>b_events := [Poll 2, Poll 1, Poll 2]\<rparr>) = Some (Inr s')"
    by (auto split: option.splits sum.splits)
  have h: "unat (p_n_reps_thr ex_master) < 2 ^ 31" "unat (p_n_reps_lat ex_master) < 2 ^ 31"
          "unat (p_n_bench_runs ex_master) < 2 ^ 31 - 1"
    by (simp_all add: ex_master_def ex_slave_read_def)
  have "post_count (b_trace s') = 4"
    using bench_iter_posts [OF r h] by (simp add: ex_master_def ex_slave_read_def ex_perf_state_def)
  then show ?thesis using r h by blast
qed

end
