(* ===== verification/RDMA_Receiver.thy ===== *)
theory RDMA_Receiver
  imports Bench_Setup
begin

text \<open>
  The receiver example, \<open>main\<close> of
  \<open>src/artifacts/coyote-experiments/sw/examples/rdma_receiver/main.cpp\<close> (lines 49-175).
  It shares lines 30-124 with the benchmark (\<open>Bench_Setup\<close>), then fills its buffer with
  ones (lines 145-150), waits until one work request has completed (line 154), and prints
  the buffer as a C string (line 156). What the peer writes into the buffer meanwhile is
  an input of the run: a list of RDMA writes, each a byte string at an offset of the
  registered buffer, which the NIC applies in order and which never change its length.
\<close>

section \<open>Definitions\<close>

text \<open>
  One RDMA write of the peer: \<open>bs\<close> stored from offset \<open>off\<close>; the bytes that fall outside
  the registered buffer are not written.
\<close>

definition rdma_write :: "nat \<Rightarrow> byte list \<Rightarrow> byte list \<Rightarrow> byte list" where
  "rdma_write off bs m =
     map (\<lambda>k. if off \<le> k \<and> k < off + length bs then bs ! (k - off) else m ! k) [0..<length m]"

definition peer_writes :: "(nat \<times> byte list) list \<Rightarrow> byte list \<Rightarrow> byte list" where
  "peer_writes ws m = fold (\<lambda>(off, bs). rdma_write off bs) ws m"

definition recv_main ::
  "string option \<Rightarrow> bench_args \<Rightarrow> byte list \<Rightarrow> (nat \<times> byte list) list \<Rightarrow> bench_event list \<Rightarrow>
     (byte list \<times> bench_state) brun"
where
  "recv_main env_ip args mem ws evs =
     pbind (read_params env_ip args) (\<lambda>p.
       let s0 = \<lparr>b_stalled = False, b_events = evs,
                 b_trace = qp_setup p, b_mem = mem\<rparr> in
       pbind (fill_recv (p_max_size p) mem) (\<lambda>m.
       pbind (wait_for True Done 1 (s0\<lparr>b_mem := m\<rparr>)) (\<lambda>s1.
       let s2 = s1\<lparr>b_mem := peer_writes ws (b_mem s1)\<rparr> in
       pbind (c_string (b_mem s2)) (\<lambda>str. bret (str, s2)))))"

text \<open>The receiver started as the master with \<open>--maxs 128\<close>.\<close>

definition ex_recv_args :: bench_args where
  "ex_recv_args = \<lparr>a_tcpaddr = None, a_benchruns = None, a_repst = None, a_repsl = None, a_mins = None,
     a_maxs = Some 128, a_oper = None\<rparr>"

section \<open>Lemmas\<close>

lemma length_rdma_write [simp]: "length (rdma_write off bs m) = length m"
  by (simp add: rdma_write_def)

lemma rdma_write_cover: "length m \<le> length bs \<Longrightarrow> rdma_write 0 bs m = take (length m) bs"
  by (intro nth_equalityI) (simp_all add: rdma_write_def)

text \<open>
  C29. The receiver prints what it wrote itself when the peer leaves the buffer alone: on a
  zeroed buffer larger than \<open>8 * (max_size/64)\<close> bytes, the string of line 156 is
  \<open>8 * (max_size/64)\<close> bytes of 1. Lines 145-150 fill one eighth of \<open>max_size\<close>, not the
  64-byte blocks of \<open>perf_rdma\<close>.
\<close>

theorem recv_main_prints_fill:
  assumes p: "read_params ip args = Some (Inr p)" and n: "8 * (unat (p_max_size p) div 64) < n" and d: "1 \<le> d"
  shows "\<exists>s. recv_main ip args (replicate n 0) [] (Poll d # evs) = Some (Inr (replicate (8 * (unat (p_max_size p) div 64)) 1, s))"
proof -
  let ?k = "8 * (unat (p_max_size p) div 64)"
  have f: "fill_recv (p_max_size p) (replicate n 0) = bret (replicate ?k 1 @ replicate (n - ?k) 0)"
    using fill_recv_ok [of "p_max_size p" "replicate n 0"] n by simp
  have c: "c_string (replicate ?k 1 @ replicate (n - ?k) 0) = bret (replicate ?k 1)"
  proof -
    obtain j where j: "n - ?k = Suc j" using n by (metis Suc_diff_Suc)
    have "(1::byte) \<noteq> 0" by simp
    then show ?thesis unfolding j using c_string_prefix [of "replicate ?k 1" "replicate j 0"] by simp
  qed
  have d0: "d \<noteq> 0" using d by auto
  show ?thesis
    using p f c d0 by (simp add: recv_main_def Let_def wait_for_def bret_def not_less peer_writes_def)
qed

text \<open>
  C30. When the peer's writes leave no NUL byte in the filled buffer, \<open>string mem_content(hMem)\<close>
  reads past its end.
\<close>

theorem recv_main_overread:
  assumes p: "read_params ip args = Some (Inr p)" and len: "8 * (unat (p_max_size p) div 64) \<le> length mem"
    and d: "1 \<le> d"
    and peer: "0 \<notin> set (peer_writes ws (replicate (8 * (unat (p_max_size p) div 64)) 1 @
                                         drop (8 * (unat (p_max_size p) div 64)) mem))"
  shows "recv_main ip args mem ws (Poll d # evs) = Some (Inl (Mem Oob_read))"
proof -
  have d0: "d \<noteq> 0" using d by auto
  show ?thesis
    using p fill_recv_ok [OF len] d0 peer by (simp add: recv_main_def Let_def wait_for_def bret_def c_string_def)
qed

theorem recv_main_prints_fill_witness:
  "read_params (Some ''10.0.0.2'') ex_recv_args =
     Some (Inr \<lparr>p_tcp_mstr_ip = [], p_n_bench_runs = 1, p_n_reps_thr = 1000, p_n_reps_lat = 100,
                p_min_size = 128, p_max_size = 128, p_oper = False, p_mstr = True, p_ibv_ip = ''10.0.0.2''\<rparr>) \<and>
   8 * (unat (128 :: 32 word) div 64) < 64 \<and> (1 :: 32 word) \<le> 1 \<and>
   (\<exists>s. recv_main (Some ''10.0.0.2'') ex_recv_args (replicate 64 0) [] [Poll 1] = Some (Inr (replicate 16 1, s)))"
proof -
  have p: "read_params (Some ''10.0.0.2'') ex_recv_args =
     Some (Inr \<lparr>p_tcp_mstr_ip = [], p_n_bench_runs = 1, p_n_reps_thr = 1000, p_n_reps_lat = 100,
                p_min_size = 128, p_max_size = 128, p_oper = False, p_mstr = True, p_ibv_ip = ''10.0.0.2''\<rparr>)"
    by (simp add: read_params_def ex_recv_args_def opt_or_def bret_def defNBenchRuns_def defNRepsThr_def
                  defNRepsLat_def defMinSize_def defOper_def)
  have n: "8 * (unat (128 :: 32 word) div 64) < 64" by simp
  show ?thesis using p n recv_main_prints_fill [OF p, of 64 1 "[]"] by simp
qed

theorem recv_main_overread_witness:
  "read_params (Some ''10.0.0.2'') ex_recv_args =
     Some (Inr \<lparr>p_tcp_mstr_ip = [], p_n_bench_runs = 1, p_n_reps_thr = 1000, p_n_reps_lat = 100,
                p_min_size = 128, p_max_size = 128, p_oper = False, p_mstr = True, p_ibv_ip = ''10.0.0.2''\<rparr>) \<and>
   8 * (unat (128 :: 32 word) div 64) \<le> length (replicate 64 (0 :: byte)) \<and> (1 :: 32 word) \<le> 1 \<and>
   0 \<notin> set (peer_writes [(0, replicate 64 7)] (replicate (8 * (unat (128 :: 32 word) div 64)) 1 @
                                               drop (8 * (unat (128 :: 32 word) div 64)) (replicate 64 0))) \<and>
   recv_main (Some ''10.0.0.2'') ex_recv_args (replicate 64 0) [(0, replicate 64 7)] [Poll 1] =
     Some (Inl (Mem Oob_read))"
proof -
  have p: "read_params (Some ''10.0.0.2'') ex_recv_args =
     Some (Inr \<lparr>p_tcp_mstr_ip = [], p_n_bench_runs = 1, p_n_reps_thr = 1000, p_n_reps_lat = 100,
                p_min_size = 128, p_max_size = 128, p_oper = False, p_mstr = True, p_ibv_ip = ''10.0.0.2''\<rparr>)"
    by (simp add: read_params_def ex_recv_args_def opt_or_def bret_def defNBenchRuns_def defNRepsThr_def
                  defNRepsLat_def defMinSize_def defOper_def)
  have h: "8 * (unat (128 :: 32 word) div 64) \<le> length (replicate 64 (0 :: byte))" "(1 :: 32 word) \<le> 1"
    by simp_all
  have w: "0 \<notin> set (peer_writes [(0, replicate 64 7)] (replicate (8 * (unat (128 :: 32 word) div 64)) 1 @
                                               drop (8 * (unat (128 :: 32 word) div 64)) (replicate 64 0)))"
    by (simp add: peer_writes_def rdma_write_cover)
  have "recv_main (Some ''10.0.0.2'') ex_recv_args (replicate 64 0) [(0, replicate 64 7)] (Poll 1 # []) =
          Some (Inl (Mem Oob_read))"
    using recv_main_overread [OF p, of "replicate 64 0" 1 "[(0, replicate 64 7)]" "[]"] h w by simp
  then show ?thesis using p h w by simp
qed

end
