(* ===== verification/Spec2Isabelle.thy ===== *)
theory Spec2Isabelle
  imports Release RDMA_Server Perf_RDMA RDMA_Receiver
begin

text \<open>
  A verification development of the programs of the repository: the Coyote GUP driver,
  the RDMA queue-pair server, and the two RDMA examples of Coyote.

  \<^bold>\<open>The GUP manager of the Coyote FPGA driver\<close>
  (\<open>src/artifacts/coyote-experiments/driver/fpga_gup.c\<close>). It keeps, per device and
  context, a kernel hash table of pinned user regions (\<open>user_buff_map\<close>). On a device
  page fault it finds or pins the region, migrates it between host and card memory, and
  programs the device TLB. Explicit calls migrate or release regions. The parts map to
  theories as follows; each theory's opening text says which lines it translates.

  \<^item> \<open>Prelude\<close>: the machine types (\<open>u64 = 64 word\<close>), the outcome type
    \<open>fault + 'a\<close> for a routine that blocks, reads or writes out of bounds, dereferences
    NULL, hits \<open>BUG_ON\<close> or diverges, checked array reads, and page ranges on 64-bit
    page numbers.
  \<^item> \<open>Region_Table\<close>: \<open>struct user_pages\<close>, \<open>struct desc_aligned\<close>, \<open>struct bus_drvdata\<close>
    as records. The hash table is a list of buckets addressed by (bucket, index), with
    \<open>hash_64\<close>, \<open>hash_add\<close>, \<open>hash_del\<close>. The invariant \<open>table_inv\<close> says: \<open>2^order\<close>
    buckets, every entry in the bucket of its start page and well formed, regions
    pairwise disjoint.
  \<^item> \<open>Region_Lookup\<close>: \<open>map_present\<close> (lines 145-165), with the clipping of a fault against
    the regions it overlaps (C5, C6).
  \<^item> \<open>Device\<close>: the state the routines share (\<open>gup_state\<close>: tables, completion flags, the
    two migration mutexes, pin counts, dirty bits, host and card memory, card pool).
    It also holds the device and kernel collaborators, modelled from the contracts of the
    specification because their code is not in the repository: \<open>device_step\<close>,
    \<open>get_user_pages_remote\<close>, \<open>card_alloc\<close>, \<open>card_free\<close>.
  \<^item> \<open>Page_Pinner\<close>: \<open>tlb_get_user_pages\<close> (lines 398-495), with its partial-pin and
    allocation-failure rollbacks (C2, C13, C34, C35).
  \<^item> \<open>TLB_Programmer\<close>: \<open>tlb_map_gup\<close> and \<open>tlb_unmap_gup\<close> (lines 175-267). Their counters
    are 32-bit words. The fill loop is a \<open>function\<close> terminating by the measure
    \<open>slots - j\<close>. The invalidation loop is a \<open>partial_function (option)\<close>, where \<open>None\<close>
    means it never ends. Their claims are C9, C10, C32, C33 and C26: the loop ends whenever
    \<open>pg_inc > 0\<close> and \<open>n_pages + pg_inc\<close> does not wrap.
  \<^item> \<open>Migration\<close>: \<open>migrate_to_card_gup\<close> and \<open>migrate_to_host_gup\<close> (lines 275-349), with
    the lock, the copy and the completion wait (C11, C12).
  \<^item> \<open>Fault_Handler\<close>: \<open>mmu_handler_gup\<close> (lines 51-136), \<open>offload_user_gup\<close> and
    \<open>sync_user_gup\<close>, composed from the components above (C1, C7, C8).
  \<^item> \<open>Release\<close>: \<open>tlb_put_user_pages\<close> and \<open>tlb_put_user_pages_cpid\<close> (lines 505-593).
    A release unmaps, frees card pages, marks pages dirty, unpins and removes the entry,
    in that order (C3, C14, C15).

  The lemma groups show:
  \<^item> the table invariant kept by every operation that changes the table: pin, fault,
    migration, release;
  \<^item> the functional behaviour of each path, error paths included;
  \<^item> a refinement of the TLB batch into the translations it installs;
  \<^item> round trips: migration there and back, pin then release (C4, below);
  \<^item> the equivalence of the release scan with a search;
  \<^item> termination and divergence of the driver's loops.

  \<^bold>\<open>The RDMA queue-pair server\<close> (\<open>src/scripts/network/RDMA_server_v2.c\<close>).
  \<^item> \<open>RDMA_Wire\<close>: the data it exchanges: the 64-byte \<open>struct ibvQ\<close> and its round trip,
    the IPv4-mapped GID, the \<open>%08x\<close> GID string, the 32-bit buffer size and the message
    stores (C22, C23), and the helpers \<open>gidToUint\<close>, \<open>msgAck\<close>, \<open>msgNAck\<close>. The
    acknowledgement of line 314 is the first byte of an \<open>int\<close>, taken in little-endian
    order (\<open>ack_byte\<close>).
  \<^item> \<open>RDMA_Server\<close>: \<open>main\<close> as phases over its locals. Each library result is an input
    of the run, and a local not yet assigned is \<open>Uninit\<close>, so every \<open>goto end\<close> path
    reaches the modelled clean-up. It holds the success trace, the undefined behaviour of
    each exit path, the invalid \<open>free\<close>, an invariant over all runs that the buffer is
    never freed, and the sizes of all socket writes (C16-C18, C27).

  \<^bold>\<open>The RDMA examples of Coyote\<close>
  (\<open>src/artifacts/coyote-experiments/sw/examples/perf_rdma/main.cpp\<close> and
  \<open>.../rdma_receiver/main.cpp\<close>). Two hosts run \<open>perf_rdma\<close>, one as master and one as slave
  (\<open>--tcpaddr\<close>); they exchange queue pairs through Coyote's \<open>ibvQpMap\<close>, synchronise, and
  measure RDMA writes or reads for each transfer size. The receiver fills its buffer,
  waits for one completion and prints the buffer. The library (\<open>ibvQpMap\<close>, \<open>ibvQpConn\<close>,
  \<open>cBench\<close>) is not in the repository: its calls are recorded in a trace (\<open>qp_call\<close>),
  the values \<open>ibvDone()\<close> and \<open>ibvSent()\<close> return and the deliveries of SIGINT are a list
  of input events, and \<open>cBench::runtime\<close> calls the measured function a given number of
  times. A run returns \<open>(bench_fault + 'a) option\<close>, whose \<open>None\<close> is a run that never returns.
  \<^item> \<open>Bench_Setup\<close>: lines 30-121 that both files share (signal flag, identifiers and port,
    defaults, options, \<open>n_pages\<close>, the creation and exchange of the queue pair as
    \<open>qp_setup\<close>), the polling loops, C \<open>for\<close> loops on 32-bit counters as one
    \<open>partial_function\<close> (\<open>c_loop\<close>) with the \<open>int\<close> overflow at \<open>INT_MAX\<close>, and both buffer
    fills. Its lemmas turn a bounded \<open>for\<close> loop into a fold and show what each fill writes
    (C24, C25).
  \<^item> \<open>Perf_RDMA\<close>: the master's throughput and latency lambdas, the slave's answering loops,
    one iteration per size (\<open>bench_iter\<close>), the size loop (\<open>bench_loop\<close>, a
    \<open>partial_function\<close>), the closing handshake (\<open>perf_close\<close>) and \<open>main\<close>. Against a
    peer that completes every request, the size loop returns for both ends in both modes
    after \<open>bench_waits\<close> polls (C20); a read slave whose sizes never exceed \<open>max_size\<close>
    loops forever (C21). Every iteration makes two \<open>ibvSync\<close> calls, so both ends
    synchronise equally often (C19, below). Each iteration posts a number of work
    requests fixed by the parameters (C36). The slave reads out of bounds for sizes
    below 8 (C28), and its wait of line 310 ignores SIGINT (C31).
  \<^item> \<open>RDMA_Receiver\<close>: \<open>main\<close> of the receiver, what it prints (C29) and its over-read
    (C30). The peer's RDMA writes into the buffer are an input list of (offset, bytes).

  Bounds and fuel:
  \<^item> No loop uses a fuel counter. The driver's loops terminate by measures, or are partial
    functions whose non-termination is the value \<open>None\<close> and is proved where it happens.
    The waits of the examples consume a finite list of events. A wait that has not
    returned when the events run out does not return on that observation (\<open>None\<close>).
    The termination of the benchmark (C20) is stated for a list of exactly as many
    answering polls as its waits (\<open>bench_waits\<close>, computed from the parameters), with the
    repetition counts below \<open>2^31\<close> where the \<open>int\<close> loops are plain folds.
  \<^item> The fixtures use \<open>USER_HASH_TABLE_ORDER = 1\<close> (two buckets), in which adjacent pages
    101 and 102 share a bucket, and 4 KiB and 2 MiB page orders. The benchmark fixtures
    use sizes 64 and 128 and two repetitions. They are small enough for \<open>simp\<close> and
    \<open>code_simp\<close>; the theorems themselves hold for any order and sizes.

  Not modelled:
  \<^item> \<open>printf\<close> and the output of the examples, the \<open>vfree\<close> calls (no heap model; the
    never-freed \<open>struct user_pages\<close> is a finding), locking against concurrent faults (the
    model is sequential, one operation at a time), and the two helpers of the RDMA
    server that only print (\<open>uintToGid\<close>, \<open>print\<close>, lines 81-87).
  \<^item> Signals during the driver's \<open>wait_event_interruptible\<close> calls (lines 263, 284, 344):
    the code ignores their return value, and the model waits until the flag is set. A
    NULL result of \<open>find_vma\<close> in \<open>mmu_handler_gup\<close> is not modelled (the VMA's page order
    is a total function), nor the \<open>int\<close> overflow of the pinner's counters beyond
    \<open>2^31\<close> pages. In the RDMA server, the peer's RDMA writes into the registered buffer
    are not modelled (C16 and C17 read its first bytes as the server left them).
  \<^item> The kernel's hash-table macros are not code of the repository; \<open>hash_add\<close>,
    \<open>hash_del\<close> and the bucket walk are modelled from their contract, over the
    repository's \<open>user_buff_map\<close>.
  \<^item> The unused locals of \<open>perf_rdma\<close>: \<open>k\<close>, \<open>mem_cnter\<close> (line 309) and the poll counter
    \<open>cnter\<close> (lines 324-330), whose \<open>int\<close> increment could only overflow after \<open>2^31\<close> polls, and the getters
    \<open>getQpairConn\<close>, \<open>getCProc\<close> and \<open>getQpairStruct\<close>, which change nothing. The value of \<open>hugePageSize\<close>
    from Coyote's \<open>cDefs.hpp\<close> is taken as 2 MiB, as in the RDMA server.
\<close>

section \<open>Properties across components\<close>

lemma pinned_releasable:
  assumes "no_wrap (pfa_vaddr pfa) (pfa_n_pages pfa)" "pfa_n_pages pfa \<noteq> 0" "length ps = unat (pfa_n_pages pfa)"
    "case cs of None \<Rightarrow> \<not> en_mem pd | Some c \<Rightarrow> en_mem pd \<and> length c = unat (pfa_n_pages pfa)"
    "unat (pfa_n_pages pfa) < 2 ^ 31" "\<not> pfa_hugepages pfa"
  shows "releasable pd (pinned_region pfa ps cs)"
  using assms
  by (auto simp: releasable_def entry_wf_def pinned_region_def tlb_pg_inc_def word_neq_0_conv split: option.splits)

text \<open>
  C4. Pinning and releasing are inverse (Page Pinner and Release together): after
  \<open>tlb_get_user_pages\<close> inserts a base-page region, \<open>tlb_put_user_pages\<close> at its start page
  finds it at the head of its bucket, and the release gives back exactly the table and the
  pin counts the pin started from.
\<close>

theorem pin_release_roundtrip:
  assumes pd: "pd_wf pd" and len: "length (user_buff_map s (pfa_cpid pfa)) = 2 ^ hash_order pd"
    and pin: "tlb_get_user_pages pd mm pfa s = Inr (Some p, s1)"
    and v: "user_page pd vaddr = pfa_vaddr pfa"
    and small: "unat (pfa_n_pages pfa) < 2 ^ 31" and base: "\<not> pfa_hugepages pfa"
  shows "\<exists>s2. tlb_put_user_pages pd vaddr (pfa_cpid pfa) hpid dirtied s1 = Inr (0, s2) \<and>
    user_buff_map s2 = user_buff_map s \<and> page_refs s2 = page_refs s"
proof -
  obtain ps cs s0 where nw: "no_wrap (pfa_vaddr pfa) (pfa_n_pages pfa)" and n0: "pfa_n_pages pfa \<noteq> 0"
    and lp: "length ps = unat (pfa_n_pages pfa)"
    and cs: "case cs of None \<Rightarrow> \<not> en_mem pd | Some c \<Rightarrow> en_mem pd \<and> length c = unat (pfa_n_pages pfa)"
    and m0: "user_buff_map s0 = user_buff_map s" and r0: "page_refs s0 = get_pages (page_refs s) ps"
    and ins: "insert_region pd (pinned_region pfa ps cs) s0 = (p, s1)"
    using tlb_get_user_pages_SomeD [OF pin] by blast
  let ?e = "pinned_region pfa ps cs" and ?c = "pfa_cpid pfa" and ?bits = "hash_order pd"
  let ?T = "user_buff_map s (pfa_cpid pfa)" and ?b = "hash_64 (pfa_vaddr pfa) (hash_order pd)"
  have b: "?b < length ?T" using len hash_64_bound by simp
  have s1: "p = (?b, 0)" "user_buff_map s1 = (user_buff_map s)(?c := ?T[?b := ?e # ?T ! ?b])" "page_refs s1 = page_refs s0"
    using ins m0 by (auto simp: insert_region_def hash_add_def pinned_region_def Let_def)
  have bucket: "user_buff_map s1 ?c ! ?b = ?e # ?T ! ?b" using s1(2) b by simp
  have at: "entry_at (user_buff_map s1 ?c) (?b, 0) = ?e" using bucket by (simp add: entry_at_def)
  have rel: "releasable pd ?e" using pinned_releasable [OF nw n0 lp cs small base] .
  obtain s2 where s2: "release_entry pd ?c (?b, 0) hpid dirtied s1 = Inr s2"
    "user_buff_map s2 = (user_buff_map s1)(?c := hash_del (user_buff_map s1 ?c) (?b, 0))"
    "page_refs s2 = put_pages (page_refs s1) (up_pages ?e)"
    using release_entry_eq [OF pd at rel] by blast
  have "up_vaddr ?e \<le> pfa_vaddr pfa + up_n_pages ?e" using nw by (simp add: pinned_region_def no_wrap_def not_less)
  then have "put_scan pd ?c hpid dirtied (pfa_vaddr pfa) ?b 0 (user_buff_map s1 ?c ! ?b) s1 =
      release_entry pd ?c (?b, 0) hpid dirtied s1"
    unfolding bucket by (simp add: pinned_region_def)
  then have "tlb_put_user_pages pd vaddr ?c hpid dirtied s1 = Inr (0, s2)"
    using s2(1) v by (simp add: tlb_put_user_pages_def)
  moreover have "hash_del (user_buff_map s1 ?c) (?b, 0) = ?T"
    using s1(2) b by (simp add: hash_del_head)
  moreover have "page_refs s2 = page_refs s"
    using s2(3) s1(3) r0 by (simp add: pinned_region_def put_get_pages)
  ultimately show ?thesis using s2(2) s1(2) by auto
qed

theorem pin_release_roundtrip_witness:
  "\<exists>p s1 s2. tlb_get_user_pages ex_pd ex_mm (ex_fault 0x64 3) ex_state = Inr (Some p, s1) \<and>
     tlb_put_user_pages ex_pd 0x64000 0 42 True s1 = Inr (0, s2) \<and>
     user_buff_map s2 = user_buff_map ex_state \<and> page_refs s2 = page_refs ex_state"
proof -
  have "case tlb_get_user_pages ex_pd ex_mm (ex_fault 0x64 3) ex_state of Inr (Some _, _) \<Rightarrow> True | _ \<Rightarrow> False"
    by code_simp
  then obtain p s1 where pin: "tlb_get_user_pages ex_pd ex_mm (ex_fault 0x64 3) ex_state = Inr (Some p, s1)"
    using pin_result_Some by blast
  have h: "pd_wf ex_pd" "length (user_buff_map ex_state (pfa_cpid (ex_fault 0x64 3))) = 2 ^ hash_order ex_pd"
    "unat (pfa_n_pages (ex_fault 0x64 3)) < 2 ^ 31" "\<not> pfa_hugepages (ex_fault 0x64 3)"
    by (simp_all add: pd_wf_def ex_pd_def ex_state_def empty_table_def ex_fault_def)
  have v: "user_page ex_pd 0x64000 = pfa_vaddr (ex_fault 0x64 3)" by code_simp
  have c: "pfa_cpid (ex_fault 0x64 3) = 0" by (simp add: ex_fault_def)
  show ?thesis using pin_release_roundtrip [OF h(1,2) pin v h(3,4), of 42 True] pin unfolding c by blast
qed

text \<open>
  C19. The two ends of \<open>perf_rdma\<close> stay in step (Bench Setup and the benchmark loop
  together): every run that returns calls \<open>ibvSync\<close> once before the loop and twice per
  transfer size, as master or slave, in read or write mode, whatever the repetition counts.
  So a master and a slave started with the same \<open>--mins\<close> and \<open>--maxs\<close> synchronise equally
  often; with different ones, one of them waits in a synchronisation the other never makes.
\<close>

theorem perf_sync_agree:
  assumes r1: "perf_main ip1 a1 cb1 m1 e1 = Some (Inr s1)" and r2: "perf_main ip2 a2 cb2 m2 e2 = Some (Inr s2)"
    and mins: "a_mins a1 = a_mins a2" and maxs: "a_maxs a1 = a_maxs a2"
  shows "sync_count (b_trace s1) = sync_count (b_trace s2)"
proof -
  obtain p1 ls1 where p1: "read_params ip1 a1 = Some (Inr p1)"
    and l1: "bench_sizes (p_min_size p1) (p_max_size p1) = Some ls1" and c1: "sync_count (b_trace s1) = 1 + 2 * length ls1"
    using perf_main_syncs [OF r1] by blast
  obtain p2 ls2 where p2: "read_params ip2 a2 = Some (Inr p2)"
    and l2: "bench_sizes (p_min_size p2) (p_max_size p2) = Some ls2" and c2: "sync_count (b_trace s2) = 1 + 2 * length ls2"
    using perf_main_syncs [OF r2] by blast
  have "p_min_size p1 = p_min_size p2" "p_max_size p1 = p_max_size p2"
    using read_params_sizes [OF p1] read_params_sizes [OF p2] mins maxs by simp_all
  then have "ls1 = ls2" using l1 l2 by simp
  then show ?thesis using c1 c2 by simp
qed

theorem perf_sync_agree_witness:
  "\<exists>s1 s2. perf_main (Some ''10.0.0.1'') ex_master_args 1 (replicate 128 0)
              [Poll 2, Poll 1, Poll 2, Poll 2, Poll 1, Poll 2] = Some (Inr s1) \<and>
           perf_main (Some ''10.0.0.2'') ex_slave_args 1 (replicate 128 0)
              [Poll 2, Poll 1, Poll 1, Poll 2, Poll 2, Poll 2, Poll 1, Poll 1, Poll 2, Poll 2] = Some (Inr s2) \<and>
           a_mins ex_master_args = a_mins ex_slave_args \<and> a_maxs ex_master_args = a_maxs ex_slave_args \<and>
           sync_count (b_trace s1) = sync_count (b_trace s2)"
proof -
  have "case perf_main (Some ''10.0.0.1'') ex_master_args 1 (replicate 128 0)
              [Poll 2, Poll 1, Poll 2, Poll 2, Poll 1, Poll 2] of Some (Inr _) \<Rightarrow> True | _ \<Rightarrow> False"
    by code_simp
  then obtain s1 where r1: "perf_main (Some ''10.0.0.1'') ex_master_args 1 (replicate 128 0)
              [Poll 2, Poll 1, Poll 2, Poll 2, Poll 1, Poll 2] = Some (Inr s1)"
    by (auto split: option.splits sum.splits)
  have "case perf_main (Some ''10.0.0.2'') ex_slave_args 1 (replicate 128 0)
              [Poll 2, Poll 1, Poll 1, Poll 2, Poll 2, Poll 2, Poll 1, Poll 1, Poll 2, Poll 2] of
          Some (Inr _) \<Rightarrow> True | _ \<Rightarrow> False"
    by code_simp
  then obtain s2 where r2: "perf_main (Some ''10.0.0.2'') ex_slave_args 1 (replicate 128 0)
              [Poll 2, Poll 1, Poll 1, Poll 2, Poll 2, Poll 2, Poll 1, Poll 1, Poll 2, Poll 2] = Some (Inr s2)"
    by (auto split: option.splits sum.splits)
  have m: "a_mins ex_master_args = a_mins ex_slave_args" "a_maxs ex_master_args = a_maxs ex_slave_args"
    by (simp_all add: ex_slave_args_def)
  show ?thesis using r1 r2 m perf_sync_agree [OF r1 r2 m] by blast
qed

end
